(* ===== verification/Coop_Prelude.thy ===== *)
theory Coop_Prelude
  imports Main "HOL-Library.Word" "HOL-Library.Multiset" "HOL-Library.Monad_Syntax"
begin

text \<open>
  Shared vocabulary of the development: the types that name the model's values, the
  collections of facts the component theories feed, and the generic lemmas on lists,
  options and indices that several components use.

  A C++ pointer is an \<open>addr\<close> (a natural number); the null pointer is \<open>0\<close>, as in the code's
  conversions to \<open>bool\<close>. A failed debug assertion is the value \<open>None\<close> of an \<open>option\<close> result.
\<close>

section \<open>Types and collections\<close>

type_synonym addr = nat
type_synonym u8 = "8 word"
type_synonym u16 = "16 word"
type_synonym u32 = "32 word"
type_synonym u64 = "64 word"

named_theorems links "how a store update changes the links of the nodes"
named_theorems ring_arith "arithmetic of ring indices"

abbreviation null :: addr where
  "null \<equiv> 0"

text \<open>A C++ assertion: the rest of the function runs only if the condition holds.\<close>

definition assert_that :: "bool \<Rightarrow> unit option" where
  "assert_that b = (if b then Some () else None)"

lemma assert_that_simps [simp]:
  "assert_that True = Some ()" "assert_that False = None"
  by (simp_all add: assert_that_def)

lemma bind_assert_that [simp]:
  "(Option.bind (assert_that b) f = Some y) \<longleftrightarrow> b \<and> f () = Some y"
  by (simp add: assert_that_def)

section \<open>Lists\<close>

lemma distinct_snocD: "distinct (xs @ [x]) \<Longrightarrow> x \<notin> set xs"
  by simp

lemma remove1_split:
  "x \<notin> set ys \<Longrightarrow> remove1 x (ys @ x # zs) = ys @ zs"
  by (simp add: remove1_append)

lemma in_set_split:
  assumes "x \<in> set xs" and "distinct xs"
  obtains ys zs where "xs = ys @ x # zs" and "x \<notin> set ys" and "x \<notin> set zs"
  using assms by (metis distinct.simps(2) distinct_append disjoint_insert(2) list.set(2) split_list)

section \<open>Memory\<close>

text \<open>Copying bytes into a buffer at an offset, as \<open>memcpy\<close> and \<open>memmove\<close> do.\<close>

definition memcpy :: "'a list \<Rightarrow> nat \<Rightarrow> 'a list \<Rightarrow> 'a list" where
  "memcpy dst at src = take at dst @ src @ drop (at + length src) dst"

lemma memcpy_at:
  assumes "at + length src \<le> length dst"
  shows "length (memcpy dst at src) = length dst" "take (at + length src) (memcpy dst at src) = take at dst @ src"
  using assms by (simp_all add: memcpy_def)

end
