(* ===== verification/Embedded_List.thy ===== *)
theory Embedded_List
  imports Coop_Prelude
begin

text \<open>
  The intrusive doubly linked list of \<open>coop/detail/embedded_list.h\<close>, at the level of its
  pointers. A store maps the address of a node to its \<open>prev\<close>/\<open>next\<close> hookups; a list is named by
  the address of its sentinel. The debug build is modelled: removed and fresh nodes carry the
  poison address, and an operation whose assertion fails returns \<open>None\<close>.

  \<open>is_list h s xs\<close> says that the sentinel \<open>s\<close> heads a well-formed ring whose elements, in
  order, are \<open>xs\<close>. Every operation is shown to compute the corresponding operation on \<open>xs\<close> and
  to leave the links of all other nodes alone; the locale \<open>intrusive_list\<close> states these facts
  as the interface its clients (wait lists, run queues) rely on.
\<close>

section \<open>Nodes and the store\<close>

record hookups =
  hk_prev :: addr
  hk_next :: addr

type_synonym store = "addr \<Rightarrow> hookups"

definition Poison :: addr where
  "Poison = 0xDEADBEEFDEADBEEF"

text \<open>The constructor of \<open>EmbeddedListHookups\<close>.\<close>

definition hookups_init :: "store \<Rightarrow> addr \<Rightarrow> store" where
  "hookups_init h n = h(n := \<lparr>hk_prev = Poison, hk_next = Poison\<rparr>)"

definition Disconnected :: "store \<Rightarrow> addr \<Rightarrow> bool" where
  "Disconnected h n \<longleftrightarrow> hk_next (h n) = Poison"

definition SetNext :: "store \<Rightarrow> addr \<Rightarrow> addr \<Rightarrow> store option" where
  "SetNext h x n = do { assert_that (n \<noteq> null); Some (h(x := (h x)\<lparr>hk_next := n\<rparr>)) }"

definition SetPrev :: "store \<Rightarrow> addr \<Rightarrow> addr \<Rightarrow> store option" where
  "SetPrev h x p = do { assert_that (p \<noteq> null); Some (h(x := (h x)\<lparr>hk_prev := p\<rparr>)) }"

text \<open>\<open>EmbeddedListHookups::Pop\<close>: unlink this node from whatever list holds it.\<close>

definition hookups_Pop :: "store \<Rightarrow> addr \<Rightarrow> store option" where
  "hookups_Pop h n = do {
     h1 \<leftarrow> SetNext h (hk_prev (h n)) (hk_next (h n));
     h2 \<leftarrow> SetPrev h1 (hk_next (h1 n)) (hk_prev (h1 n));
     Some (h2(n := \<lparr>hk_prev = Poison, hk_next = Poison\<rparr>)) }"

definition InsertBefore :: "store \<Rightarrow> addr \<Rightarrow> addr \<Rightarrow> store option" where
  "InsertBefore h n other = do {
     assert_that (Disconnected h n);
     assert_that (other \<noteq> n);
     assert_that (hk_prev (h other) \<noteq> n);
     h1 \<leftarrow> SetNext h (hk_prev (h other)) n;
     h2 \<leftarrow> SetPrev h1 n (hk_prev (h1 other));
     h3 \<leftarrow> SetNext h2 n other;
     SetPrev h3 other n }"

definition Replace :: "store \<Rightarrow> addr \<Rightarrow> addr \<Rightarrow> store option" where
  "Replace h n other = do {
     assert_that (\<not> Disconnected h n);
     h1 \<leftarrow> InsertBefore h other n;
     hookups_Pop h1 n }"

section \<open>The list operations\<close>

definition list_init :: "store \<Rightarrow> addr \<Rightarrow> store" where
  "list_init h s = h(s := \<lparr>hk_prev = s, hk_next = s\<rparr>)"

definition Push :: "store \<Rightarrow> addr \<Rightarrow> addr \<Rightarrow> store option" where
  "Push h s item = do {
     assert_that (Disconnected h item);
     let last = hk_prev (h s);
     let h1 = h(last := (h last)\<lparr>hk_next := item\<rparr>);
     let h2 = h1(item := (h1 item)\<lparr>hk_prev := last\<rparr>);
     let h3 = h2(item := (h2 item)\<lparr>hk_next := s\<rparr>);
     Some (h3(s := (h3 s)\<lparr>hk_prev := item\<rparr>)) }"

text \<open>\<open>EmbeddedList::Pop\<close>: the first element (\<open>null\<close> when the list is empty) and the store.\<close>

definition Pop :: "store \<Rightarrow> addr \<Rightarrow> addr \<times> store" where
  "Pop h s = (let first = hk_next (h s) in
     if first = s then (null, h)
     else let second = hk_next (h first);
              h1 = h(s := (h s)\<lparr>hk_next := second\<rparr>);
              h2 = h1(second := (h1 second)\<lparr>hk_prev := s\<rparr>)
          in (first, h2(first := \<lparr>hk_prev = Poison, hk_next = Poison\<rparr>)))"

definition Peek :: "store \<Rightarrow> addr \<Rightarrow> addr" where
  "Peek h s = hk_next (h s)"

definition Next :: "store \<Rightarrow> addr \<Rightarrow> addr \<Rightarrow> addr" where
  "Next h s n = (if hk_next (h n) = s then null else hk_next (h n))"

partial_function (option) Size_loop :: "store \<Rightarrow> addr \<Rightarrow> addr \<Rightarrow> nat \<Rightarrow> nat option" where
  "Size_loop h s at n = (if at \<noteq> s then Size_loop h s (hk_next (h at)) (n + 1) else Some n)"

definition Size :: "store \<Rightarrow> addr \<Rightarrow> nat option" where
  "Size h s = Size_loop h s (hk_next (h s)) 0"

definition IsEmpty :: "store \<Rightarrow> addr \<Rightarrow> bool" where
  "IsEmpty h s \<longleftrightarrow> hk_next (h s) = s"

partial_function (option) Contains_loop :: "store \<Rightarrow> addr \<Rightarrow> addr \<Rightarrow> addr \<Rightarrow> bool option" where
  "Contains_loop h s x at =
     (if at \<noteq> s then if at = x then Some True else Contains_loop h s x (hk_next (h at))
      else Some False)"

definition Contains :: "store \<Rightarrow> addr \<Rightarrow> addr \<Rightarrow> bool option" where
  "Contains h s x = Contains_loop h s x (hk_next (h s))"

definition Remove :: "store \<Rightarrow> addr \<Rightarrow> store option" where
  "Remove h x = hookups_Pop h x"

definition Steal :: "store \<Rightarrow> addr \<Rightarrow> addr \<Rightarrow> store option" where
  "Steal h s t = do {
     assert_that (IsEmpty h s);
     if IsEmpty h t then Some h
     else let h1 = h(s := (h s)\<lparr>hk_next := hk_next (h t)\<rparr>);
              h2 = h1(s := (h1 s)\<lparr>hk_prev := hk_prev (h1 t)\<rparr>);
              h3 = h2(hk_next (h2 s) := (h2 (hk_next (h2 s)))\<lparr>hk_prev := s\<rparr>);
              h4 = h3(hk_prev (h3 s) := (h3 (hk_prev (h3 s)))\<lparr>hk_next := s\<rparr>)
          in Some (h4(t := \<lparr>hk_prev = t, hk_next = t\<rparr>)) }"

text \<open>
  \<open>Visit\<close>: the callback acts on the store and on the caller's state and says whether to go on;
  the successor is read before the callback runs.
\<close>

partial_function (option) Visit_loop ::
  "addr \<Rightarrow> (addr \<Rightarrow> store \<times> 'c \<Rightarrow> bool \<times> store \<times> 'c) \<Rightarrow> addr \<Rightarrow> store \<times> 'c \<Rightarrow> (store \<times> 'c) option" where
  "Visit_loop s fn at hc =
     (if at \<noteq> s then
        (let nxt = hk_next (fst hc at) in
         case fn at hc of (cont, hc') \<Rightarrow> if \<not> cont then Some hc' else Visit_loop s fn nxt hc')
      else Some hc)"

definition Visit ::
  "addr \<Rightarrow> (addr \<Rightarrow> store \<times> 'c \<Rightarrow> bool \<times> store \<times> 'c) \<Rightarrow> store \<times> 'c \<Rightarrow> (store \<times> 'c) option" where
  "Visit s fn hc = Visit_loop s fn (hk_next (fst hc s)) hc"

section \<open>Well-formed rings\<close>

primrec chain :: "store \<Rightarrow> addr \<Rightarrow> addr list \<Rightarrow> addr \<Rightarrow> bool" where
  "chain h a [] b \<longleftrightarrow> hk_next (h a) = b \<and> hk_prev (h b) = a"
| "chain h a (x # xs) b \<longleftrightarrow> hk_next (h a) = x \<and> hk_prev (h x) = a \<and> chain h x xs b"

definition valid_addr :: "addr \<Rightarrow> bool" where
  "valid_addr n \<longleftrightarrow> n \<noteq> null \<and> n \<noteq> Poison"

definition is_list :: "store \<Rightarrow> addr \<Rightarrow> addr list \<Rightarrow> bool" where
  "is_list h s xs \<longleftrightarrow> chain h s xs s \<and> distinct (s # xs) \<and> list_all valid_addr (s # xs)"

lemma chain_append [links]:
  "chain h a (xs @ y # ys) b \<longleftrightarrow> chain h a xs y \<and> chain h y ys b"
  by (induction xs arbitrary: a) auto

lemma chain_next: "chain h a xs b \<Longrightarrow> hk_next (h a) = hd (xs @ [b])"
  by (cases xs) auto

lemma chain_prev: "chain h a xs b \<Longrightarrow> hk_prev (h b) = last (a # xs)"
  by (induction xs arbitrary: a) auto

lemma chain_frame:
  assumes "\<And>n. n \<in> set (a # xs) \<Longrightarrow> hk_next (h' n) = hk_next (h n)"
    and "\<And>n. n \<in> set (xs @ [b]) \<Longrightarrow> hk_prev (h' n) = hk_prev (h n)"
  shows "chain h' a xs b = chain h a xs b"
  using assms by (induction xs arbitrary: a) auto

lemma chain_frameI:
  assumes "chain h a xs b"
    and "\<And>n. n \<in> set (a # xs) \<Longrightarrow> hk_next (h' n) = hk_next (h n)"
    and "\<And>n. n \<in> set (xs @ [b]) \<Longrightarrow> hk_prev (h' n) = hk_prev (h n)"
  shows "chain h' a xs b"
  using assms chain_frame by metis

lemma is_listD:
  assumes "is_list h s xs"
  shows "chain h s xs s" "distinct (s # xs)" "\<And>n. n \<in> set (s # xs) \<Longrightarrow> n \<noteq> null \<and> n \<noteq> Poison"
  using assms by (auto simp: is_list_def list_all_iff valid_addr_def)

lemma is_list_frame:
  assumes "is_list h s xs" and "\<And>n. n \<in> set (s # xs) \<Longrightarrow> h' n = h n"
  shows "is_list h' s xs"
  using assms unfolding is_list_def by (auto intro: chain_frameI)

lemma is_list_connected:
  assumes "is_list h s xs" and "x \<in> set (s # xs)"
  shows "\<not> Disconnected h x"
proof -
  have "hk_next (h x) \<in> set (s # xs)"
  proof (cases "x = s")
    case True
    then show ?thesis
      using chain_next [OF is_listD(1) [OF assms(1)]] by (cases xs) auto
  next
    case False
    with assms(2) obtain ys zs where "xs = ys @ x # zs" by (auto dest: split_list)
    with is_listD(1) [OF assms(1)] have "chain h x zs s" by (simp add: chain_append)
    with \<open>xs = ys @ x # zs\<close> show ?thesis
      using chain_next by (cases zs) force+
  qed
  then show ?thesis
    using is_listD(3) [OF assms(1)] unfolding Disconnected_def by blast
qed

lemma is_list_notin: "is_list h s xs \<Longrightarrow> Disconnected h x \<Longrightarrow> x \<notin> set (s # xs)"
  using is_list_connected by blast

section \<open>What the operations compute\<close>

lemma is_list_init: "valid_addr s \<Longrightarrow> is_list (list_init h s) s []"
  by (simp add: is_list_def list_init_def)

lemma IsEmpty_iff: "is_list h s xs \<Longrightarrow> IsEmpty h s \<longleftrightarrow> xs = []"
  by (cases xs) (auto simp: IsEmpty_def is_list_def)

lemma Peek_eq: "is_list h s (x # xs) \<Longrightarrow> Peek h s = x"
  by (simp add: Peek_def is_list_def)

lemma Next_eq:
  assumes "is_list h s (ys @ x # zs)"
  shows "Next h s x = (case zs of [] \<Rightarrow> null | z # _ \<Rightarrow> z)"
proof -
  from assms have "chain h x zs s" and "s \<notin> set zs"
    by (auto simp: is_list_def chain_append)
  then show ?thesis by (cases zs) (auto simp: Next_def)
qed

lemma Push_ok:
  assumes "is_list h s xs" and "Disconnected h item" and "valid_addr item"
  shows "\<exists>h'. Push h s item = Some h' \<and> is_list h' s (xs @ [item])
           \<and> (\<forall>n. n \<notin> set (s # xs @ [item]) \<longrightarrow> h' n = h n)"
proof -
  define l where "l = hk_prev (h s)"
  define h' where "h' = (let h1 = h(l := (h l)\<lparr>hk_next := item\<rparr>);
     h2 = h1(item := (h1 item)\<lparr>hk_prev := l\<rparr>); h3 = h2(item := (h2 item)\<lparr>hk_next := s\<rparr>)
     in h3(s := (h3 s)\<lparr>hk_prev := item\<rparr>))"
  note D = is_listD [OF assms(1)]
  have notin: "item \<notin> set (s # xs)" by (rule is_list_notin [OF assms(1,2)])
  have l: "l = last (s # xs)" unfolding l_def by (rule chain_prev [OF D(1)])
  have eq: "Push h s item = Some h'"
    by (simp add: Push_def assms(2) h'_def l_def Let_def)
  have nx: "hk_next (h' n) = (if n = item then s else if n = l then item else hk_next (h n))" for n
    using notin by (auto simp: h'_def Let_def)
  have pv: "hk_prev (h' n) = (if n = item then l else if n = s then item else hk_prev (h n))" for n
    using notin by (auto simp: h'_def Let_def)
  have "chain h' s (xs @ [item]) s"
  proof (cases xs rule: rev_cases)
    case Nil
    then show ?thesis using l notin by (auto simp: nx pv)
  next
    case (snoc ys y)
    with D(1) have "chain h s ys y" by (simp add: chain_append)
    then have "chain h' s ys y"
      by (rule chain_frameI) (use D(2) notin snoc l in \<open>auto simp: nx pv\<close>)
    with snoc l notin D(2) show ?thesis by (auto simp: chain_append nx pv)
  qed
  moreover have "h' n = h n" if "n \<notin> set (s # xs @ [item])" for n
  proof -
    have "n \<noteq> l" using that l by (auto simp: last_ConsR split: if_splits)
    with that show ?thesis by (simp add: h'_def Let_def)
  qed
  ultimately show ?thesis
    using eq D(2) notin assms(1,3) by (auto simp: is_list_def)
qed

lemma Pop_Nil: "is_list h s [] \<Longrightarrow> Pop h s = (null, h)"
  by (simp add: Pop_def is_list_def)

lemma Pop_Cons:
  assumes "is_list h s (x # xs)"
  shows "\<exists>h'. Pop h s = (x, h') \<and> is_list h' s xs \<and> Disconnected h' x
           \<and> (\<forall>n. n \<notin> set (s # x # xs) \<longrightarrow> h' n = h n)"
proof -
  note D = is_listD [OF assms]
  define m where "m = hk_next (h x)"
  define h' where "h' = (let h1 = h(s := (h s)\<lparr>hk_next := m\<rparr>); h2 = h1(m := (h1 m)\<lparr>hk_prev := s\<rparr>)
     in h2(x := \<lparr>hk_prev = Poison, hk_next = Poison\<rparr>))"
  have m: "m = hd (xs @ [s])" and mx: "m \<noteq> x"
    using chain_next [of h x xs s] D(1,2) by (cases xs; auto simp: m_def)+
  have eq: "Pop h s = (x, h')"
    using D(1,2) by (simp add: Pop_def h'_def m_def Let_def)
  have nx: "hk_next (h' n) = (if n = x then Poison else if n = s then m else hk_next (h n))" for n
    using mx by (auto simp: h'_def Let_def)
  have pv: "hk_prev (h' n) = (if n = x then Poison else if n = m then s else hk_prev (h n))" for n
    using mx by (auto simp: h'_def Let_def)
  have "chain h' s xs s"
  proof (cases xs)
    case Nil
    then show ?thesis using m D(2) by (auto simp: nx pv)
  next
    case (Cons y ys)
    with D(1) have "chain h y ys s" by simp
    then have "chain h' y ys s"
      by (rule chain_frameI) (use D(2) Cons m in \<open>auto simp: nx pv\<close>)
    with Cons m D(2) show ?thesis by (auto simp: nx pv)
  qed
  moreover have "h' n = h n" if "n \<notin> set (s # x # xs)" for n
  proof -
    have "n \<noteq> m" using that m by (cases xs) auto
    with that show ?thesis by (simp add: h'_def Let_def)
  qed
  moreover have "Disconnected h' x" by (simp add: Disconnected_def nx)
  ultimately show ?thesis
    using eq assms by (auto simp: is_list_def)
qed

lemma Remove_ok:
  assumes "is_list h s (ys @ x # zs)"
  shows "\<exists>h'. Remove h x = Some h' \<and> is_list h' s (ys @ zs) \<and> Disconnected h' x
           \<and> (\<forall>n. n \<notin> set (s # ys @ x # zs) \<longrightarrow> h' n = h n)"
proof -
  note D = is_listD [OF assms]
  define p where "p = hk_prev (h x)"
  define m where "m = hk_next (h x)"
  from D(1) have c1: "chain h s ys x" and c2: "chain h x zs s" by (simp_all add: chain_append)
  have p: "p = last (s # ys)" and m: "m = hd (zs @ [s])"
    unfolding p_def m_def using chain_prev [OF c1] chain_next [OF c2] by simp_all
  have pin: "p \<in> set (s # ys)" using p by (auto split: if_splits)
  have min: "m \<in> set (s # zs)" using m by (cases zs) auto
  have ne: "p \<noteq> x" "m \<noteq> x" "x \<noteq> s" "p \<noteq> null" "m \<noteq> null"
    using pin min D(2,3) by auto
  define h' where "h' = (let h1 = h(p := (h p)\<lparr>hk_next := m\<rparr>); h2 = h1(m := (h1 m)\<lparr>hk_prev := p\<rparr>)
     in h2(x := \<lparr>hk_prev = Poison, hk_next = Poison\<rparr>))"
  have eq: "Remove h x = Some h'"
    using ne by (simp add: Remove_def hookups_Pop_def SetNext_def SetPrev_def h'_def
        flip: p_def m_def)
  have nx: "hk_next (h' n) = (if n = x then Poison else if n = p then m else hk_next (h n))" for n
    using ne by (auto simp: h'_def Let_def)
  have pv: "hk_prev (h' n) = (if n = x then Poison else if n = m then p else hk_prev (h n))" for n
    using ne by (auto simp: h'_def Let_def)
  have "chain h' s (ys @ zs) s"
  proof (cases ys rule: rev_cases)
    case Nil
    show ?thesis
    proof (cases zs)
      case (Cons z zs')
      with c2 have "chain h z zs' s" by simp
      then have "chain h' z zs' s"
        by (rule chain_frameI) (use D(2) Cons m p Nil in \<open>auto simp: nx pv\<close>)
      with Cons Nil m p D(2) show ?thesis by (auto simp: nx pv)
    qed (use Nil m p D(2) in \<open>auto simp: nx pv\<close>)
  next
    case (snoc ys' y)
    with c1 have "chain h s ys' y" by (simp add: chain_append)
    then have a: "chain h' s ys' y"
      by (rule chain_frameI)
        (use D(2) snoc m p min in \<open>auto simp: nx pv hd_append split: if_splits\<close>)
    have b: "chain h' y zs s"
    proof (cases zs)
      case (Cons z zs')
      with c2 have "chain h z zs' s" by simp
      then have "chain h' z zs' s"
        by (rule chain_frameI) (use D(2) Cons m p snoc in \<open>auto simp: nx pv\<close>)
      with Cons snoc m p D(2) show ?thesis by (auto simp: nx pv)
    qed (use snoc m p D(2) in \<open>auto simp: nx pv\<close>)
    from a b snoc show ?thesis by (simp add: chain_append)
  qed
  moreover have "h' n = h n" if "n \<notin> set (s # ys @ x # zs)" for n
    using that pin min by (auto simp: h'_def Let_def)
  moreover have "Disconnected h' x" by (simp add: Disconnected_def nx)
  ultimately show ?thesis
    using eq assms by (auto simp: is_list_def)
qed

lemma InsertBefore_ok:
  assumes "is_list h s (ys @ x # zs)" and "Disconnected h n" and "valid_addr n"
  shows "\<exists>h'. InsertBefore h n x = Some h' \<and> is_list h' s (ys @ n # x # zs)
           \<and> (\<forall>k. k \<notin> set (s # n # ys @ x # zs) \<longrightarrow> h' k = h k)"
proof -
  note D = is_listD [OF assms(1)]
  have notin: "n \<notin> set (s # ys @ x # zs)" by (rule is_list_notin [OF assms(1,2)])
  from D(1) have c1: "chain h s ys x" and c2: "chain h x zs s" by (simp_all add: chain_append)
  define p where "p = hk_prev (h x)"
  have p: "p = last (s # ys)" unfolding p_def by (rule chain_prev [OF c1])
  have pin: "p \<in> set (s # ys)" using p by (auto split: if_splits)
  have ne: "p \<noteq> n" "x \<noteq> n" "p \<noteq> null" "n \<noteq> null" "x \<noteq> null" "p \<noteq> x" "x \<noteq> s"
    using notin pin D(2,3) assms(3) by (auto simp: valid_addr_def)
  define h' where "h' = (let h1 = h(p := (h p)\<lparr>hk_next := n\<rparr>); h2 = h1(n := (h1 n)\<lparr>hk_prev := p\<rparr>);
     h3 = h2(n := (h2 n)\<lparr>hk_next := x\<rparr>) in h3(x := (h3 x)\<lparr>hk_prev := n\<rparr>))"
  have eq: "InsertBefore h n x = Some h'"
    using ne assms(2) by (simp add: InsertBefore_def SetNext_def SetPrev_def h'_def flip: p_def)
  have nx: "hk_next (h' k) = (if k = n then x else if k = p then n else hk_next (h k))" for k
    using ne by (auto simp: h'_def Let_def)
  have pv: "hk_prev (h' k) = (if k = n then p else if k = x then n else hk_prev (h k))" for k
    using ne by (auto simp: h'_def Let_def)
  have a: "chain h' s ys n"
  proof (cases ys rule: rev_cases)
    case (snoc ys' y)
    with c1 have "chain h s ys' y" by (simp add: chain_append)
    then have "chain h' s ys' y"
      by (rule chain_frameI) (use D(2) snoc p notin in \<open>auto simp: nx pv\<close>)
    with snoc p notin D(2) show ?thesis by (auto simp: chain_append nx pv)
  qed (use p notin in \<open>auto simp: nx pv\<close>)
  have "chain h' x zs s"
    using c2 by (rule chain_frameI) (use D(2) pin notin ne in \<open>auto simp: nx pv\<close>)
  with a have "chain h' s (ys @ n # x # zs) s" using ne by (simp add: chain_append nx pv)
  moreover have "h' k = h k" if "k \<notin> set (s # n # ys @ x # zs)" for k
    using that pin by (auto simp: h'_def Let_def)
  ultimately show ?thesis
    using eq assms(1,3) notin by (auto simp: is_list_def)
qed

lemma Replace_ok:
  assumes "is_list h s (ys @ x # zs)" and "Disconnected h n" and "valid_addr n"
  shows "\<exists>h'. Replace h x n = Some h' \<and> is_list h' s (ys @ n # zs) \<and> Disconnected h' x"
proof -
  obtain h1 where h1: "InsertBefore h n x = Some h1" "is_list h1 s ((ys @ [n]) @ x # zs)"
    using InsertBefore_ok [OF assms] by auto
  obtain h2 where "Remove h1 x = Some h2" "is_list h2 s ((ys @ [n]) @ zs)" "Disconnected h2 x"
    using Remove_ok [OF h1(2)] by auto
  with h1(1) show ?thesis
    using is_list_connected [OF assms(1), of x] by (simp add: Replace_def Remove_def)
qed

lemma Steal_ok:
  assumes "is_list h s []" and "is_list h t xs" and "s \<notin> set (t # xs)"
  shows "\<exists>h'. Steal h s t = Some h' \<and> is_list h' s xs \<and> is_list h' t []
           \<and> (\<forall>n. n \<notin> set (s # t # xs) \<longrightarrow> h' n = h n)"
proof (cases xs)
  case Nil
  with assms IsEmpty_iff [OF assms(2)] IsEmpty_iff [OF assms(1)] show ?thesis
    by (simp add: Steal_def)
next
  case (Cons x xs')
  note D = is_listD [OF assms(2)]
  define f where "f = hk_next (h t)"
  define l where "l = hk_prev (h t)"
  have f: "f = x" using chain_next [OF D(1)] Cons by (simp add: f_def)
  have l: "l = last xs" using chain_prev [OF D(1)] Cons by (simp add: l_def)
  have lin: "l \<in> set xs" using l Cons by auto
  have ne: "t \<noteq> s" "f \<noteq> s" "f \<noteq> t" "l \<noteq> s" "l \<noteq> t"
    using assms(3) D(2) Cons f lin by auto
  define h' where "h' = (let h1 = h(s := (h s)\<lparr>hk_next := f, hk_prev := l\<rparr>); h3 = h1(f := (h1 f)\<lparr>hk_prev := s\<rparr>);
     h4 = h3(l := (h3 l)\<lparr>hk_next := s\<rparr>) in h4(t := \<lparr>hk_prev = t, hk_next = t\<rparr>))"
  have eq: "Steal h s t = Some h'"
    using ne Cons IsEmpty_iff [OF assms(1)] IsEmpty_iff [OF assms(2)]
    by (simp add: Steal_def h'_def Let_def flip: f_def l_def)
  have nx: "hk_next (h' n) = (if n = t then t else if n = l then s else if n = s then f
      else hk_next (h n))" for n
    using ne by (auto simp: h'_def Let_def)
  have pv: "hk_prev (h' n) = (if n = t then t else if n = f then s else if n = s then l
      else hk_prev (h n))" for n
    using ne by (auto simp: h'_def Let_def)
  have "chain h' s xs s"
  proof (cases xs' rule: rev_cases)
    case Nil
    then show ?thesis using Cons f l ne by (auto simp: nx pv)
  next
    case (snoc ys y)
    with Cons D(1) have "chain h x ys y" by (simp add: chain_append)
    then have "chain h' x ys y"
      by (rule chain_frameI) (use D(2) Cons snoc f l ne assms(3) in \<open>auto simp: nx pv\<close>)
    with Cons snoc f l ne D(2) show ?thesis by (auto simp: chain_append nx pv)
  qed
  moreover have "h' n = h n" if "n \<notin> set (s # t # xs)" for n
    using that lin f Cons by (auto simp: h'_def Let_def)
  ultimately show ?thesis
    using eq assms by (auto simp: is_list_def nx pv)
qed

lemma Size_loop_chain:
  "chain h a xs s \<Longrightarrow> s \<notin> set xs \<Longrightarrow> Size_loop h s (hk_next (h a)) n = Some (n + length xs)"
  by (induction xs arbitrary: a n) (auto simp: Size_loop.simps)

lemma Size_ok: "is_list h s xs \<Longrightarrow> Size h s = Some (length xs)"
  unfolding Size_def is_list_def using Size_loop_chain [of h s xs s 0] by simp

lemma Contains_loop_chain:
  "chain h a xs s \<Longrightarrow> s \<notin> set xs \<Longrightarrow> Contains_loop h s x (hk_next (h a)) = Some (x \<in> set xs)"
  by (induction xs arbitrary: a) (auto simp: Contains_loop.simps)

lemma Contains_ok: "is_list h s xs \<Longrightarrow> Contains h s x = Some (x \<in> set xs)"
  unfolding Contains_def is_list_def using Contains_loop_chain [of h s xs s x] by simp

text \<open>
  The drain loop \<open>while (auto* x = list.Pop())\<close> that \<open>Signal::Notify\<close> and the continuation
  drain run; it collects the nodes in the order it visits them.
\<close>

partial_function (option) PopAll :: "store \<Rightarrow> addr \<Rightarrow> addr list \<Rightarrow> (addr list \<times> store) option" where
  "PopAll h s acc = (case Pop h s of (x, h') \<Rightarrow>
     if x = null then Some (rev acc, h') else PopAll h' s (x # acc))"

section \<open>The interface of an intrusive list\<close>

text \<open>
  What a client may assume of an intrusive list: the contents are a sequence, \<open>push\<close> appends,
  \<open>pop\<close> takes the oldest, \<open>unlink\<close> removes any element, \<open>steal\<close> moves everything over; a node
  that leaves a list is detached and may join another.
\<close>

locale intrusive_list =
  fixes rep :: "'h \<Rightarrow> 's \<Rightarrow> 'a list \<Rightarrow> bool"
    and detached :: "'h \<Rightarrow> 'a \<Rightarrow> bool"
    and push :: "'h \<Rightarrow> 's \<Rightarrow> 'a \<Rightarrow> 'h option"
    and pop :: "'h \<Rightarrow> 's \<Rightarrow> ('a \<times> 'h) option"
    and unlink :: "'h \<Rightarrow> 'a \<Rightarrow> 'h option"
  assumes push_law: "rep h s xs \<Longrightarrow> detached h x \<Longrightarrow> \<exists>h'. push h s x = Some h' \<and> rep h' s (xs @ [x])"
    and pop_empty: "rep h s [] \<Longrightarrow> pop h s = None"
    and pop_law: "rep h s (x # xs) \<Longrightarrow>
      \<exists>h'. pop h s = Some (x, h') \<and> rep h' s xs \<and> detached h' x
        \<and> (\<forall>y. detached h y \<longrightarrow> detached h' y)"
    and unlink_law: "rep h s (ys @ x # zs) \<Longrightarrow> \<exists>h'. unlink h x = Some h' \<and> rep h' s (ys @ zs) \<and> detached h' x"
begin

lemma pop_push_fifo:
  assumes "rep h s xs" and "detached h x"
  shows "\<exists>h1 h2. push h s x = Some h1 \<and> pop h1 s = Some (hd (xs @ [x]), h2) \<and> rep h2 s (tl (xs @ [x]))"
proof -
  obtain h1 where "push h s x = Some h1" "rep h1 s (xs @ [x])"
    using push_law [OF assms] by blast
  then show ?thesis
    by (cases xs) (auto dest: pop_law)
qed

lemma drain_step:
  assumes "rep h s xs" and "\<forall>y \<in> set ds. detached h y"
  shows "case pop h s of None \<Rightarrow> xs = []
     | Some (x, h') \<Rightarrow> xs = x # tl xs \<and> rep h' s (tl xs) \<and> (\<forall>y \<in> set (ds @ [x]). detached h' y)"
proof (cases xs)
  case Nil
  with assms show ?thesis by (simp add: pop_empty)
next
  case (Cons x xs')
  with assms pop_law [of h s x xs'] show ?thesis by auto
qed

lemma rotate:
  assumes "rep h s (x # xs)"
  shows "\<exists>h1 h2. pop h s = Some (x, h1) \<and> push h1 s x = Some h2 \<and> rep h2 s (xs @ [x])"
  using pop_law [OF assms] push_law by blast

end

definition detached :: "store \<Rightarrow> addr \<Rightarrow> bool" where
  "detached h n \<longleftrightarrow> Disconnected h n \<and> valid_addr n"

definition pop_opt :: "store \<Rightarrow> addr \<Rightarrow> (addr \<times> store) option" where
  "pop_opt h s = (case Pop h s of (x, h') \<Rightarrow> if x = null then None else Some (x, h'))"

lemma Pop_Cons_detached:
  assumes "is_list h s (x # xs)"
  shows "\<exists>h'. Pop h s = (x, h') \<and> is_list h' s xs \<and> detached h' x \<and> x \<noteq> null
     \<and> (\<forall>y. detached h y \<longrightarrow> detached h' y)"
proof -
  obtain h' where h': "Pop h s = (x, h')" "is_list h' s xs" "Disconnected h' x"
      "\<forall>n. n \<notin> set (s # x # xs) \<longrightarrow> h' n = h n"
    using Pop_Cons [OF assms] by blast
  have "valid_addr x" using assms by (simp add: is_list_def)
  moreover have "detached h' y" if "detached h y" for y
    using that is_list_notin [OF assms, of y] h'(4) by (auto simp: detached_def Disconnected_def)
  ultimately show ?thesis using h' by (auto simp: detached_def valid_addr_def)
qed

interpretation elist: intrusive_list is_list detached Push pop_opt Remove
proof (unfold_locales, goal_cases)
  case (1 h s xs x)
  then show ?case using Push_ok [of h s xs x] by (auto simp: detached_def)
next
  case (2 h s)
  then show ?case by (simp add: pop_opt_def Pop_Nil)
next
  case (3 h s x xs)
  then show ?case using Pop_Cons_detached [OF 3] by (auto simp: pop_opt_def)
next
  case (4 h s ys x zs)
  then have "valid_addr x" by (simp add: is_list_def)
  with Remove_ok [OF 4] show ?case by (auto simp: detached_def)
qed

text \<open>The drain loop empties the list, visiting each element once, oldest first.\<close>

lemma PopAll_acc:
  assumes "is_list h s xs" and "\<forall>y \<in> set acc. detached h y"
  shows "\<exists>h'. PopAll h s acc = Some (rev acc @ xs, h') \<and> is_list h' s []
     \<and> (\<forall>y \<in> set (acc @ xs). detached h' y)"
  using assms
proof (induction xs arbitrary: h acc)
  case Nil
  then show ?case using Pop_Nil [OF Nil(1)] by (simp add: PopAll.simps)
next
  case (Cons x xs)
  obtain h1 where h1: "Pop h s = (x, h1)" "is_list h1 s xs" "x \<noteq> null"
      "\<forall>y \<in> set (x # acc). detached h1 y"
    using Pop_Cons_detached [OF Cons.prems(1)] Cons.prems(2) by auto
  from Cons.IH [OF h1(2,4)] show ?case
    using h1(1,3) by (auto simp: PopAll.simps [of h])
qed

lemma PopAll_ok:
  "is_list h s xs \<Longrightarrow> \<exists>h'. PopAll h s [] = Some (xs, h') \<and> is_list h' s [] \<and> (\<forall>y \<in> set xs. detached h' y)"
  using PopAll_acc [of h s xs "[]"] by simp

end
