(* ===== verification/List_Pool.thy ===== *)
theory List_Pool
  imports Embedded_List
begin

text \<open>
  Several intrusive lists over one population of nodes: the cooperator's run queues, the wait
  lists of the coordinators and a signal's local list are such a pool, and nodes move between
  them. The abstract machine keeps, for every list, its sequence of elements, and the set of
  detached nodes; the pointer-level operations are shown to simulate it on every run.
\<close>

section \<open>The abstract pool and the pointer-level pool\<close>

datatype list_op =
    OpPush addr addr
  | OpPop addr
  | OpRemove addr addr
  | OpReplace addr addr addr
  | OpInsertBefore addr addr addr
  | OpSteal addr addr

record pool =
  contents :: "addr \<rightharpoonup> addr list"
  free :: "addr set"

text \<open>\<open>Some (r, p)\<close> is an admitted call with result \<open>r\<close>; \<open>None\<close> is a call that breaks the list's contract.\<close>

fun pool_step :: "list_op \<Rightarrow> pool \<Rightarrow> (addr \<times> pool) option" where
  "pool_step (OpPush s x) p = (case contents p s of None \<Rightarrow> None | Some xs \<Rightarrow>
     if x \<in> free p then Some (null, p\<lparr>contents := (contents p)(s \<mapsto> xs @ [x]), free := free p - {x}\<rparr>) else None)"
| "pool_step (OpPop s) p = (case contents p s of None \<Rightarrow> None
     | Some [] \<Rightarrow> Some (null, p)
     | Some (x # xs) \<Rightarrow> Some (x, p\<lparr>contents := (contents p)(s \<mapsto> xs), free := insert x (free p)\<rparr>))"
| "pool_step (OpRemove s x) p = (case contents p s of None \<Rightarrow> None | Some xs \<Rightarrow>
     if x \<in> set xs
     then Some (null, p\<lparr>contents := (contents p)(s \<mapsto> remove1 x xs), free := insert x (free p)\<rparr>) else None)"
| "pool_step (OpReplace s x n) p = (case contents p s of None \<Rightarrow> None | Some xs \<Rightarrow>
     if x \<in> set xs \<and> n \<in> free p
     then Some (null, p\<lparr>contents := (contents p)(s \<mapsto> map (\<lambda>y. if y = x then n else y) xs),
                        free := insert x (free p - {n})\<rparr>) else None)"
| "pool_step (OpInsertBefore s n x) p = (case contents p s of None \<Rightarrow> None | Some xs \<Rightarrow>
     if x \<in> set xs \<and> n \<in> free p
     then Some (null, p\<lparr>contents := (contents p)(s \<mapsto> concat (map (\<lambda>y. if y = x then [n, y] else [y]) xs)),
                        free := free p - {n}\<rparr>) else None)"
| "pool_step (OpSteal s t) p = (case (contents p s, contents p t) of
     (Some [], Some xs) \<Rightarrow>
       if s = t then None else Some (null, p\<lparr>contents := (contents p)(s \<mapsto> xs, t \<mapsto> [])\<rparr>)
   | _ \<Rightarrow> None)"

fun store_step :: "list_op \<Rightarrow> store \<Rightarrow> (addr \<times> store) option" where
  "store_step (OpPush s x) h = map_option (Pair null) (Push h s x)"
| "store_step (OpPop s) h = Some (Pop h s)"
| "store_step (OpRemove s x) h = map_option (Pair null) (Remove h x)"
| "store_step (OpReplace s x n) h = map_option (Pair null) (Replace h x n)"
| "store_step (OpInsertBefore s n x) h = map_option (Pair null) (InsertBefore h n x)"
| "store_step (OpSteal s t) h = map_option (Pair null) (Steal h s t)"

fun pool_run :: "list_op list \<Rightarrow> pool \<Rightarrow> (addr list \<times> pool) option" where
  "pool_run [] p = Some ([], p)"
| "pool_run (e # es) p = do {
     (r, p') \<leftarrow> pool_step e p; (rs, p'') \<leftarrow> pool_run es p'; Some (r # rs, p'') }"

fun store_run :: "list_op list \<Rightarrow> store \<Rightarrow> (addr list \<times> store) option" where
  "store_run [] h = Some ([], h)"
| "store_run (e # es) h = do {
     (r, h') \<leftarrow> store_step e h; (rs, h'') \<leftarrow> store_run es h'; Some (r # rs, h'') }"

section \<open>The simulation\<close>

definition members :: "pool \<Rightarrow> addr \<Rightarrow> addr set" where
  "members p s = (case contents p s of None \<Rightarrow> {} | Some xs \<Rightarrow> set (s # xs))"

definition pool_rep :: "store \<Rightarrow> pool \<Rightarrow> bool" where
  "pool_rep h p \<longleftrightarrow>
     (\<forall>s xs. contents p s = Some xs \<longrightarrow> is_list h s xs) \<and>
     (\<forall>s t. s \<noteq> t \<longrightarrow> members p s \<inter> members p t = {}) \<and>
     (\<forall>x \<in> free p. detached h x)"

lemma pool_repI:
  assumes "\<And>s xs. contents p s = Some xs \<Longrightarrow> is_list h s xs"
    and "\<And>s t. s \<noteq> t \<Longrightarrow> members p s \<inter> members p t = {}"
    and "\<And>x. x \<in> free p \<Longrightarrow> detached h x"
  shows "pool_rep h p"
  using assms unfolding pool_rep_def by blast

lemma pool_repD:
  assumes "pool_rep h p"
  shows "\<And>s xs. contents p s = Some xs \<Longrightarrow> is_list h s xs"
    and "\<And>s t. s \<noteq> t \<Longrightarrow> members p s \<inter> members p t = {}"
    and "\<And>x. x \<in> free p \<Longrightarrow> detached h x"
  using assms unfolding pool_rep_def by blast+

lemma pool_rep_free_notin: "pool_rep h p \<Longrightarrow> x \<in> free p \<Longrightarrow> x \<notin> members p s"
  using pool_repD(1,3) is_list_notin unfolding members_def detached_def
  by (fastforce split: option.splits)

text \<open>
  One list changes: its new contents hold nodes of the old contents and free nodes only, and the
  store changes at those nodes only.
\<close>

lemma pool_rep_update:
  assumes rep: "pool_rep h p" and old: "contents p s = Some xs"
    and new: "is_list h' s ys"
    and sub: "set ys \<subseteq> set xs \<union> F" and F: "F \<subseteq> free p"
    and frame: "\<And>n. n \<notin> set (s # xs) \<union> F \<Longrightarrow> h' n = h n"
    and fr: "\<And>x. x \<in> G \<Longrightarrow> detached h' x"
    and G: "\<And>x. x \<in> G \<Longrightarrow> x \<notin> set (s # xs) \<union> F \<Longrightarrow> x \<in> free p"
  shows "pool_rep h' (p\<lparr>contents := (contents p)(s \<mapsto> ys), free := G\<rparr>)"
proof (rule pool_repI)
  note D = pool_repD [OF rep]
  have out: "n \<notin> set (s # xs) \<union> F" if "n \<in> members p t" "t \<noteq> s" for n t
  proof -
    have "n \<notin> members p s" using D(2) [OF that(2)] that(1) by blast
    moreover have "n \<notin> F" using pool_rep_free_notin [OF rep, of n t] F that(1) by blast
    ultimately show ?thesis by (simp add: members_def old)
  qed
  fix t zs
  assume l: "contents (p\<lparr>contents := (contents p)(s \<mapsto> ys), free := G\<rparr>) t = Some zs"
  show "is_list h' t zs"
  proof (cases "t = s")
    case True
    with l new show ?thesis by simp
  next
    case False
    with l have t: "contents p t = Some zs" by simp
    show ?thesis
      by (rule is_list_frame [OF D(1) [OF t]], rule frame, rule out [of _ t])
        (use t False in \<open>auto simp: members_def\<close>)
  qed
next
  note D = pool_repD [OF rep]
  let ?p = "p\<lparr>contents := (contents p)(s \<mapsto> ys), free := G\<rparr>"
  have m: "members ?p t = (if t = s then set (s # ys) else members p t)" for t
    by (simp add: members_def)
  have s: "members ?p s \<inter> members p t = {}" if "t \<noteq> s" for t
  proof -
    have "members p t \<inter> F = {}" using pool_rep_free_notin [OF rep] F by blast
    moreover have "members p t \<inter> set (s # xs) = {}"
      using D(2) [OF that] by (simp add: members_def old)
    ultimately show ?thesis using sub m by auto
  qed
  fix t u :: addr
  assume "t \<noteq> u"
  then show "members ?p t \<inter> members ?p u = {}"
    using s [of t] s [of u] D(2) [of t u] m by (auto split: if_splits)
next
  fix x
  assume "x \<in> free (p\<lparr>contents := (contents p)(s \<mapsto> ys), free := G\<rparr>)"
  then show "detached h' x" using fr by simp
qed

lemma detached_frame: "detached h x \<Longrightarrow> h' x = h x \<Longrightarrow> detached h' x"
  by (simp add: detached_def Disconnected_def)

lemma pool_rep_free_detached:
  assumes "pool_rep h p" and "contents p s = Some xs" and "x \<in> free p"
    and "\<And>n. n \<notin> set (s # xs) \<union> F \<Longrightarrow> h' n = h n" and "x \<notin> F"
  shows "detached h' x"
proof -
  have "x \<notin> set (s # xs)"
    using pool_rep_free_notin [OF assms(1,3), of s] assms(2) by (simp add: members_def)
  with assms(4,5) have "h' x = h x" by blast
  with pool_repD(3) [OF assms(1,3)] show ?thesis by (rule detached_frame)
qed

lemma sim_push:
  assumes rep: "pool_rep h p" and step: "pool_step (OpPush s x) p = Some (r, p')"
  shows "\<exists>h'. store_step (OpPush s x) h = Some (r, h') \<and> pool_rep h' p'"
proof -
  from step obtain xs where xs: "contents p s = Some xs" "x \<in> free p" "r = null"
      "p' = p\<lparr>contents := (contents p)(s \<mapsto> xs @ [x]), free := free p - {x}\<rparr>"
    by (auto split: option.splits if_splits)
  note D = pool_repD [OF rep]
  obtain h' where h': "Push h s x = Some h'" "is_list h' s (xs @ [x])"
      "\<And>n. n \<notin> set (s # xs) \<union> {x} \<Longrightarrow> h' n = h n"
    using Push_ok [OF D(1) [OF xs(1)], of x] D(3) [OF xs(2)] by (auto simp: detached_def)
  have "pool_rep h' p'"
    unfolding xs(4)
    by (rule pool_rep_update [OF rep xs(1) h'(2), where F = "{x}"])
      (use xs(2) h'(3) pool_rep_free_detached [OF rep xs(1) _ h'(3)] in auto)
  with h'(1) xs(3) show ?thesis by simp
qed

lemma sim_pop:
  assumes rep: "pool_rep h p" and step: "pool_step (OpPop s) p = Some (r, p')"
  shows "\<exists>h'. store_step (OpPop s) h = Some (r, h') \<and> pool_rep h' p'"
proof -
  from step obtain xs where xs: "contents p s = Some xs" by (auto split: option.splits)
  note D = pool_repD [OF rep]
  show ?thesis
  proof (cases xs)
    case Nil
    with step xs rep Pop_Nil D(1) show ?thesis by simp
  next
    case (Cons x zs)
    with xs step have p': "r = x" "p' = p\<lparr>contents := (contents p)(s \<mapsto> zs), free := insert x (free p)\<rparr>"
      by auto
    obtain h' where h': "Pop h s = (x, h')" "is_list h' s zs" "Disconnected h' x"
        "\<And>n. n \<notin> set (s # xs) \<union> {} \<Longrightarrow> h' n = h n"
      using Pop_Cons D(1) [OF xs] Cons by fastforce
    have "detached h' x"
      using h'(3) D(1) [OF xs] Cons by (simp add: detached_def is_list_def)
    then have "pool_rep h' p'"
      unfolding p'(2)
      by (intro pool_rep_update [OF rep xs h'(2), where F = "{}"])
        (use Cons h'(4) pool_rep_free_detached [OF rep xs _ h'(4)] in auto)
    with h'(1) p'(1) show ?thesis by simp
  qed
qed

lemma sim_remove:
  assumes rep: "pool_rep h p" and step: "pool_step (OpRemove s x) p = Some (r, p')"
  shows "\<exists>h'. store_step (OpRemove s x) h = Some (r, h') \<and> pool_rep h' p'"
proof -
  from step obtain xs where xs: "contents p s = Some xs" "x \<in> set xs" "r = null"
      "p' = p\<lparr>contents := (contents p)(s \<mapsto> remove1 x xs), free := insert x (free p)\<rparr>"
    by (auto split: option.splits if_splits)
  note L = pool_repD(1) [OF rep xs(1)]
  from xs(2) L obtain ys zs where sp: "xs = ys @ x # zs" "x \<notin> set ys"
    by (metis distinct.simps(2) in_set_split is_listD(2))
  obtain h' where h': "Remove h x = Some h'" "is_list h' s (ys @ zs)" "Disconnected h' x"
      "\<And>n. n \<notin> set (s # xs) \<union> {} \<Longrightarrow> h' n = h n"
    using Remove_ok L unfolding sp(1) by fastforce
  have new: "is_list h' s (remove1 x xs)" using h'(2) sp by (simp add: remove1_append)
  have "detached h' x" using h'(3) L sp(1) by (simp add: detached_def is_list_def)
  then have "pool_rep h' p'"
    unfolding xs(4)
    by (intro pool_rep_update [OF rep xs(1) new, where F = "{}"])
      (use set_remove1_subset [of x xs] xs(2) h'(4) pool_rep_free_detached [OF rep xs(1) _ h'(4)] in auto)
  with h'(1) xs(3) show ?thesis by simp
qed

lemma map_replace_split:
  "x \<notin> set ys \<Longrightarrow> x \<notin> set zs \<Longrightarrow>
     map (\<lambda>y. if y = x then n else y) (ys @ x # zs) = ys @ n # zs"
  by (auto intro: map_idI)

lemma concat_insert_split:
  assumes "x \<notin> set ys" "x \<notin> set zs"
  shows "concat (map (\<lambda>y. if y = x then [n, y] else [y]) (ys @ x # zs)) = ys @ n # x # zs"
proof -
  have "concat (map (\<lambda>y. if y = x then [n, y] else [y]) us) = us" if "x \<notin> set us" for us
    using that by (induction us) auto
  with assms show ?thesis by simp
qed

lemma sim_insert_before:
  assumes rep: "pool_rep h p" and step: "pool_step (OpInsertBefore s n x) p = Some (r, p')"
  shows "\<exists>h'. store_step (OpInsertBefore s n x) h = Some (r, h') \<and> pool_rep h' p'"
proof -
  from step obtain xs where xs: "contents p s = Some xs" "x \<in> set xs" "n \<in> free p" "r = null"
      "p' = p\<lparr>contents := (contents p)(s \<mapsto> concat (map (\<lambda>y. if y = x then [n, y] else [y]) xs)),
              free := free p - {n}\<rparr>"
    by (auto split: option.splits if_splits)
  note L = pool_repD(1) [OF rep xs(1)]
  from xs(2) L obtain ys zs where sp: "xs = ys @ x # zs" "x \<notin> set ys" "x \<notin> set zs"
    by (metis distinct.simps(2) in_set_split is_listD(2))
  obtain h' where h': "InsertBefore h n x = Some h'" "is_list h' s (ys @ n # x # zs)"
      "\<And>k. k \<notin> set (s # xs) \<union> {n} \<Longrightarrow> h' k = h k"
    using InsertBefore_ok [OF L [unfolded sp(1)], of n] pool_repD(3) [OF rep xs(3)] sp(1)
    by (auto simp: detached_def)
  have "pool_rep h' p'"
    unfolding xs(5) unfolding sp(1) concat_insert_split [OF sp(2,3)]
    by (rule pool_rep_update [OF rep xs(1) h'(2), where F = "{n}"])
      (use sp(1) xs(3) h'(3) pool_rep_free_detached [OF rep xs(1) _ h'(3)] in auto)
  with h'(1) xs(4) show ?thesis by simp
qed

lemma sim_replace:
  assumes rep: "pool_rep h p" and step: "pool_step (OpReplace s x n) p = Some (r, p')"
  shows "\<exists>h'. store_step (OpReplace s x n) h = Some (r, h') \<and> pool_rep h' p'"
proof -
  from step obtain xs where xs: "contents p s = Some xs" "x \<in> set xs" "n \<in> free p" "r = null"
      "p' = p\<lparr>contents := (contents p)(s \<mapsto> map (\<lambda>y. if y = x then n else y) xs),
              free := insert x (free p - {n})\<rparr>"
    by (auto split: option.splits if_splits)
  note L = pool_repD(1) [OF rep xs(1)]
  from xs(2) L obtain ys zs where sp: "xs = ys @ x # zs" "x \<notin> set ys" "x \<notin> set zs"
    by (metis distinct.simps(2) in_set_split is_listD(2))
  define q where "q = snd (the (pool_step (OpInsertBefore s n x) p))"
  have ins: "pool_step (OpInsertBefore s n x) p = Some (null, q)"
    using xs by (simp add: q_def)
  have q: "contents q = (contents p)(s \<mapsto> ys @ n # x # zs)" "free q = free p - {n}"
    using xs(1-3) sp concat_insert_split [OF sp(2,3)] by (simp_all add: q_def)
  have "n \<notin> set xs"
    using pool_rep_free_notin [OF rep xs(3), of s] xs(1) by (simp add: members_def)
  then have "n \<noteq> x" using xs(2) by blast
  then have "pool_step (OpRemove s x) q = Some (null, p')"
    using q sp xs(5) map_replace_split [OF sp(2,3)] by (simp add: remove1_append q_def xs(1-3))
  moreover obtain h1 where "store_step (OpInsertBefore s n x) h = Some (null, h1)" "pool_rep h1 q"
    using sim_insert_before [OF rep ins] by blast
  ultimately obtain h2 where "store_step (OpRemove s x) h1 = Some (null, h2)" "pool_rep h2 p'"
    using sim_remove by blast
  moreover have "\<not> Disconnected h x" using is_list_connected [OF L] xs(2) by simp
  ultimately show ?thesis
    using \<open>store_step (OpInsertBefore s n x) h = Some (null, h1)\<close> xs(4)
    by (auto simp: Replace_def Remove_def)
qed

lemma sim_steal:
  assumes rep: "pool_rep h p" and step: "pool_step (OpSteal s t) p = Some (r, p')"
  shows "\<exists>h'. store_step (OpSteal s t) h = Some (r, h') \<and> pool_rep h' p'"
proof -
  from step obtain xs where xs: "contents p s = Some []" "contents p t = Some xs" "s \<noteq> t" "r = null"
      "p' = p\<lparr>contents := (contents p)(s \<mapsto> xs, t \<mapsto> [])\<rparr>"
    by (auto split: option.splits if_splits list.splits)
  note D = pool_repD [OF rep]
  have dj: "s \<notin> set (t # xs)" using D(2) [OF xs(3)] xs(1,2) by (auto simp: members_def)
  obtain h' where h': "Steal h s t = Some h'" "is_list h' s xs" "is_list h' t []"
      "\<And>n. n \<notin> set (s # t # xs) \<Longrightarrow> h' n = h n"
    using Steal_ok [OF D(1) [OF xs(1)] D(1) [OF xs(2)] dj] by blast
  have m: "members p' u = (if u = s then set (s # xs) else if u = t then {t} else members p u)" for u
    using xs(3) by (simp add: members_def xs(5))
  have out: "n \<notin> set (s # t # xs)" if "n \<in> members p u" "u \<noteq> s" "u \<noteq> t" for n u
    using D(2) [OF that(2)] D(2) [OF that(3)] that(1) xs(1,2) by (auto simp: members_def)
  have "pool_rep h' p'"
  proof (rule pool_repI)
    fix u ys assume u: "contents p' u = Some ys"
    show "is_list h' u ys"
    proof (cases "u = s \<or> u = t")
      case True
      with u h'(2,3) xs(3,5) show ?thesis by (auto split: if_splits)
    next
      case False
      with u have "contents p u = Some ys" by (simp add: xs(5))
      with False show ?thesis
        by (intro is_list_frame [OF D(1)] h'(4) out [of _ u]) (auto simp: members_def)
    qed
  next
    fix u v :: addr assume "u \<noteq> v"
    then show "members p' u \<inter> members p' v = {}"
      using out [of _ u] out [of _ v] D(2) [of u v] dj is_listD(2) [OF D(1) [OF xs(2)]]
      unfolding m by (auto split: if_splits)
  next
    fix x assume "x \<in> free p'"
    then have "x \<in> free p" by (simp add: xs(5))
    with pool_rep_free_notin [OF rep, of x s] pool_rep_free_notin [OF rep, of x t] xs(1,2)
    have "x \<notin> set (s # t # xs)" by (simp add: members_def)
    with h'(4) D(3) [OF \<open>x \<in> free p\<close>] show "detached h' x" by (blast intro: detached_frame)
  qed
  with h'(1) xs(4) show ?thesis by simp
qed

lemma sim_step:
  assumes "pool_rep h p" and "pool_step e p = Some (r, p')"
  shows "\<exists>h'. store_step e h = Some (r, h') \<and> pool_rep h' p'"
proof (cases e)
  case (OpPush s x) with assms show ?thesis using sim_push by blast
next
  case (OpPop s) with assms show ?thesis using sim_pop by blast
next
  case (OpRemove s x) with assms show ?thesis using sim_remove by blast
next
  case (OpReplace s x n) with assms show ?thesis using sim_replace by blast
next
  case (OpInsertBefore s n x) with assms show ?thesis using sim_insert_before by blast
next
  case (OpSteal s t) with assms show ?thesis using sim_steal by blast
qed

text \<open>
  C1. Refinement: Whenever a sequence of list operations respects the contract (pushed nodes are
  detached, removed nodes are on the list, a steal goes into an empty list), no debug assertion
  fails, every \<open>Pop\<close> returns the oldest element of its list, and the pointer structure after the
  run is a well-formed representation of the abstract lists after the run.
\<close>

theorem store_run_refines_pool_run:
  assumes "pool_rep h p" and "pool_run es p = Some (rs, p')"
  shows "\<exists>h'. store_run es h = Some (rs, h') \<and> pool_rep h' p'"
  using assms
proof (induction es arbitrary: h p rs p')
  case Nil
  then show ?case by simp
next
  case (Cons e es)
  then obtain r q rs' where q: "pool_step e p = Some (r, q)" "pool_run es q = Some (rs', p')" "rs = r # rs'"
    by (auto simp: bind_eq_Some_conv)
  obtain h1 where h1: "store_step e h = Some (r, h1)" "pool_rep h1 q"
    using sim_step [OF Cons.prems(1) q(1)] by blast
  from Cons.IH [OF h1(2) q(2)] show ?case
    using h1(1) q(3) by auto
qed

text \<open>A concrete pool: two empty lists and two fresh nodes.\<close>

definition example_store :: store where
  "example_store = hookups_init (hookups_init (list_init (list_init (\<lambda>_. \<lparr>hk_prev = 0, hk_next = 0\<rparr>) 1) 2) 10) 11"

definition example_pool :: pool where
  "example_pool = \<lparr>contents = [1 \<mapsto> [], 2 \<mapsto> []], free = {10, 11}\<rparr>"

lemma example_pool_rep: "pool_rep example_store example_pool"
proof (rule pool_repI)
  fix s xs assume "contents example_pool s = Some xs"
  then show "is_list example_store s xs"
    by (auto simp: example_pool_def example_store_def is_list_def list_init_def hookups_init_def
        valid_addr_def Poison_def split: if_splits)
qed (auto simp: example_pool_def example_store_def members_def detached_def Disconnected_def
    hookups_init_def valid_addr_def Poison_def)

theorem store_run_refines_pool_run_witness:
  "pool_rep example_store example_pool \<and>
   (\<exists>h'. store_run [OpPush 1 10, OpPush 1 11, OpSteal 2 1, OpPop 2, OpPush 1 10] example_store
        = Some ([0, 0, 0, 10, 0], h') \<and>
      pool_rep h' \<lparr>contents = [1 \<mapsto> [10], 2 \<mapsto> [11]], free = {}\<rparr>)"
proof -
  have "pool_run [OpPush 1 10, OpPush 1 11, OpSteal 2 1, OpPop 2, OpPush 1 10] example_pool
      = Some ([0, 0, 0, 10, 0], \<lparr>contents = [1 \<mapsto> [10], 2 \<mapsto> [11]], free = {}\<rparr>)"
    by (auto simp: example_pool_def fun_upd_def)
  from store_run_refines_pool_run [OF example_pool_rep this] example_pool_rep show ?thesis by blast
qed

end
