(* ===== verification/Timer_Queue.thy ===== *)
theory Timer_Queue
  imports Coop_Prelude "HOL-Library.Tree"
begin

text \<open>
  The intrusive pairing heap of \<open>coop/time/timer_queue.h\<close> and \<open>timer_queue.cpp\<close>, at the level of
  its child / next / prev pointers.

  The child/sibling structure of the heap is a binary tree (left: the children, right: the next
  sibling), and the field \<open>m_prev\<close> is exactly the parent pointer of that binary tree; \<open>repr\<close> says
  so. The pointer-level operations are shown to compute \<open>meld\<close>, \<open>merge_pairs\<close> and \<open>cut\<close> on these
  trees, which keep heap order and the set of nodes. The result is the interface \<open>deadline_queue\<close>
  that the cooperator's timer service relies on.
\<close>

section \<open>Nodes and operations\<close>

record timer_node =
  m_deadlineUs :: int
  m_coord :: addr
  m_child :: addr
  m_next :: addr
  m_prev :: addr
  m_linked :: bool

type_synonym tstore = "addr \<Rightarrow> timer_node"

text \<open>A queue is the store of nodes and the root pointer \<open>m_root\<close>.\<close>

type_synonym tqueue = "tstore \<times> addr"

definition Empty :: "tqueue \<Rightarrow> bool" where
  "Empty q \<longleftrightarrow> snd q = null"

definition MinDeadlineUs :: "tqueue \<Rightarrow> int option" where
  "MinDeadlineUs q = do { assert_that (snd q \<noteq> null); Some (m_deadlineUs (fst q (snd q))) }"

definition AddChild :: "tstore \<Rightarrow> addr \<Rightarrow> addr \<Rightarrow> tstore" where
  "AddChild h parent c =
     (let h1 = h(c := (h c)\<lparr>m_prev := parent\<rparr>);
          h2 = h1(c := (h1 c)\<lparr>m_next := m_child (h1 parent)\<rparr>);
          h3 = (if m_child (h2 parent) \<noteq> null
                then h2(m_child (h2 parent) := (h2 (m_child (h2 parent)))\<lparr>m_prev := c\<rparr>) else h2)
      in h3(parent := (h3 parent)\<lparr>m_child := c\<rparr>))"

definition Meld :: "tstore \<Rightarrow> addr \<Rightarrow> addr \<Rightarrow> addr \<times> tstore" where
  "Meld h a b =
     (if a = null then (b, h)
      else if b = null then (a, h)
      else if m_deadlineUs (h a) \<le> m_deadlineUs (h b) then (a, AddChild h a b)
      else (b, AddChild h b a))"

text \<open>Pass 1 of \<open>MergePairs\<close>: meld consecutive siblings, stacking the results through \<open>m_next\<close>.\<close>

partial_function (option) MergePairs_pass1 :: "tstore \<Rightarrow> addr \<Rightarrow> addr \<Rightarrow> (tstore \<times> addr) option" where
  "MergePairs_pass1 h cur stack =
     (if cur = null then Some (h, stack)
      else let a = cur; b = m_next (h a) in
        if b \<noteq> null then
          (let cur' = m_next (h b);
               h1 = h(a := (h a)\<lparr>m_next := null, m_prev := null\<rparr>);
               h2 = h1(b := (h1 b)\<lparr>m_next := null, m_prev := null\<rparr>)
           in case Meld h2 a b of (m, h3) \<Rightarrow>
                MergePairs_pass1 (h3(m := (h3 m)\<lparr>m_next := stack\<rparr>)) cur' m)
        else
          (let h1 = h(a := (h a)\<lparr>m_next := null, m_prev := null\<rparr>)
           in MergePairs_pass1 (h1(a := (h1 a)\<lparr>m_next := stack\<rparr>)) null a))"

text \<open>Pass 2: fold the stack into one tree.\<close>

partial_function (option) MergePairs_pass2 :: "tstore \<Rightarrow> addr \<Rightarrow> addr \<Rightarrow> (addr \<times> tstore) option" where
  "MergePairs_pass2 h result stack =
     (if stack = null then Some (result, h)
      else let nxt = m_next (h stack);
               h1 = h(stack := (h stack)\<lparr>m_next := null, m_prev := null\<rparr>)
           in case Meld h1 result stack of (r, h2) \<Rightarrow> MergePairs_pass2 h2 r nxt)"

definition MergePairs :: "tstore \<Rightarrow> addr \<Rightarrow> (addr \<times> tstore) option" where
  "MergePairs h first =
     (if first = null then Some (null, h)
      else do { (h1, stack) \<leftarrow> MergePairs_pass1 h first null; MergePairs_pass2 h1 null stack })"

definition Insert_node :: "tqueue \<Rightarrow> addr \<Rightarrow> int \<Rightarrow> addr \<Rightarrow> tqueue option" where
  "Insert_node q node deadlineUs coord = (case q of (h, root) \<Rightarrow> do {
     assert_that (\<not> m_linked (h node));
     let h1 = h(node := (h node)\<lparr>m_deadlineUs := deadlineUs, m_coord := coord,
                                 m_child := null, m_next := null, m_prev := null, m_linked := True\<rparr>);
     (case Meld h1 root node of (r, h2) \<Rightarrow> Some (h2(r := (h2 r)\<lparr>m_prev := null\<rparr>), r)) })"

definition Remove_node :: "tqueue \<Rightarrow> addr \<Rightarrow> tqueue option" where
  "Remove_node q node = (case q of (h, root) \<Rightarrow>
     if \<not> m_linked (h node) then Some (h, root)
     else let h0 = h(node := (h node)\<lparr>m_linked := False\<rparr>) in do {
       (h', root') \<leftarrow>
         (if node = root then do {
            (r, h1) \<leftarrow> MergePairs h0 (m_child (h0 node));
            Some (if r \<noteq> null then h1(r := (h1 r)\<lparr>m_prev := null\<rparr>) else h1, r) }
          else
            let p = m_prev (h0 node);
                h1 = (if m_child (h0 p) = node
                      then h0(p := (h0 p)\<lparr>m_child := m_next (h0 node)\<rparr>)
                      else h0(p := (h0 p)\<lparr>m_next := m_next (h0 node)\<rparr>));
                nx = m_next (h1 node);
                h2 = (if nx \<noteq> null then h1(nx := (h1 nx)\<lparr>m_prev := m_prev (h1 node)\<rparr>) else h1)
            in do {
              (sub, h3) \<leftarrow> MergePairs h2 (m_child (h2 node));
              let h4 = (if sub \<noteq> null then h3(sub := (h3 sub)\<lparr>m_prev := null\<rparr>) else h3);
              (case Meld h4 root sub of (r, h5) \<Rightarrow>
                 Some (if r \<noteq> null then h5(r := (h5 r)\<lparr>m_prev := null\<rparr>) else h5, r)) });
       Some (h'(node := (h' node)\<lparr>m_child := null, m_next := null, m_prev := null\<rparr>), root') })"

text \<open>\<open>PopExpired\<close>: the node that came due (or null) and the queue.\<close>

definition PopExpired :: "tqueue \<Rightarrow> int \<Rightarrow> (addr \<times> tqueue) option" where
  "PopExpired q nowUs = (case q of (h, root) \<Rightarrow>
     if root = null \<or> m_deadlineUs (h root) > nowUs then Some (null, q)
     else map_option (Pair root) (Remove_node q root))"

text \<open>\<open>Validate\<close>: the walk over the children; \<open>n\<close> is the parent, \<open>c\<close> the loop variable.\<close>

partial_function (option) Validate_loop :: "tstore \<Rightarrow> addr \<Rightarrow> addr \<Rightarrow> bool option" where
  "Validate_loop h n c =
     (if c = null then Some True
      else if m_deadlineUs (h c) < m_deadlineUs (h n) then Some False
      else do {
        ok \<leftarrow> Validate_loop h c (m_child (h c));
        if \<not> ok then Some False else Validate_loop h n (m_next (h c)) })"

definition Validate :: "tqueue \<Rightarrow> bool option" where
  "Validate q = (if snd q = null then Some True else Validate_loop (fst q) (snd q) (m_child (fst q (snd q))))"

section \<open>Trees\<close>

text \<open>The heap operations on binary trees; \<open>k\<close> is the deadline of a node.\<close>

fun meld :: "(addr \<Rightarrow> int) \<Rightarrow> addr tree \<Rightarrow> addr tree \<Rightarrow> addr tree" where
  "meld k Leaf t = t"
| "meld k t Leaf = t"
| "meld k (Node l1 a r1) (Node l2 b r2) =
     (if k a \<le> k b then Node (Node l2 b l1) a Leaf else Node (Node l1 a l2) b Leaf)"

fun pass1 :: "(addr \<Rightarrow> int) \<Rightarrow> addr tree \<Rightarrow> addr tree list \<Rightarrow> addr tree list" where
  "pass1 k Leaf st = st"
| "pass1 k (Node l a Leaf) st = Node l a Leaf # st"
| "pass1 k (Node l1 a (Node l2 b r)) st = pass1 k r (meld k (Node l1 a Leaf) (Node l2 b Leaf) # st)"

definition merge_pairs :: "(addr \<Rightarrow> int) \<Rightarrow> addr tree \<Rightarrow> addr tree" where
  "merge_pairs k t = foldl (meld k) Leaf (pass1 k t [])"

text \<open>Splice a node out of the tree: its right sibling list takes its place.\<close>

fun cut :: "addr \<Rightarrow> addr tree \<Rightarrow> addr tree" where
  "cut n Leaf = Leaf"
| "cut n (Node l a r) = (if a = n then r else Node (cut n l) a (cut n r))"

fun subtree_at :: "addr \<Rightarrow> addr tree \<Rightarrow> addr tree" where
  "subtree_at n Leaf = Leaf"
| "subtree_at n (Node l a r) =
     (if a = n then l else if n \<in> set_tree l then subtree_at n l else subtree_at n r)"

fun heap :: "(addr \<Rightarrow> int) \<Rightarrow> addr tree \<Rightarrow> bool" where
  "heap k Leaf \<longleftrightarrow> True"
| "heap k (Node l a r) \<longleftrightarrow> (\<forall>x \<in> set_tree l. k a \<le> k x) \<and> heap k l \<and> heap k r"

fun single :: "addr tree \<Rightarrow> bool" where
  "single Leaf \<longleftrightarrow> True"
| "single (Node l a r) \<longleftrightarrow> r = Leaf"

abbreviation nodes :: "addr tree \<Rightarrow> addr multiset" where
  "nodes t \<equiv> mset (inorder t)"

lemma single_meld: "single t1 \<Longrightarrow> single t2 \<Longrightarrow> single (meld k t1 t2)"
  by (cases t1; cases t2) auto

lemma nodes_meld: "single t1 \<Longrightarrow> single t2 \<Longrightarrow> nodes (meld k t1 t2) = nodes t1 + nodes t2"
  by (cases t1; cases t2) auto

lemma heap_meld:
  assumes "heap k t1" "heap k t2" "single t1" "single t2"
  shows "heap k (meld k t1 t2)"
proof (cases t1)
  case (Node l1 a r1)
  show ?thesis
  proof (cases t2)
    case (Node l2 b r2)
    with \<open>t1 = Node l1 a r1\<close> assms show ?thesis
      by (cases "k a \<le> k b") (auto intro: order_trans)
  qed (use assms Node in simp)
qed (use assms in simp)

lemma pass1_props:
  assumes "heap k t" "\<forall>s \<in> set st. heap k s \<and> single s"
  shows "(\<forall>s \<in> set (pass1 k t st). heap k s \<and> single s) \<and>
    sum_list (map nodes (pass1 k t st)) = nodes t + sum_list (map nodes st)"
  using assms
proof (induction k t st rule: pass1.induct)
  case (3 k l1 a l2 b r st)
  have "heap k (meld k (Node l1 a Leaf) (Node l2 b Leaf))"
    by (rule heap_meld) (use 3(2) in auto)
  moreover have "single (meld k (Node l1 a Leaf) (Node l2 b Leaf))"
    by (rule single_meld) auto
  ultimately show ?case
    using "3.IH" "3.prems" nodes_meld [of "Node l1 a Leaf" "Node l2 b Leaf" k]
    by (auto simp del: meld.simps)
qed auto

lemma fold_meld_props:
  assumes "heap k t" "single t" "\<forall>s \<in> set st. heap k s \<and> single s"
  shows "heap k (foldl (meld k) t st) \<and> single (foldl (meld k) t st) \<and>
    nodes (foldl (meld k) t st) = nodes t + sum_list (map nodes st)"
  using assms
proof (induction st arbitrary: t)
  case (Cons s st)
  with Cons.IH [of "meld k t s"] show ?case
    by (auto simp: heap_meld single_meld nodes_meld)
qed auto

lemma merge_pairs_props:
  assumes "heap k t"
  shows "heap k (merge_pairs k t)" "single (merge_pairs k t)" "nodes (merge_pairs k t) = nodes t"
  using pass1_props [OF assms, of "[]"] fold_meld_props [of k Leaf "pass1 k t []"]
  by (auto simp: merge_pairs_def)

lemma set_merge_pairs: "heap k t \<Longrightarrow> set_tree (merge_pairs k t) = set_tree t"
  using merge_pairs_props(3) [of k t] by (metis set_inorder set_mset_mset)

lemma set_cut: "set_tree (cut n t) \<subseteq> set_tree t"
  by (induction t) auto

lemma cut_notin: "n \<notin> set_tree t \<Longrightarrow> cut n t = t"
  by (induction t) auto

lemma heap_cut: "heap k t \<Longrightarrow> heap k (cut n t)"
  by (induction t) (use set_cut in auto)

lemma heap_subtree_at: "heap k t \<Longrightarrow> heap k (subtree_at n t)"
  by (induction t) auto

lemma nodes_cut:
  assumes "n \<in> set_tree t" "distinct (inorder t)"
  shows "nodes t = add_mset n (nodes (cut n t) + nodes (subtree_at n t))"
  using assms
proof (induction t)
  case (Node l a r)
  show ?case
  proof (cases "a = n")
    case False
    show ?thesis
    proof (cases "n \<in> set_tree l")
      case True
      then have "n \<notin> set_tree r" using Node.prems(2) by auto
      with False True Node show ?thesis by (auto simp: cut_notin)
    next
      case F: False
      with False Node show ?thesis by (auto simp: cut_notin)
    qed
  qed simp
qed simp

section \<open>Trees in the store\<close>

fun repr :: "tstore \<Rightarrow> addr \<Rightarrow> addr \<Rightarrow> addr tree \<Rightarrow> bool" where
  "repr h p q Leaf \<longleftrightarrow> q = null"
| "repr h p q (Node l a r) \<longleftrightarrow> q = a \<and> a \<noteq> null \<and> m_prev (h a) = p \<and>
     repr h a (m_child (h a)) l \<and> repr h a (m_next (h a)) r"

definition same_data :: "tstore \<Rightarrow> tstore \<Rightarrow> bool" where
  "same_data h h' \<longleftrightarrow> (\<forall>n. m_deadlineUs (h' n) = m_deadlineUs (h n) \<and>
     m_coord (h' n) = m_coord (h n) \<and> m_linked (h' n) = m_linked (h n))"

definition keys :: "tstore \<Rightarrow> addr \<Rightarrow> int" where
  "keys h n = m_deadlineUs (h n)"

lemma same_data_refl [simp]: "same_data h h"
  by (simp add: same_data_def)

lemma same_data_trans: "same_data h h1 \<Longrightarrow> same_data h1 h2 \<Longrightarrow> same_data h h2"
  by (simp add: same_data_def)

lemma same_data_keys: "same_data h h' \<Longrightarrow> keys h' = keys h"
  by (auto simp: same_data_def keys_def)

lemma repr_root: "repr h p q t \<Longrightarrow> q = (case t of Leaf \<Rightarrow> null | Node l a r \<Rightarrow> a)"
  by (cases t) auto

lemma repr_null_iff: "repr h p q t \<Longrightarrow> q = null \<longleftrightarrow> t = Leaf"
  by (cases t) auto

lemma repr_notnull: "repr h p q t \<Longrightarrow> null \<notin> set_tree t"
  by (induction t arbitrary: p q) auto

lemma repr_frame:
  assumes "repr h p q t" and "\<And>n. n \<in> set_tree t \<Longrightarrow> h' n = h n"
  shows "repr h' p q t"
  using assms by (induction t arbitrary: p q) auto

lemma repr_frame_links:
  assumes "repr h p q t"
    and "\<And>n. n \<in> set_tree t \<Longrightarrow>
      m_child (h' n) = m_child (h n) \<and> m_next (h' n) = m_next (h n) \<and> m_prev (h' n) = m_prev (h n)"
  shows "repr h' p q t"
  using assms by (induction t arbitrary: p q) auto

text \<open>A tree keeps its shape when only the parent pointer of its root changes.\<close>

lemma repr_reparent:
  assumes "repr h p q t" and "distinct (inorder t)"
    and "\<And>n. n \<in> set_tree t \<Longrightarrow> m_child (h' n) = m_child (h n) \<and> m_next (h' n) = m_next (h n)"
    and "\<And>n. n \<in> set_tree t \<Longrightarrow> n \<noteq> q \<Longrightarrow> m_prev (h' n) = m_prev (h n)"
    and "q \<noteq> null \<Longrightarrow> m_prev (h' q) = p'"
  shows "repr h' p' q t"
proof (cases t)
  case (Node l a r)
  with assms(1,2) have a: "q = a" "a \<noteq> null" "a \<notin> set_tree l" "a \<notin> set_tree r"
    and sub: "repr h a (m_child (h a)) l" "repr h a (m_next (h a)) r" by auto
  have "repr h' a (m_child (h a)) l" "repr h' a (m_next (h a)) r"
    by (rule repr_frame_links [OF sub(1)], use assms(3,4) Node a in auto)
      (rule repr_frame_links [OF sub(2)], use assms(3,4) Node a in auto)
  with Node a assms(3,5) show ?thesis by auto
qed (use assms in simp)

lemma AddChild_fields:
  assumes "c \<noteq> parent" and "m_child (h parent) \<noteq> c"
  shows "m_child (AddChild h parent c n) = (if n = parent then c else m_child (h n))"
    and "m_next (AddChild h parent c n) = (if n = c then m_child (h parent) else m_next (h n))"
    and "m_prev (AddChild h parent c n) =
      (if n = m_child (h parent) \<and> n \<noteq> null then c else if n = c then parent else m_prev (h n))"
    and "same_data h (AddChild h parent c)"
  using assms by (simp_all add: AddChild_def Let_def same_data_def)

lemma AddChild_repr:
  assumes "repr h null a (Node l1 a Leaf)" and "repr h null b (Node l2 b Leaf)"
    and "distinct (inorder (Node l1 a Leaf) @ inorder (Node l2 b Leaf))"
  shows "repr (AddChild h a b) null a (Node (Node l2 b l1) a Leaf)"
    and "\<And>n. n \<notin> set_tree (Node l1 a Leaf) \<union> set_tree (Node l2 b Leaf) \<Longrightarrow> AddChild h a b n = h n"
    and "same_data h (AddChild h a b)"
proof -
  have ne: "b \<noteq> a" "a \<notin> set_tree l1" "a \<notin> set_tree l2" "b \<notin> set_tree l1" "b \<notin> set_tree l2"
    "set_tree l1 \<inter> set_tree l2 = {}" "a \<noteq> null" "b \<noteq> null"
    "distinct (inorder l1)" "distinct (inorder l2)"
    using assms by auto
  let ?c = "m_child (h a)"
  have r1: "repr h a ?c l1" and r2: "repr h b (m_child (h b)) l2" using assms(1,2) by auto
  have c: "?c = null \<or> ?c \<in> set_tree l1" using repr_root [OF r1] by (cases l1) auto
  have cb: "?c \<noteq> b" using c ne by auto
  have ca: "?c \<noteq> a" using c ne by auto
  note F = AddChild_fields [where h = h and parent = a and c = b, OF ne(1) cb]
  have n1: "repr (AddChild h a b) b ?c l1"
    by (rule repr_reparent [OF r1 ne(9)]) (use ne c in \<open>auto simp: F\<close>)
  have n2: "repr (AddChild h a b) b (m_child (h b)) l2"
    by (rule repr_frame_links [OF r2]) (use ne c in \<open>auto simp: F\<close>)
  show "repr (AddChild h a b) null a (Node (Node l2 b l1) a Leaf)"
    using n1 n2 ne ca cb assms(1) by (simp add: F)
  show "same_data h (AddChild h a b)" by (rule F(4))
  fix n assume "n \<notin> set_tree (Node l1 a Leaf) \<union> set_tree (Node l2 b Leaf)"
  then show "AddChild h a b n = h n"
    using c ne by (auto simp: AddChild_def Let_def)
qed

lemma Meld_repr:
  assumes "repr h null a t1" and "repr h null b t2" and "single t1" and "single t2"
    and "distinct (inorder t1 @ inorder t2)"
  shows "\<exists>m h'. Meld h a b = (m, h') \<and> repr h' null m (meld (keys h) t1 t2) \<and>
     (\<forall>n. n \<notin> set_tree t1 \<union> set_tree t2 \<longrightarrow> h' n = h n) \<and> same_data h h'"
proof (cases t1)
  case Leaf
  with assms show ?thesis by (auto simp: Meld_def)
next
  case n1: (Node l1 a' r1)
  show ?thesis
  proof (cases t2)
    case Leaf
    with n1 assms show ?thesis by (auto simp: Meld_def)
  next
    case n2: (Node l2 b' r2)
    from n1 n2 assms(1-4) have r: "a' = a" "b' = b" "r1 = Leaf" "r2 = Leaf" "a \<noteq> null" "b \<noteq> null"
      by auto
    show ?thesis
    proof (cases "keys h a \<le> keys h b")
      case True
      then have "Meld h a b = (a, AddChild h a b)"
        using r by (simp add: Meld_def keys_def)
      with True AddChild_repr [of h a l1 b l2] assms(1,2,5) n1 n2 r show ?thesis
        by (simp del: repr.simps)
    next
      case False
      then have M: "Meld h a b = (b, AddChild h b a)"
        using r by (simp add: Meld_def keys_def)
      have d: "distinct (inorder (Node l2 b Leaf) @ inorder (Node l1 a Leaf))"
        using assms(5) n1 n2 r by auto
      show ?thesis
        using M False AddChild_repr [OF _ _ d, of h] assms(1,2) n1 n2 r
        by (simp del: repr.simps)
    qed
  qed
qed

text \<open>The stack of pass 1, threaded through \<open>m_next\<close>.\<close>

fun stk :: "tstore \<Rightarrow> addr \<Rightarrow> addr tree list \<Rightarrow> bool" where
  "stk h p [] \<longleftrightarrow> p = null"
| "stk h p (Node l a Leaf # ts) \<longleftrightarrow> p = a \<and> a \<noteq> null \<and> m_prev (h a) = null \<and>
     repr h a (m_child (h a)) l \<and> stk h (m_next (h a)) ts"
| "stk h p (_ # ts) \<longleftrightarrow> False"

lemma stk_frame:
  assumes "stk h p ts" and "\<And>n. n \<in> \<Union> (set_tree ` set ts) \<Longrightarrow> h' n = h n"
  shows "stk h' p ts"
  using assms
proof (induction h p ts rule: stk.induct)
  case (2 h p l a ts)
  have "repr h' a (m_child (h a)) l"
    by (rule repr_frame [of h]) (use 2 in auto)
  with 2 show ?case by auto
qed auto

text \<open>Put a detached single tree on top of the stack.\<close>

lemma stk_push:
  assumes "repr h null m t" and "single t" and "t \<noteq> Leaf" and "stk h p ts"
    and "distinct (inorder t)" and "set_tree t \<inter> \<Union> (set_tree ` set ts) = {}"
  shows "stk (h(m := (h m)\<lparr>m_next := p\<rparr>)) m (t # ts)"
proof -
  from assms(1-3) obtain l where t: "t = Node l m Leaf" by (cases t) auto
  let ?h = "h(m := (h m)\<lparr>m_next := p\<rparr>)"
  have "repr ?h m (m_child (h m)) l"
    by (rule repr_frame [of h]) (use assms(1,5) t in auto)
  moreover have "stk ?h p ts"
    by (rule stk_frame [OF assms(4)]) (use assms(6) t in auto)
  ultimately show ?thesis using assms(1) t by simp
qed

lemma meld_notLeaf: "t1 \<noteq> Leaf \<or> t2 \<noteq> Leaf \<Longrightarrow> meld k t1 t2 \<noteq> Leaf"
  by (cases t1; cases t2) auto

lemma distinct_meld:
  assumes "single t1" "single t2" "distinct (inorder t1 @ inorder t2)"
  shows "distinct (inorder (meld k t1 t2))" "set_tree (meld k t1 t2) = set_tree t1 \<union> set_tree t2"
proof -
  have "mset (inorder (meld k t1 t2)) = mset (inorder t1 @ inorder t2)"
    using nodes_meld [OF assms(1,2)] by simp
  then show "distinct (inorder (meld k t1 t2))"
    using assms(3) mset_eq_imp_distinct_iff by blast
  from \<open>mset (inorder (meld k t1 t2)) = mset (inorder t1 @ inorder t2)\<close>
  show "set_tree (meld k t1 t2) = set_tree t1 \<union> set_tree t2"
    by (metis set_append set_inorder set_mset_mset)
qed

section \<open>MergePairs\<close>

definition disjoint_trees :: "addr tree list \<Rightarrow> bool" where
  "disjoint_trees ts \<longleftrightarrow> distinct (concat (map inorder ts))"

lemma disjoint_trees_Cons:
  "disjoint_trees (t # ts) \<longleftrightarrow>
     distinct (inorder t) \<and> disjoint_trees ts \<and> set_tree t \<inter> \<Union> (set_tree ` set ts) = {}"
  by (auto simp: disjoint_trees_def)

lemma set_trees_pass1: "\<Union> (set_tree ` set (pass1 k t st)) = set_tree t \<union> \<Union> (set_tree ` set st)"
  by (induction k t st rule: pass1.induct) auto

lemma MergePairs_pass1_ok:
  assumes "repr h p cur t" and "stk h stack st" and "disjoint_trees (t # st)"
    and "\<forall>s \<in> set st. single s"
  shows "\<exists>h' stack'. MergePairs_pass1 h cur stack = Some (h', stack') \<and>
     stk h' stack' (pass1 (keys h) t st) \<and> disjoint_trees (pass1 (keys h) t st) \<and>
     (\<forall>s \<in> set (pass1 (keys h) t st). single s) \<and>
     (\<forall>n. n \<notin> set_tree t \<union> \<Union> (set_tree ` set st) \<longrightarrow> h' n = h n) \<and> same_data h h'"
  using assms
proof (induction "keys h" t st arbitrary: h p cur stack rule: pass1.induct)
  case (1 st)
  then show ?case by (simp add: MergePairs_pass1.simps disjoint_trees_Cons)
next
  case (2 l a st)
  from 2 have a: "cur = a" "a \<noteq> null" "m_next (h a) = null" by auto
  let ?h1 = "h(a := (h a)\<lparr>m_next := null, m_prev := null\<rparr>)"
  let ?h2 = "?h1(a := (?h1 a)\<lparr>m_next := stack\<rparr>)"
  have out: "a \<notin> set_tree l" "a \<notin> \<Union> (set_tree ` set st)" "distinct (inorder (Node l a Leaf))"
    using 2 by (auto simp: disjoint_trees_Cons)
  have r1: "repr ?h1 null a (Node l a Leaf)"
    by (rule repr_reparent [OF 2(1) [unfolded a(1)] out(3)]) (use a out in auto)
  have s1: "stk ?h1 stack st"
    by (rule stk_frame [OF 2(2)]) (use out in auto)
  have "stk ?h2 a (Node l a Leaf # st)"
    by (rule stk_push [OF r1 _ _ s1]) (use 2 out in \<open>auto simp: disjoint_trees_Cons\<close>)
  then show ?case
    using 2 a by (auto simp: MergePairs_pass1.simps same_data_def)
next
  case (3 l1 a l2 b r st)
  from 3(2) have a: "cur = a" "a \<noteq> null" "m_next (h a) = b" "b \<noteq> null"
    and ra: "repr h a (m_child (h a)) l1" and rb: "repr h b (m_child (h b)) l2"
    and rr: "repr h b (m_next (h b)) r" by auto
  let ?A = "Node l1 a Leaf" and ?B = "Node l2 b Leaf"
  have dj: "a \<noteq> b" "a \<notin> set_tree l1" "a \<notin> set_tree l2" "b \<notin> set_tree l1" "b \<notin> set_tree l2"
    "a \<notin> set_tree r" "b \<notin> set_tree r" "distinct (inorder ?A @ inorder ?B)" "distinct (inorder r)"
    "(set_tree ?A \<union> set_tree ?B) \<inter> set_tree r = {}"
    "(set_tree ?A \<union> set_tree ?B \<union> set_tree r) \<inter> \<Union> (set_tree ` set st) = {}"
    using 3(4) by (auto simp: disjoint_trees_Cons)
  let ?h1 = "h(a := (h a)\<lparr>m_next := null, m_prev := null\<rparr>)"
  let ?h2 = "?h1(b := (?h1 b)\<lparr>m_next := null, m_prev := null\<rparr>)"
  have k2: "keys ?h2 = keys h" using dj(1) by (auto simp: keys_def)
  have "repr ?h2 a (m_child (h a)) l1"
    by (rule repr_frame [OF ra]) (use dj(2,4) in auto)
  moreover have "repr ?h2 b (m_child (h b)) l2"
    by (rule repr_frame [OF rb]) (use dj(3,5) in auto)
  ultimately have A: "repr ?h2 null a ?A" and B: "repr ?h2 null b ?B" using a dj(1) by auto
  obtain m h3 where M: "Meld ?h2 a b = (m, h3)" "repr h3 null m (meld (keys h) ?A ?B)"
      "\<And>n. n \<notin> set_tree ?A \<union> set_tree ?B \<Longrightarrow> h3 n = ?h2 n" "same_data ?h2 h3"
    using Meld_repr [OF A B _ _ dj(8)] k2 by auto
  let ?m = "meld (keys h) ?A ?B"
  let ?h4 = "h3(m := (h3 m)\<lparr>m_next := stack\<rparr>)"
  have m: "distinct (inorder ?m)" "set_tree ?m = set_tree ?A \<union> set_tree ?B"
    by (rule distinct_meld [OF _ _ dj(8)], simp, simp)+
  have min: "m \<in> set_tree ?A \<union> set_tree ?B"
    using repr_root [OF M(2)] m(2) meld_notLeaf [of ?A ?B] by (auto split: tree.splits)
  have out3: "h3 n = h n" if "n \<notin> set_tree ?A \<union> set_tree ?B" for n
    using that M(3) [OF that] by auto
  have "stk h3 stack st"
    by (rule stk_frame [OF 3(3)], rule out3) (use dj(11) in blast)
  then have st: "stk ?h4 m (?m # st)"
    by (intro stk_push [OF M(2)] single_meld meld_notLeaf m(1))
      (use dj(11) m(2) in \<open>simp_all del: meld.simps, blast\<close>)
  have out: "?h4 n = h n" if "n \<notin> set_tree ?A \<union> set_tree ?B" for n
    using that out3 [OF that] min by auto
  have r4: "repr ?h4 b (m_next (h b)) r"
    by (rule repr_frame [OF rr], rule out) (use dj(10) in blast)
  have sd: "same_data h ?h4"
    using M(4) dj(1) by (auto simp: same_data_def)
  have k4: "keys ?h4 = keys h" by (rule same_data_keys [OF sd])
  have dj4: "disjoint_trees (r # ?m # st)"
  proof -
    have "set_tree r \<inter> set_tree ?m = {}" using m(2) dj(10) by blast
    moreover have "(set_tree r \<union> set_tree ?m) \<inter> \<Union> (set_tree ` set st) = {}" using m(2) dj(11) by blast
    moreover have "disjoint_trees st" using 3(4) by (simp add: disjoint_trees_Cons)
    ultimately show ?thesis
      using m(1) dj(9) by (simp add: disjoint_trees_Cons Int_Un_distrib2 Int_Un_distrib del: meld.simps)
  qed
  have sg: "\<forall>s \<in> set (?m # st). single s" using 3(5) single_meld [of ?A ?B] by auto
  obtain h' stack' where IH: "MergePairs_pass1 ?h4 (m_next (h b)) m = Some (h', stack')"
      "stk h' stack' (pass1 (keys h) r (?m # st))" "disjoint_trees (pass1 (keys h) r (?m # st))"
      "\<forall>s \<in> set (pass1 (keys h) r (?m # st)). single s"
      "\<And>n. n \<notin> set_tree r \<union> \<Union> (set_tree ` set (?m # st)) \<Longrightarrow> h' n = ?h4 n" "same_data ?h4 h'"
    using 3(1) [OF k4 [symmetric] r4 st dj4 sg] unfolding k4 by blast
  have "MergePairs_pass1 h cur stack = Some (h', stack')"
    using a dj(1) M(1) IH(1) by (simp add: MergePairs_pass1.simps [of h a])
  moreover have "h' n = h n" if "n \<notin> set_tree (Node l1 a (Node l2 b r)) \<union> \<Union> (set_tree ` set st)" for n
    using that IH(5) [of n] out [of n] m(2) by (simp del: meld.simps)
  ultimately show ?case
    using IH(2-4) same_data_trans [OF sd IH(6)] by (auto simp del: meld.simps)
qed

lemma MergePairs_pass2_ok:
  assumes "repr h null result t" and "single t" and "stk h stack st" and "disjoint_trees (t # st)"
    and "\<forall>s \<in> set st. single s"
  shows "\<exists>m h'. MergePairs_pass2 h result stack = Some (m, h') \<and>
     repr h' null m (foldl (meld (keys h)) t st) \<and>
     (\<forall>n. n \<notin> set_tree t \<union> \<Union> (set_tree ` set st) \<longrightarrow> h' n = h n) \<and> same_data h h'"
  using assms
proof (induction st arbitrary: h result t stack)
  case Nil
  then show ?case by (simp add: MergePairs_pass2.simps)
next
  case (Cons s st)
  from Cons.prems(3,5) obtain l where s: "s = Node l stack Leaf" "stack \<noteq> null"
      "repr h stack (m_child (h stack)) l" "stk h (m_next (h stack)) st"
    by (cases s) auto
  let ?h1 = "h(stack := (h stack)\<lparr>m_next := null, m_prev := null\<rparr>)"
  have dj: "stack \<notin> set_tree l" "stack \<notin> set_tree t" "stack \<notin> \<Union> (set_tree ` set st)"
    "distinct (inorder t @ inorder s)" "(set_tree t \<union> set_tree s) \<inter> \<Union> (set_tree ` set st) = {}"
    "disjoint_trees st"
    using Cons.prems(4) s(1) by (auto simp: disjoint_trees_Cons)
  have k1: "keys ?h1 = keys h" by (auto simp: keys_def)
  have "repr ?h1 stack (m_child (h stack)) l" by (rule repr_frame [OF s(3)]) (use dj in auto)
  then have S: "repr ?h1 null stack s" using s(1,2) by simp
  have T: "repr ?h1 null result t" by (rule repr_frame [OF Cons.prems(1)]) (use dj in auto)
  obtain r h2 where M: "Meld ?h1 result stack = (r, h2)" "repr h2 null r (meld (keys h) t s)"
      "\<And>n. n \<notin> set_tree t \<union> set_tree s \<Longrightarrow> h2 n = ?h1 n" "same_data ?h1 h2"
    using Meld_repr [OF T S Cons.prems(2) _ dj(4)] s(1) k1 by auto
  have out: "h2 n = h n" if "n \<notin> set_tree t \<union> set_tree s" for n
    using that M(3) [OF that] s(1) by auto
  have sd: "same_data h h2" using M(4) by (auto simp: same_data_def)
  have k2: "keys h2 = keys h" by (rule same_data_keys [OF sd])
  have sg: "single s" using s(1) by simp
  note m = distinct_meld [OF Cons.prems(2) sg dj(4), of "keys h"]
  have st2: "stk h2 (m_next (h stack)) st"
    by (rule stk_frame [OF s(4)], rule out) (use dj(5) in blast)
  have dj2: "disjoint_trees (meld (keys h) t s # st)"
    using m dj(5,6) by (simp add: disjoint_trees_Cons)
  have sgs: "\<forall>s \<in> set st. single s" using Cons.prems(5) by simp
  obtain x h' where IH: "MergePairs_pass2 h2 r (m_next (h stack)) = Some (x, h')"
      "repr h' null x (foldl (meld (keys h)) (meld (keys h) t s) st)"
      "\<And>n. n \<notin> set_tree (meld (keys h) t s) \<union> \<Union> (set_tree ` set st) \<Longrightarrow> h' n = h2 n"
      "same_data h2 h'"
    using Cons.IH [OF M(2) single_meld [OF Cons.prems(2) sg] st2 dj2 sgs] unfolding k2 by blast
  have "MergePairs_pass2 h result stack = Some (x, h')"
    using s(2) M(1) IH(1) by (simp add: MergePairs_pass2.simps [of h])
  moreover have "h' n = h n" if "n \<notin> set_tree t \<union> \<Union> (set_tree ` set (s # st))" for n
    using that IH(3) [of n] out [of n] m(2) by simp
  ultimately show ?case
    using IH(2) same_data_trans [OF sd IH(4)] by auto
qed

lemma MergePairs_ok:
  assumes "repr h p q t" and "distinct (inorder t)"
  shows "\<exists>m h'. MergePairs h q = Some (m, h') \<and> repr h' null m (merge_pairs (keys h) t) \<and>
     (\<forall>n. n \<notin> set_tree t \<longrightarrow> h' n = h n) \<and> same_data h h'"
proof (cases "q = null")
  case True
  then have "t = Leaf" using repr_null_iff [OF assms(1)] by simp
  with True show ?thesis by (simp add: MergePairs_def merge_pairs_def)
next
  case False
  have dj: "disjoint_trees (t # [])" using assms(2) by (simp add: disjoint_trees_def)
  let ?st = "pass1 (keys h) t []"
  obtain h1 st where 1: "MergePairs_pass1 h q null = Some (h1, st)" "stk h1 st ?st" "disjoint_trees ?st"
      "\<forall>s \<in> set ?st. single s" "\<And>n. n \<notin> set_tree t \<Longrightarrow> h1 n = h n" "same_data h h1"
    using MergePairs_pass1_ok [OF assms(1) _ dj, of null] by auto
  have k: "keys h1 = keys h" by (rule same_data_keys [OF 1(6)])
  have "disjoint_trees (Leaf # ?st)" using 1(3) by (simp add: disjoint_trees_Cons)
  then obtain m h' where 2: "MergePairs_pass2 h1 null st = Some (m, h')"
      "repr h' null m (foldl (meld (keys h)) Leaf ?st)"
      "\<And>n. n \<notin> \<Union> (set_tree ` set ?st) \<Longrightarrow> h' n = h1 n" "same_data h1 h'"
    using MergePairs_pass2_ok [of h1 null Leaf st ?st] 1(2,4) unfolding k by auto
  have "h' n = h n" if "n \<notin> set_tree t" for n
    using that 2(3) [of n] 1(5) set_trees_pass1 [of "keys h" t "[]"] by simp
  moreover have "MergePairs h q = Some (m, h')"
    using False 1(1) 2(1) by (simp add: MergePairs_def)
  ultimately show ?thesis
    using 2(2) same_data_trans [OF 1(6) 2(4)] by (auto simp: merge_pairs_def)
qed

section \<open>Unlinking a node below the root\<close>

definition unlink_store :: "tstore \<Rightarrow> addr \<Rightarrow> tstore" where
  "unlink_store h node = (let p = m_prev (h node);
     h1 = (if m_child (h p) = node then h(p := (h p)\<lparr>m_child := m_next (h node)\<rparr>)
           else h(p := (h p)\<lparr>m_next := m_next (h node)\<rparr>));
     nx = m_next (h1 node)
   in (if nx \<noteq> null then h1(nx := (h1 nx)\<lparr>m_prev := m_prev (h1 node)\<rparr>) else h1))"

lemma repr_neighbours:
  assumes "repr h p q t" and "n \<in> set_tree t" and "n \<noteq> q"
  shows "m_prev (h n) \<in> set_tree t"
  using assms
proof (induction t arbitrary: p q)
  case (Node l a r)
  then consider "n \<in> set_tree l" | "n \<in> set_tree r" by auto
  then show ?case
  proof cases
    case 1
    show ?thesis
    proof (cases "n = m_child (h a)")
      case True
      with 1 Node.prems(1) show ?thesis by (cases l) auto
    next
      case False
      with 1 Node show ?thesis by auto
    qed
  next
    case 2
    show ?thesis
    proof (cases "n = m_next (h a)")
      case True
      with 2 Node.prems(1) show ?thesis by (cases r) auto
    next
      case False
      with 2 Node show ?thesis by auto
    qed
  qed
qed simp

lemma repr_next_in:
  assumes "repr h p q t" and "n \<in> set_tree t"
  shows "m_next (h n) = null \<or> m_next (h n) \<in> set_tree t"
  using assms
proof (induction t arbitrary: p q)
  case (Node l a r)
  show ?case
  proof (cases "n = a")
    case True
    with Node.prems repr_root [of h a "m_next (h a)" r] show ?thesis by (cases r) auto
  next
    case False
    with Node.prems Node.IH(1) [of a "m_child (h a)"] Node.IH(2) [of a "m_next (h a)"]
    show ?thesis by auto
  qed
qed simp

lemma unlink_store_fields:
  assumes "m_prev (h n) \<noteq> n" and "m_next (h n) \<noteq> n" and "m_prev (h n) \<noteq> m_next (h n)"
  shows "m_child (unlink_store h n x) =
      (if x = m_prev (h n) \<and> m_child (h (m_prev (h n))) = n then m_next (h n) else m_child (h x))"
    and "m_next (unlink_store h n x) =
      (if x = m_prev (h n) \<and> m_child (h (m_prev (h n))) \<noteq> n then m_next (h n) else m_next (h x))"
    and "m_prev (unlink_store h n x) =
      (if x = m_next (h n) \<and> x \<noteq> null then m_prev (h n) else m_prev (h x))"
    and "same_data h (unlink_store h n)"
    and "x \<noteq> m_prev (h n) \<Longrightarrow> x \<noteq> m_next (h n) \<Longrightarrow> unlink_store h n x = h x"
  using assms by (simp_all add: unlink_store_def Let_def same_data_def)

lemma repr_next_not_prev:
  assumes "repr h p q t" and "distinct (inorder t)" and "n \<in> set_tree t" and "n \<noteq> q"
  shows "m_prev (h n) \<noteq> n \<and> m_next (h n) \<noteq> n \<and> m_prev (h n) \<noteq> m_next (h n)"
  using assms
proof (induction t arbitrary: p q)
  case (Node l a r)
  have sub: "repr h a (m_child (h a)) l" "repr h a (m_next (h a)) r" using Node.prems(1) by auto
  have dj: "a \<notin> set_tree l" "a \<notin> set_tree r" "set_tree l \<inter> set_tree r = {}"
    "distinct (inorder l)" "distinct (inorder r)" using Node.prems(2) by auto
  have root_case: "m_prev (h n) \<noteq> n \<and> m_next (h n) \<noteq> n \<and> m_prev (h n) \<noteq> m_next (h n)"
    if s: "repr h a n s" "distinct (inorder s)" "a \<notin> set_tree s" "s \<noteq> Leaf" for s
  proof -
    from s obtain s1 s2 where s12: "s = Node s1 n s2" by (cases s) auto
    with s(1) have "m_prev (h n) = a" "repr h n (m_next (h n)) s2" by auto
    moreover from this(2) have "m_next (h n) = null \<or> m_next (h n) \<in> set_tree s2"
      using repr_root by (cases s2) fastforce+
    ultimately show ?thesis using s s12 Node.prems(1) by auto
  qed
  from Node.prems consider "n \<in> set_tree l" | "n \<in> set_tree r" by auto
  then show ?case
  proof cases
    case 1
    then have "l \<noteq> Leaf" by auto
    with 1 show ?thesis
      using Node.IH(1) [OF sub(1) dj(4)] root_case [of l] sub(1) dj(1,4) by (cases "n = m_child (h a)") blast+
  next
    case 2
    then have "r \<noteq> Leaf" by auto
    with 2 show ?thesis
      using Node.IH(2) [OF sub(2) dj(5)] root_case [of r] sub(2) dj(2,5) by (cases "n = m_next (h a)") blast+
  qed
qed simp

lemma unlink_cut:
  assumes "repr h p q t" and "distinct (inorder t)" and "n \<in> set_tree t" and "n \<noteq> q"
  shows "repr (unlink_store h n) p q (cut n t)"
  using assms
proof (induction t arbitrary: p q)
  case (Node l a r)
  let ?u = "unlink_store h n" and ?p = "m_prev (h n)" and ?x = "m_next (h n)"
  have sub: "repr h a (m_child (h a)) l" "repr h a (m_next (h a)) r" and a: "q = a" "a \<noteq> null"
    "m_prev (h a) = p" using Node.prems(1) by auto
  have dj: "a \<notin> set_tree l" "a \<notin> set_tree r" "set_tree l \<inter> set_tree r = {}"
    "distinct (inorder l)" "distinct (inorder r)" using Node.prems(2) by auto
  note ne = repr_next_not_prev [OF Node.prems]
  note F = unlink_store_fields [of h n, OF conjunct1 [OF ne]
      conjunct1 [OF conjunct2 [OF ne]] conjunct2 [OF conjunct2 [OF ne]]]
  have na: "n \<noteq> a" using Node.prems(4) a by simp
  from Node.prems na consider "n \<in> set_tree l" "n \<notin> set_tree r" | "n \<in> set_tree r" "n \<notin> set_tree l"
    using dj(3) by auto
  then show ?case
  proof cases
    case 1
    have xl: "?x = null \<or> ?x \<in> set_tree l" by (rule repr_next_in [OF sub(1) 1(1)])
    show ?thesis
    proof (cases "n = m_child (h a)")
      case True
      with 1 sub(1) obtain l' r' where l: "l = Node l' n r'" by (cases l) auto
      with sub(1) have pn: "?p = a" and r': "repr h n ?x r'" by auto
      have G: "m_child (?u y) = (if y = a then ?x else m_child (h y))" "m_next (?u y) = m_next (h y)"
        "m_prev (?u y) = (if y = ?x \<and> y \<noteq> null then a else m_prev (h y))" for y
        using F(1-3) [of y] pn True by simp_all
      have dr: "distinct (inorder r')" "a \<notin> set_tree r'" "n \<notin> set_tree r'" using dj l by auto
      then have "repr ?u a ?x r'"
        by (intro repr_reparent [OF r']) (auto simp: G)
      moreover have "repr ?u a (m_next (h a)) r"
        by (rule repr_frame_links [OF sub(2)]) (use dj xl repr_notnull [OF sub(2)] in \<open>auto simp: G\<close>)
      moreover have "a \<noteq> ?x" using xl dj a by auto
      ultimately show ?thesis
        using na 1 a l by (simp add: G cut_notin)
    next
      case False
      have pl: "?p \<in> set_tree l" by (rule repr_neighbours [OF sub(1) 1(1) False])
      have "repr ?u a (m_next (h a)) r"
        by (rule repr_frame_links [OF sub(2)]) (use pl dj xl repr_notnull [OF sub(2)] in \<open>auto simp: F\<close>)
      moreover have "repr ?u a (m_child (h a)) (cut n l)"
        by (rule Node.IH(1) [OF sub(1) dj(4) 1(1) False])
      moreover have "a \<noteq> ?p" "a \<noteq> ?x" using pl xl dj a by auto
      ultimately show ?thesis using na 1 a by (simp add: F cut_notin)
    qed
  next
    case 2
    have xr: "?x = null \<or> ?x \<in> set_tree r" by (rule repr_next_in [OF sub(2) 2(1)])
    show ?thesis
    proof (cases "n = m_next (h a)")
      case True
      with 2 sub(2) obtain l' r' where r: "r = Node l' n r'" by (cases r) auto
      with sub(2) have pn: "?p = a" and r': "repr h n ?x r'" by auto
      have cn: "m_child (h a) \<noteq> n"
        using sub(1) 2(2) repr_root [OF sub(1)] r sub(2) by (cases l) auto
      have G: "m_child (?u y) = m_child (h y)" "m_next (?u y) = (if y = a then ?x else m_next (h y))"
        "m_prev (?u y) = (if y = ?x \<and> y \<noteq> null then a else m_prev (h y))" for y
        using F(1-3) [of y] pn cn by simp_all
      have dr: "distinct (inorder r')" "a \<notin> set_tree r'" "n \<notin> set_tree r'" using dj r by auto
      then have "repr ?u a ?x r'"
        by (intro repr_reparent [OF r']) (auto simp: G)
      moreover have "repr ?u a (m_child (h a)) l"
        by (rule repr_frame_links [OF sub(1)]) (use dj xr repr_notnull [OF sub(1)] in \<open>auto simp: G\<close>)
      moreover have "a \<noteq> ?x" using xr dj a by auto
      ultimately show ?thesis
        using na 2 a r by (simp add: G cut_notin)
    next
      case False
      have pr: "?p \<in> set_tree r" by (rule repr_neighbours [OF sub(2) 2(1) False])
      have "repr ?u a (m_child (h a)) l"
        by (rule repr_frame_links [OF sub(1)]) (use pr dj xr repr_notnull [OF sub(1)] in \<open>auto simp: F\<close>)
      moreover have "repr ?u a (m_next (h a)) (cut n r)"
        by (rule Node.IH(2) [OF sub(2) dj(5) 2(1) False])
      moreover have "a \<noteq> ?p" "a \<noteq> ?x" using pr xr dj a by auto
      ultimately show ?thesis using na 2 a by (simp add: F cut_notin)
    qed
  qed
qed simp

section \<open>The queue invariant and what the operations do\<close>

definition tq_tree :: "tqueue \<Rightarrow> addr tree \<Rightarrow> bool" where
  "tq_tree q t \<longleftrightarrow> repr (fst q) null (snd q) t \<and> single t \<and> distinct (inorder t) \<and>
     heap (keys (fst q)) t \<and> (\<forall>n. m_linked (fst q n) \<longleftrightarrow> n \<in> set_tree t)"

definition tq_inv :: "tqueue \<Rightarrow> bool" where
  "tq_inv q \<longleftrightarrow> (\<exists>t. tq_tree q t)"

text \<open>The abstraction: the deadline and the coordinator of every queued node.\<close>

definition tq_abs :: "tqueue \<Rightarrow> (addr \<rightharpoonup> int \<times> addr)" where
  "tq_abs q n = (if m_linked (fst q n) then Some (m_deadlineUs (fst q n), m_coord (fst q n)) else None)"

lemma heap_cong: "(\<And>x. x \<in> set_tree t \<Longrightarrow> k x = k' x) \<Longrightarrow> heap k t \<longleftrightarrow> heap k' t"
  by (induction t) auto

lemma prev_reset:
  assumes "repr h null r t"
  shows "(if r \<noteq> null then h(r := (h r)\<lparr>m_prev := null\<rparr>) else h) = h"
  using assms by (cases t) (auto intro!: fun_upd_idem)

lemma tq_tree_dom: "tq_tree q t \<Longrightarrow> dom (tq_abs q) = set_tree t"
  by (auto simp: tq_tree_def tq_abs_def dom_def)

lemma Insert_node_tree:
  assumes inv: "tq_tree (h, root) t" and n: "\<not> m_linked (h n)" "n \<noteq> null"
  shows "\<exists>q' t'. Insert_node (h, root) n d c = Some q' \<and> tq_tree q' t' \<and>
     tq_abs q' = (tq_abs (h, root))(n \<mapsto> (d, c))"
proof -
  from inv have t: "repr h null root t" "single t" "distinct (inorder t)" "heap (keys h) t"
    and lk: "\<And>x. m_linked (h x) \<longleftrightarrow> x \<in> set_tree t" by (auto simp: tq_tree_def)
  define h1 where "h1 = h(n := (h n)\<lparr>m_deadlineUs := d, m_coord := c, m_child := null,
     m_next := null, m_prev := null, m_linked := True\<rparr>)"
  have out: "n \<notin> set_tree t" using lk n by blast
  have r1: "repr h1 null root t" by (rule repr_frame [OF t(1)]) (use out in \<open>auto simp: h1_def\<close>)
  have r2: "repr h1 null n (Node Leaf n Leaf)" using n(2) by (simp add: h1_def)
  have dj: "distinct (inorder t @ inorder (Node Leaf n Leaf))" using t(3) out by simp
  have hp: "heap (keys h1) t" using t(4) out by (subst heap_cong [of t "keys h1" "keys h"]) (auto simp: h1_def keys_def)
  let ?t = "meld (keys h1) t (Node Leaf n Leaf)"
  obtain m h2 where M: "Meld h1 root n = (m, h2)" "repr h2 null m ?t" "same_data h1 h2"
    using Meld_repr [OF r1 r2 t(2) _ dj] by auto
  have k: "keys h2 = keys h1" by (rule same_data_keys [OF M(3)])
  note m = distinct_meld [OF t(2) _ dj, of "keys h1"]
  have mn: "m \<noteq> null" using repr_null_iff [OF M(2)] meld_notLeaf by auto
  have eq: "Insert_node (h, root) n d c = Some (h2, m)"
    using n M(1) mn prev_reset [OF M(2)] by (simp add: Insert_node_def flip: h1_def)
  have "tq_tree (h2, m) ?t"
    unfolding tq_tree_def fst_conv snd_conv k
    using M(2,3) m single_meld [OF t(2), of "Node Leaf n Leaf"] heap_meld [OF hp _ t(2), of "Node Leaf n Leaf"]
      lk n by (auto simp: same_data_def h1_def simp del: meld.simps)
  moreover have "tq_abs (h2, m) = (tq_abs (h, root))(n \<mapsto> (d, c))"
    using M(3) by (auto simp: tq_abs_def same_data_def h1_def)
  ultimately show ?thesis using eq by blast
qed

text \<open>The node that leaves the queue: its link fields are cleared at the end.\<close>

lemma clear_node:
  assumes "repr h null r t" and "n \<notin> set_tree t"
  shows "repr (h(n := (h n)\<lparr>m_child := null, m_next := null, m_prev := null\<rparr>)) null r t"
  by (rule repr_frame [OF assms(1)]) (use assms(2) in auto)

lemma Remove_root_tree:
  assumes inv: "tq_tree (h, root) t" and n: "m_linked (h root)"
  shows "\<exists>q' t'. Remove_node (h, root) root = Some q' \<and> tq_tree q' t' \<and>
     tq_abs q' = (tq_abs (h, root))(root := None)"
proof -
  from inv have t: "repr h null root t" "single t" "distinct (inorder t)" "heap (keys h) t"
    and lk: "\<And>x. m_linked (h x) \<longleftrightarrow> x \<in> set_tree t" by (auto simp: tq_tree_def)
  with n obtain l where tl: "t = Node l root Leaf" by (cases t) auto
  define h0 where "h0 = h(root := (h root)\<lparr>m_linked := False\<rparr>)"
  have k0: "keys h0 = keys h" by (auto simp: h0_def keys_def)
  have out: "root \<notin> set_tree l" "distinct (inorder l)" "heap (keys h) l" using t tl by auto
  have "repr h root (m_child (h root)) l" using t(1) tl by simp
  then have "repr h0 root (m_child (h root)) l" by (rule repr_frame) (use out in \<open>auto simp: h0_def\<close>)
  then obtain m h1 where M: "MergePairs h0 (m_child (h root)) = Some (m, h1)"
      "repr h1 null m (merge_pairs (keys h) l)" "same_data h0 h1"
    using MergePairs_ok out(2) k0 by metis
  let ?t = "merge_pairs (keys h) l"
  let ?h = "h1(root := (h1 root)\<lparr>m_child := null, m_next := null, m_prev := null\<rparr>)"
  note mp = merge_pairs_props [OF out(3)]
  have st: "set_tree ?t = set_tree l" by (rule set_merge_pairs [OF out(3)])
  have "(if m \<noteq> null then h1(m := (h1 m)\<lparr>m_prev := null\<rparr>) else h1) = h1"
    by (rule prev_reset [OF M(2)])
  then have eq: "Remove_node (h, root) root = Some (?h, m)"
    using n M(1) by (simp add: Remove_node_def Let_def h0_def)
  have kk: "keys ?h = keys h" using same_data_keys [OF M(3)] k0 by (auto simp: keys_def fun_eq_iff)
  have "tq_tree (?h, m) ?t"
    unfolding tq_tree_def fst_conv snd_conv kk
    using clear_node [OF M(2)] st out mp M(3) lk tl mset_eq_imp_distinct_iff [OF mp(3)]
    by (auto simp: same_data_def h0_def)
  moreover have "tq_abs (?h, m) = (tq_abs (h, root))(root := None)"
    using M(3) by (auto simp: tq_abs_def same_data_def h0_def)
  ultimately show ?thesis using eq by blast
qed

lemma repr_subtree_at:
  assumes "repr h p q t" and "n \<in> set_tree t" and "distinct (inorder t)"
  shows "repr h n (m_child (h n)) (subtree_at n t)"
  using assms by (induction t arbitrary: p q) auto

lemma cut_subtree_disjoint:
  assumes "n \<in> set_tree t" and "distinct (inorder t)"
  shows "distinct (inorder (cut n t))" "distinct (inorder (subtree_at n t))"
    "n \<notin> set_tree (cut n t)" "n \<notin> set_tree (subtree_at n t)"
    "set_tree (cut n t) \<inter> set_tree (subtree_at n t) = {}"
    "set_tree t = insert n (set_tree (cut n t) \<union> set_tree (subtree_at n t))"
proof -
  have "mset (inorder t) = mset (n # inorder (cut n t) @ inorder (subtree_at n t))"
    using nodes_cut [OF assms] by simp
  then have "distinct (n # inorder (cut n t) @ inorder (subtree_at n t))"
    and "set (inorder t) = set (n # inorder (cut n t) @ inorder (subtree_at n t))"
    using assms(2) mset_eq_imp_distinct_iff mset_eq_setD by blast+
  then show "distinct (inorder (cut n t))" "distinct (inorder (subtree_at n t))"
    "n \<notin> set_tree (cut n t)" "n \<notin> set_tree (subtree_at n t)"
    "set_tree (cut n t) \<inter> set_tree (subtree_at n t) = {}"
    "set_tree t = insert n (set_tree (cut n t) \<union> set_tree (subtree_at n t))" by auto
qed

text \<open>The neighbours of a node lie outside the subtree of its children.\<close>

lemma neighbours_not_in_subtree:
  assumes "repr h p q t" and "distinct (inorder t)" and "n \<in> set_tree t" and "n \<noteq> q"
  shows "m_prev (h n) \<notin> set_tree (subtree_at n t)" "m_next (h n) \<notin> set_tree (subtree_at n t)"
proof -
  note C = cut_subtree_disjoint [OF assms(3,2)]
  have ne: "m_prev (h n) \<noteq> n" "m_next (h n) \<noteq> n"
    using repr_next_not_prev [OF assms] by auto
  show "m_next (h n) \<notin> set_tree (subtree_at n t)"
    using assms(1-3)
  proof (induction t arbitrary: p q)
    case (Node l a r)
    show ?case
    proof (cases "a = n")
      case True
      with Node.prems repr_root [of h a "m_next (h a)" r] show ?thesis
        using repr_notnull [of h a "m_child (h a)" l] by (cases r) auto
    qed (use Node in auto)
  qed simp
  show "m_prev (h n) \<notin> set_tree (subtree_at n t)"
    using assms
  proof (induction t arbitrary: p q)
    case (Node l a r)
    show ?case
    proof (cases "n \<in> set_tree l")
      case True
      with Node.prems have an: "a \<noteq> n" "a \<notin> set_tree (subtree_at n l)"
        using cut_subtree_disjoint(6) [OF True] by auto
      show ?thesis
      proof (cases "n = m_child (h a)")
        case T: True
        then have "m_prev (h n) = a" using Node.prems(1) True by (cases l) auto
        with an True show ?thesis by simp
      qed (use Node True an in auto)
    next
      case False
      with Node.prems have nr: "n \<in> set_tree r" "a \<noteq> n" by auto
      with Node.prems have an: "a \<notin> set_tree (subtree_at n r)"
        using cut_subtree_disjoint(6) [OF nr(1)] by auto
      show ?thesis
      proof (cases "n = m_next (h a)")
        case T: True
        then have "m_prev (h n) = a" using Node.prems(1) nr(1) by (cases r) auto
        with an nr False show ?thesis by simp
      qed (use Node nr an False in auto)
    qed
  qed simp
qed

lemma Remove_inner_tree:
  assumes inv: "tq_tree (h, root) t" and n: "m_linked (h n)" "n \<noteq> root"
  shows "\<exists>q' t'. Remove_node (h, root) n = Some q' \<and> tq_tree q' t' \<and>
     tq_abs q' = (tq_abs (h, root))(n := None)"
proof -
  from inv have t: "repr h null root t" "single t" "distinct (inorder t)" "heap (keys h) t"
    and lk: "\<And>x. m_linked (h x) \<longleftrightarrow> x \<in> set_tree t" by (auto simp: tq_tree_def)
  have nt: "n \<in> set_tree t" using n lk by simp
  define h0 where "h0 = h(n := (h n)\<lparr>m_linked := False\<rparr>)"
  have same: "m_child (h0 x) = m_child (h x)" "m_next (h0 x) = m_next (h x)"
    "m_prev (h0 x) = m_prev (h x)" for x by (simp_all add: h0_def)
  have k0: "keys h0 = keys h" by (auto simp: h0_def keys_def)
  have t0: "repr h0 null root t" by (rule repr_frame_links [OF t(1)]) (simp add: same)
  note ne = repr_next_not_prev [OF t0 t(3) nt n(2)]
  note F = unlink_store_fields [of h0 n, OF conjunct1 [OF ne]
      conjunct1 [OF conjunct2 [OF ne]] conjunct2 [OF conjunct2 [OF ne]]]
  define h2 where "h2 = unlink_store h0 n"
  let ?l = "subtree_at n t" and ?c = "cut n t"
  note C = cut_subtree_disjoint [OF nt t(3)]
  have rc: "repr h2 null root ?c" unfolding h2_def by (rule unlink_cut [OF t0 t(3) nt n(2)])
  have rl: "repr h2 n (m_child (h2 n)) ?l"
  proof -
    have "m_child (h2 n) = m_child (h0 n)" using ne unfolding h2_def by (simp add: F)
    moreover have "repr h2 n (m_child (h0 n)) ?l"
      unfolding h2_def
      by (rule repr_frame [OF repr_subtree_at [OF t0 nt t(3)]], rule F(5))
        (use neighbours_not_in_subtree [OF t0 t(3) nt n(2)] in auto)
    ultimately show ?thesis by simp
  qed
  have sd2: "same_data h0 h2" unfolding h2_def by (rule F(4))
  have k2: "keys h2 = keys h" using same_data_keys [OF sd2] k0 by simp
  obtain sub h3 where M: "MergePairs h2 (m_child (h2 n)) = Some (sub, h3)"
      "repr h3 null sub (merge_pairs (keys h) ?l)" "\<And>x. x \<notin> set_tree ?l \<Longrightarrow> h3 x = h2 x" "same_data h2 h3"
    using MergePairs_ok [OF rl C(2)] unfolding k2 by blast
  let ?s = "merge_pairs (keys h) ?l"
  have hl: "heap (keys h) ?l" by (rule heap_subtree_at [OF t(4)])
  note mp = merge_pairs_props [OF hl]
  have ss: "set_tree ?s = set_tree ?l" by (rule set_merge_pairs [OF hl])
  have k3: "keys h3 = keys h" using same_data_keys [OF M(4)] k2 by simp
  have rc3: "repr h3 null root ?c" by (rule repr_frame [OF rc], rule M(3)) (use C(5) in blast)
  have sc: "single ?c" using t(1,2) n(2) by (cases t) auto
  have dj: "distinct (inorder ?c @ inorder ?s)"
    using C(1,2,5) ss mset_eq_imp_distinct_iff [OF mp(3)] by simp
  let ?t = "meld (keys h) ?c ?s"
  obtain m h5 where L: "Meld h3 root sub = (m, h5)" "repr h5 null m ?t" "same_data h3 h5"
    using Meld_repr [OF rc3 M(2) sc mp(2) dj] unfolding k3 by blast
  note md = distinct_meld [OF sc mp(2) dj, of "keys h"]
  let ?h = "h5(n := (h5 n)\<lparr>m_child := null, m_next := null, m_prev := null\<rparr>)"
  have eq: "Remove_node (h, root) n = Some (?h, m)"
    using n prev_reset [OF M(2)] prev_reset [OF L(2)] M(1) L(1)
    by (simp add: Remove_node_def Let_def h2_def unlink_store_def flip: h0_def)
  have sd: "same_data h0 h5" using sd2 M(4) L(3) same_data_trans by blast
  have kk: "keys ?h = keys h" using same_data_keys [OF sd] k0 by (auto simp: keys_def fun_eq_iff)
  have nt': "n \<notin> set_tree ?t" using md(2) ss C(3,4) by simp
  have lk': "m_linked (?h x) \<longleftrightarrow> x \<in> set_tree ?t" for x
    using sd lk [of x] md(2) ss C(3,4,6) by (auto simp: same_data_def h0_def)
  have "tq_tree (?h, m) ?t"
    unfolding tq_tree_def fst_conv snd_conv kk
    using clear_node [OF L(2) nt'] single_meld [OF sc mp(2)] md(1) lk'
      heap_meld [OF heap_cut [OF t(4)] mp(1) sc mp(2)] by blast
  moreover have "tq_abs (?h, m) = (tq_abs (h, root))(n := None)"
    using sd by (auto simp: tq_abs_def same_data_def h0_def)
  ultimately show ?thesis using eq by blast
qed

end
