(* ===== verification/Deadline_Queue.thy ===== *)
theory Deadline_Queue
  imports Timer_Queue
begin

text \<open>
  The timer queue as its clients see it (\<open>coop/time/timer_queue.h\<close>, \<open>coop/time/timer_queue.cpp\<close>): a map from
  queued nodes to deadlines. \<open>Insert\<close>, \<open>Remove\<close> and \<open>PopExpired\<close> of the pairing heap implement the
  operations of that map; the locale \<open>deadline_queue\<close> states the contract, is interpreted on the heap,
  and carries the expiry loop of the cooperator.
\<close>

lemma Insert_node_ok:
  assumes "tq_inv q" and "tq_abs q n = None" and "n \<noteq> null"
  shows "\<exists>q'. Insert_node q n d c = Some q' \<and> tq_inv q' \<and> tq_abs q' = (tq_abs q)(n \<mapsto> (d, c))"
proof (cases q)
  case (Pair h root)
  with assms obtain t where "tq_tree (h, root) t" and "\<not> m_linked (h n)"
    by (auto simp: tq_inv_def tq_abs_def split: if_splits)
  from Insert_node_tree [OF this assms(3), of d c] Pair show ?thesis unfolding tq_inv_def by blast
qed

lemma Insert_node_linked: "tq_abs q n \<noteq> None \<Longrightarrow> Insert_node q n d c = None"
  by (cases q) (auto simp: Insert_node_def tq_abs_def split: if_splits)

lemma Remove_node_ok:
  assumes "tq_inv q"
  shows "\<exists>q'. Remove_node q n = Some q' \<and> tq_inv q' \<and> tq_abs q' = (tq_abs q)(n := None)"
proof (cases q)
  case (Pair h root)
  from assms Pair obtain t where t: "tq_tree (h, root) t" by (auto simp: tq_inv_def)
  consider "\<not> m_linked (h n)" | "m_linked (h n)" "n = root" | "m_linked (h n)" "n \<noteq> root" by blast
  then show ?thesis
  proof cases
    case 1
    then have "Remove_node q n = Some q" and "tq_abs q n = None"
      using Pair by (simp_all add: Remove_node_def tq_abs_def)
    with assms show ?thesis by (auto simp: fun_upd_idem)
  next
    case 2
    then show ?thesis using Remove_root_tree [OF t] Pair unfolding tq_inv_def by blast
  next
    case 3
    then show ?thesis using Remove_inner_tree [OF t] Pair unfolding tq_inv_def by blast
  qed
qed

lemma tq_root_min:
  assumes "tq_inv q" and "tq_abs q n = Some (d, c)"
  shows "snd q \<noteq> null" and "\<exists>c'. tq_abs q (snd q) = Some (m_deadlineUs (fst q (snd q)), c')"
    and "m_deadlineUs (fst q (snd q)) \<le> d"
proof -
  obtain h root where q: "q = (h, root)" by (cases q)
  from assms(1) obtain t where t: "repr h null root t" "single t" "heap (keys h) t"
    and lk: "\<And>x. m_linked (h x) \<longleftrightarrow> x \<in> set_tree t"
    by (auto simp: tq_inv_def tq_tree_def q)
  have n: "n \<in> set_tree t" "d = keys h n"
    using assms(2) lk by (auto simp: tq_abs_def q keys_def split: if_splits)
  then obtain l where l: "t = Node l root Leaf" using t by (cases t) auto
  with t(1) lk [of root] show "snd q \<noteq> null"
    and "\<exists>c'. tq_abs q (snd q) = Some (m_deadlineUs (fst q (snd q)), c')"
    by (auto simp: q tq_abs_def)
  show "m_deadlineUs (fst q (snd q)) \<le> d"
    using n t(3) l by (auto simp: keys_def q)
qed

lemma tq_empty_root: "tq_inv q \<Longrightarrow> (\<And>n. tq_abs q n = None) \<Longrightarrow> snd q = null"
proof -
  assume "tq_inv q" and none: "\<And>n. tq_abs q n = None"
  then obtain t where t: "tq_tree q t" by (auto simp: tq_inv_def)
  have "dom (tq_abs q) = {}" using none by (simp add: dom_def)
  then have "set_tree t = {}" using tq_tree_dom [OF t] by simp
  then have "t = Leaf" by (cases t) simp_all
  with t show "snd q = null" by (simp add: tq_tree_def)
qed

lemma tq_root_linked:
  assumes "tq_inv q" and "snd q \<noteq> null"
  shows "\<exists>c. tq_abs q (snd q) = Some (m_deadlineUs (fst q (snd q)), c)"
proof -
  obtain n where "tq_abs q n \<noteq> None" using tq_empty_root [OF assms(1)] assms(2) by metis
  then obtain d c where "tq_abs q n = Some (d, c)" by auto
  then show ?thesis by (rule tq_root_min(2) [OF assms(1)])
qed

lemma PopExpired_none:
  assumes "tq_inv q" and "\<And>n d c. tq_abs q n = Some (d, c) \<Longrightarrow> now < d"
  shows "PopExpired q now = Some (null, q)"
  using tq_root_linked [OF assms(1)] assms(2) by (cases q) (fastforce simp: PopExpired_def)

lemma PopExpired_some:
  assumes "tq_inv q" and "tq_abs q n = Some (d, c)" and "d \<le> now"
  shows "\<exists>m dm cm q'. PopExpired q now = Some (m, q') \<and> m \<noteq> null \<and> tq_abs q m = Some (dm, cm) \<and>
     dm \<le> now \<and> (\<forall>n d c. tq_abs q n = Some (d, c) \<longrightarrow> dm \<le> d) \<and> tq_inv q' \<and>
     tq_abs q' = (tq_abs q)(m := None)"
proof -
  note R = tq_root_min [OF assms(1)]
  obtain q' where q': "Remove_node q (snd q) = Some q'" "tq_inv q'" "tq_abs q' = (tq_abs q)(snd q := None)"
    using Remove_node_ok [OF assms(1)] by blast
  have "PopExpired q now = Some (snd q, q')"
    using q'(1) R(1,3) [OF assms(2)] assms(3) by (cases q) (auto simp: PopExpired_def)
  moreover obtain cm where "tq_abs q (snd q) = Some (m_deadlineUs (fst q (snd q)), cm)"
    using R(2) [OF assms(2)] by blast
  ultimately show ?thesis
    using q'(2,3) R(1,3) assms(2,3) order_trans by blast
qed

lemma tq_finite: "tq_inv q \<Longrightarrow> finite (dom (tq_abs q))"
  using tq_tree_dom unfolding tq_inv_def by (metis finite_set_tree)

lemma tq_notnull: "tq_inv q \<Longrightarrow> tq_abs q null = None"
proof -
  assume "tq_inv q"
  then obtain t where t: "tq_tree q t" by (auto simp: tq_inv_def)
  then have "null \<notin> set_tree t" using repr_notnull by (auto simp: tq_tree_def)
  then show "tq_abs q null = None" using tq_tree_dom [OF t] by auto
qed

section \<open>The interface of a deadline queue\<close>

text \<open>The drain loop of a timer service, over any pop operation; it collects the popped nodes.\<close>

partial_function (option) pop_loop :: "('q \<Rightarrow> (addr \<times> 'q) option) \<Rightarrow> 'q \<Rightarrow> addr list \<Rightarrow> (addr list \<times> 'q) option" where
  "pop_loop pop q acc = (case pop q of None \<Rightarrow> None | Some (n, q') \<Rightarrow>
     if n = null then Some (rev acc, q') else pop_loop pop q' (n # acc))"

definition expired :: "(addr \<rightharpoonup> int \<times> addr) \<Rightarrow> int \<Rightarrow> addr set" where
  "expired m now = {n. \<exists>d c. m n = Some (d, c) \<and> d \<le> now}"

definition due :: "(addr \<rightharpoonup> int \<times> addr) \<Rightarrow> addr \<Rightarrow> int" where
  "due m n = (case m n of None \<Rightarrow> 0 | Some (d, c) \<Rightarrow> d)"

locale deadline_queue =
  fixes inv :: "'q \<Rightarrow> bool"
    and abs :: "'q \<Rightarrow> (addr \<rightharpoonup> int \<times> addr)"
    and insert :: "'q \<Rightarrow> addr \<Rightarrow> int \<Rightarrow> addr \<Rightarrow> 'q option"
    and remove :: "'q \<Rightarrow> addr \<Rightarrow> 'q option"
    and pop :: "'q \<Rightarrow> int \<Rightarrow> (addr \<times> 'q) option"
  assumes finite_abs: "inv q \<Longrightarrow> finite (dom (abs q))"
    and insert_law: "inv q \<Longrightarrow> abs q n = None \<Longrightarrow> n \<noteq> null \<Longrightarrow>
      \<exists>q'. insert q n d c = Some q' \<and> inv q' \<and> abs q' = (abs q)(n \<mapsto> (d, c))"
    and remove_law: "inv q \<Longrightarrow> \<exists>q'. remove q n = Some q' \<and> inv q' \<and> abs q' = (abs q)(n := None)"
    and pop_none: "inv q \<Longrightarrow> (\<And>n d c. abs q n = Some (d, c) \<Longrightarrow> now < d) \<Longrightarrow> pop q now = Some (null, q)"
    and pop_some: "inv q \<Longrightarrow> abs q n = Some (d, c) \<Longrightarrow> d \<le> now \<Longrightarrow>
      \<exists>m dm cm q'. pop q now = Some (m, q') \<and> m \<noteq> null \<and> abs q m = Some (dm, cm) \<and> dm \<le> now \<and>
        (\<forall>n d c. abs q n = Some (d, c) \<longrightarrow> dm \<le> d) \<and> inv q' \<and> abs q' = (abs q)(m := None)"
begin

lemma insert_remove:
  assumes "inv q" and "abs q n = None" and "n \<noteq> null"
  shows "\<exists>q1 q2. insert q n d c = Some q1 \<and> remove q1 n = Some q2 \<and> inv q2 \<and> abs q2 = abs q"
proof -
  obtain q1 where q1: "insert q n d c = Some q1" "inv q1" "abs q1 = (abs q)(n \<mapsto> (d, c))"
    using insert_law [OF assms] by blast
  obtain q2 where "remove q1 n = Some q2" "inv q2" "abs q2 = (abs q1)(n := None)"
    using remove_law [OF q1(2)] by blast
  moreover from assms(2) have "(abs q)(n := None) = abs q" by (rule fun_upd_idem)
  ultimately show ?thesis using q1(1,3) by auto
qed

text \<open>The drain loop terminates; it pops every expired node once, nearest deadline first.\<close>

lemma drain_expired:
  assumes "inv q"
  shows "\<exists>ns q'. pop_loop (\<lambda>q. pop q now) q acc = Some (rev acc @ ns, q') \<and> inv q' \<and>
     distinct ns \<and> set ns = expired (abs q) now \<and> sorted (map (due (abs q)) ns) \<and>
     abs q' = abs q |` (- expired (abs q) now)"
proof -
  have fin: "finite (expired (abs q) now)" if "inv q" for q
    by (rule finite_subset [OF _ finite_abs [OF that]]) (auto simp: expired_def)
  show ?thesis
    using assms
  proof (induction "card (expired (abs q) now)" arbitrary: q acc)
    case 0
    then have e: "expired (abs q) now = {}" using fin by simp
    then have "now < d" if "abs q n = Some (d, c)" for n d c
      using that by (force simp: expired_def)
    then have "pop q now = Some (null, q)" by (rule pop_none [OF 0(2)])
    then show ?case using e 0(2) by (subst pop_loop.simps) (simp add: restrict_map_def)
  next
    case (Suc k)
    then have "expired (abs q) now \<noteq> {}" by auto
    then obtain n d c where "abs q n = Some (d, c)" "d \<le> now" by (auto simp: expired_def)
    then obtain m dm cm q1 where m: "pop q now = Some (m, q1)" "m \<noteq> null" "abs q m = Some (dm, cm)" "dm \<le> now"
        "\<And>n d c. abs q n = Some (d, c) \<Longrightarrow> dm \<le> d" "inv q1" "abs q1 = (abs q)(m := None)"
      using pop_some [OF Suc.prems] by blast
    have e1: "expired (abs q1) now = expired (abs q) now - {m}"
      using m(3,4,7) by (auto simp: expired_def)
    have me: "m \<in> expired (abs q) now" using m(3,4) by (auto simp: expired_def)
    then have "k = card (expired (abs q1) now)"
      using Suc.hyps(2) fin [OF Suc.prems] e1 by simp
    from Suc.hyps(1) [OF this m(6)] obtain ns q' where
      IH: "pop_loop (\<lambda>q. pop q now) q1 (m # acc) = Some (rev (m # acc) @ ns, q')" "inv q'" "distinct ns"
        "set ns = expired (abs q1) now" "sorted (map (due (abs q1)) ns)"
        "abs q' = abs q1 |` (- expired (abs q1) now)"
      by blast
    have "due (abs q1) n = due (abs q) n" if "n \<in> set ns" for n
      using that IH(4) e1 m(7) by (auto simp: due_def)
    then have mp: "map (due (abs q1)) ns = map (due (abs q)) ns" by simp
    have "due (abs q) m \<le> due (abs q) n" if n: "n \<in> set ns" for n
    proof -
      have "n \<in> expired (abs q) now" using n unfolding IH(4) e1 by simp
      then obtain d c where nd: "abs q n = Some (d, c)" by (auto simp: expired_def)
      show ?thesis using m(3) m(5) [OF nd] nd by (simp add: due_def)
    qed
    then have "sorted (map (due (abs q)) (m # ns))" using IH(5) [unfolded mp] by simp
    moreover have "abs q' = abs q |` (- expired (abs q) now)"
      unfolding IH(6) e1 unfolding m(7) by (rule ext) (use me in \<open>simp add: restrict_map_def\<close>)
    moreover have "pop_loop (\<lambda>q. pop q now) q acc = Some (rev acc @ m # ns, q')"
      using m(1,2) IH(1) by (subst pop_loop.simps) simp
    moreover have "distinct (m # ns)" "set (m # ns) = expired (abs q) now"
      using IH(3,4) e1 me by auto
    ultimately show ?case using IH(2) by blast
  qed
qed

end

interpretation tq: deadline_queue tq_inv tq_abs Insert_node Remove_node PopExpired
proof (unfold_locales, goal_cases)
  case 1 then show ?case by (rule tq_finite)
next
  case 2 then show ?case by (rule Insert_node_ok)
next
  case 3 then show ?case by (rule Remove_node_ok)
next
  case 4 then show ?case by (rule PopExpired_none)
next
  case 5 then show ?case by (rule PopExpired_some)
qed

section \<open>Validation and whole runs\<close>

lemma Validate_loop_ok:
  assumes "repr h p c t" and "heap (keys h) t" and "\<forall>x \<in> set_tree t. keys h n \<le> keys h x"
  shows "Validate_loop h n c = Some True"
  using assms
proof (induction t arbitrary: p c n)
  case (Node l a r)
  then have a: "c = a" "a \<noteq> null" and l: "Validate_loop h a (m_child (h a)) = Some True"
    and r: "Validate_loop h n (m_next (h a)) = Some True" by auto
  have "\<not> m_deadlineUs (h a) < m_deadlineUs (h n)" using Node.prems(3) by (simp add: keys_def)
  with a l r show ?case by (subst Validate_loop.simps) simp
qed (simp add: Validate_loop.simps)

lemma Validate_ok: "tq_inv q \<Longrightarrow> Validate q = Some True"
proof -
  assume "tq_inv q"
  then obtain t where t: "repr (fst q) null (snd q) t" "heap (keys (fst q)) t"
    by (auto simp: tq_inv_def tq_tree_def)
  show ?thesis
  proof (cases t)
    case (Node l a r)
    with t have "Validate_loop (fst q) a (m_child (fst q a)) = Some True"
      by (intro Validate_loop_ok [of _ a _ l]) auto
    then show ?thesis using t(1) Node by (auto simp: Validate_def)
  qed (use t in \<open>simp add: Validate_def\<close>)
qed

datatype tq_op = OpInsert addr int addr | OpRemove addr | OpPop int

text \<open>One operation and what it returns: the popped node, null for the operations that return nothing.\<close>

fun tq_step :: "tq_op \<Rightarrow> tqueue \<Rightarrow> (addr \<times> tqueue) option" where
  "tq_step (OpInsert n d c) q = map_option (Pair null) (Insert_node q n d c)"
| "tq_step (OpRemove n) q = map_option (Pair null) (Remove_node q n)"
| "tq_step (OpPop now) q = PopExpired q now"

fun tq_run :: "tq_op list \<Rightarrow> tqueue \<Rightarrow> (addr list \<times> tqueue) option" where
  "tq_run [] q = Some ([], q)"
| "tq_run (op # ops) q = do { (r, q1) \<leftarrow> tq_step op q; (rs, q2) \<leftarrow> tq_run ops q1; Some (r # rs, q2) }"

text \<open>
  The specification: a map from nodes to deadline and coordinator. Popping returns a node of least
  deadline, and any of them among equals; inserting a queued node is refused.
\<close>

inductive dq_step :: "(addr \<rightharpoonup> int \<times> addr) \<Rightarrow> tq_op \<Rightarrow> (addr \<times> (addr \<rightharpoonup> int \<times> addr)) option \<Rightarrow> bool" where
  ins: "m n = None \<Longrightarrow> dq_step m (OpInsert n d c) (Some (null, m(n \<mapsto> (d, c))))"
| ins_linked: "m n \<noteq> None \<Longrightarrow> dq_step m (OpInsert n d c) None"
| rem: "dq_step m (OpRemove n) (Some (null, m(n := None)))"
| pop_empty: "expired m now = {} \<Longrightarrow> dq_step m (OpPop now) (Some (null, m))"
| pop_least: "n \<in> expired m now \<Longrightarrow> (\<forall>n' \<in> dom m. due m n \<le> due m n') \<Longrightarrow>
    dq_step m (OpPop now) (Some (n, m(n := None)))"

inductive dq_run :: "(addr \<rightharpoonup> int \<times> addr) \<Rightarrow> tq_op list \<Rightarrow> (addr list \<times> (addr \<rightharpoonup> int \<times> addr)) option \<Rightarrow> bool" where
  Nil: "dq_run m [] (Some ([], m))"
| stop: "dq_step m op None \<Longrightarrow> dq_run m (op # ops) None"
| step: "dq_step m op (Some (r, m')) \<Longrightarrow> dq_run m' ops out \<Longrightarrow>
    dq_run m (op # ops) (map_option (\<lambda>(rs, m''). (r # rs, m'')) out)"

fun inserts_node :: "tq_op \<Rightarrow> bool" where
  "inserts_node (OpInsert n d c) \<longleftrightarrow> n \<noteq> null"
| "inserts_node _ \<longleftrightarrow> True"

lemma PopExpired_step:
  assumes "tq_inv q"
  shows "\<exists>n q'. PopExpired q now = Some (n, q') \<and> tq_inv q' \<and> dq_step (tq_abs q) (OpPop now) (Some (n, tq_abs q'))"
proof (cases "expired (tq_abs q) now = {}")
  case True
  then have "PopExpired q now = Some (null, q)"
    by (intro PopExpired_none [OF assms]) (force simp: expired_def)
  with True assms show ?thesis by (auto intro: dq_step.intros)
next
  case False
  then obtain n d c where "tq_abs q n = Some (d, c)" "d \<le> now" by (auto simp: expired_def)
  from PopExpired_some [OF assms this] obtain m dm cm q' where
    m: "PopExpired q now = Some (m, q')" "tq_abs q m = Some (dm, cm)" "dm \<le> now"
      "\<And>n d c. tq_abs q n = Some (d, c) \<Longrightarrow> dm \<le> d" "tq_inv q'" "tq_abs q' = (tq_abs q)(m := None)"
    by blast
  have "m \<in> expired (tq_abs q) now" using m(2,3) by (simp add: expired_def)
  moreover have "\<forall>n' \<in> dom (tq_abs q). due (tq_abs q) m \<le> due (tq_abs q) n'"
    using m(2,4) by (auto simp: due_def)
  ultimately have "dq_step (tq_abs q) (OpPop now) (Some (m, (tq_abs q)(m := None)))" by (rule pop_least)
  with m(1,5,6) show ?thesis by auto
qed

lemma tq_step_refines:
  assumes "tq_inv q" and "inserts_node op"
  shows "dq_step (tq_abs q) op (map_option (\<lambda>(r, q'). (r, tq_abs q')) (tq_step op q)) \<and>
    (\<forall>r q'. tq_step op q = Some (r, q') \<longrightarrow> tq_inv q')"
proof (cases op)
  case (OpInsert n d c)
  show ?thesis
  proof (cases "tq_abs q n")
    case None
    with Insert_node_ok [OF assms(1) None, of d c] assms(2) OpInsert show ?thesis
      by (auto intro: dq_step.intros)
  next
    case (Some a)
    with Insert_node_linked [of q n d c] OpInsert show ?thesis by (auto intro: dq_step.intros)
  qed
next
  case (OpRemove n)
  with Remove_node_ok [OF assms(1), of n] show ?thesis by (auto intro: dq_step.intros)
next
  case (OpPop now)
  with PopExpired_step [OF assms(1), of now] show ?thesis by auto
qed

lemma tq_run_refines_aux:
  assumes "tq_inv q" and "list_all inserts_node ops"
  shows "dq_run (tq_abs q) ops (map_option (\<lambda>(rs, q'). (rs, tq_abs q')) (tq_run ops q)) \<and>
    (\<forall>rs q'. tq_run ops q = Some (rs, q') \<longrightarrow> tq_inv q')"
  using assms
proof (induction ops arbitrary: q)
  case Nil
  then show ?case by (auto intro: dq_run.intros)
next
  case (Cons op ops)
  from Cons.prems have st: "dq_step (tq_abs q) op (map_option (\<lambda>(r, q'). (r, tq_abs q')) (tq_step op q))"
    and inv: "\<And>r q'. tq_step op q = Some (r, q') \<Longrightarrow> tq_inv q'"
    using tq_step_refines [of q op] by auto
  show ?case
  proof (cases "tq_step op q")
    case None
    with st show ?thesis by (auto intro: dq_run.stop)
  next
    case (Some a)
    obtain r q1 where a: "a = (r, q1)" by (cases a)
    from Cons.IH [of q1] inv [of r q1] Cons.prems(2) Some a
    have IH: "dq_run (tq_abs q1) ops (map_option (\<lambda>(rs, q'). (rs, tq_abs q')) (tq_run ops q1))"
      and IH2: "\<forall>rs q'. tq_run ops q1 = Some (rs, q') \<longrightarrow> tq_inv q'" by auto
    from st Some a have "dq_step (tq_abs q) op (Some (r, tq_abs q1))" by simp
    from dq_run.step [OF this IH] show ?thesis
      using Some a IH2 by (cases "tq_run ops q1") auto
  qed
qed

end
