(* ===== verification/Timer_Service.thy ===== *)
theory Timer_Service
  imports Deadline_Queue "HOL-Library.Signed_Division"
begin

text \<open>
  Sleeping on the userspace timer queue: the clock readers of \<open>coop/time/now.h\<close>, the deadline
  arithmetic of \<open>coop/time/sleep.cpp\<close>, and the timer service of the cooperator
  (\<open>RegisterTimer\<close>, \<open>CancelTimer\<close>, \<open>OnTimerExpired\<close>, \<open>ServiceExpiredTimers\<close>, \<open>ArmTimerKernel\<close>,
  \<open>ArmNearestTimer\<close> of \<open>coop/cooperator.h\<close> and \<open>coop/cooperator.cpp\<close>). Microsecond and nanosecond
  counts are \<open>int\<close>: an \<open>int64_t\<close> of microseconds overflows after 292,000 years. A reading of
  \<open>CLOCK_MONOTONIC\<close> is an argument of every operation that takes one.
\<close>

section \<open>Clock and deadlines\<close>

record timespec =
  tv_sec :: int
  tv_nsec :: int

text \<open>The real time a reading stands for, in nanoseconds, and what the kernel guarantees of it.\<close>

definition nanos :: "timespec \<Rightarrow> int" where
  "nanos ts = tv_sec ts * 1000000000 + tv_nsec ts"

definition valid_ts :: "timespec \<Rightarrow> bool" where
  "valid_ts ts \<longleftrightarrow> 0 \<le> tv_sec ts \<and> 0 \<le> tv_nsec ts \<and> tv_nsec ts < 1000000000"

definition MonotonicMicros :: "timespec \<Rightarrow> int" where
  "MonotonicMicros ts = tv_sec ts * 1000000 + tv_nsec ts sdiv 1000"

definition MonotonicMicrosCeil :: "timespec \<Rightarrow> int" where
  "MonotonicMicrosCeil ts = tv_sec ts * 1000000 + (tv_nsec ts + 999) sdiv 1000"

definition DeadlineUs :: "timespec \<Rightarrow> int \<Rightarrow> int \<Rightarrow> int" where
  "DeadlineUs ts m_interval m_slack =
     (let nowUs = MonotonicMicrosCeil ts; deadline = nowUs + m_interval in
      if m_slack \<le> 0 then deadline
      else ((deadline + m_slack - 1) sdiv m_slack) * m_slack)"

definition QuantizedInterval :: "timespec \<Rightarrow> int \<Rightarrow> int \<Rightarrow> int" where
  "QuantizedInterval ts m_interval m_slack =
     (if m_slack \<le> 0 then m_interval
      else let nowUs = MonotonicMicros ts;
               deadlineUs = nowUs + m_interval;
               roundedUs = ((deadlineUs + m_slack - 1) sdiv m_slack) * m_slack
           in roundedUs - nowUs)"

text \<open>\<open>io::Timeout\<close>: the relative timespec handed to the kernel for an interval in microseconds.\<close>

definition Timeout_ts :: "int \<Rightarrow> timespec" where
  "Timeout_ts interval =
     (let secs = interval sdiv 1000000
      in \<lparr>tv_sec = secs, tv_nsec = (interval - secs * 1000000) * 1000\<rparr>)"

lemma sdiv_nonneg: "0 \<le> a \<Longrightarrow> 0 < b \<Longrightarrow> a sdiv b = a div b" for a b :: int
  by (auto simp: signed_divide_int_def sgn_if)

lemma smod_nonneg: "0 \<le> a \<Longrightarrow> 0 < b \<Longrightarrow> a smod b = a mod b" for a b :: int
  by (auto simp: signed_modulo_int_def sgn_if)

lemma round_up_bounds:
  fixes d s :: int
  assumes "0 < s"
  shows "d \<le> (d + s - 1) div s * s" and "(d + s - 1) div s * s < d + s"
proof -
  have "(d + s - 1) div s * s = d + s - 1 - (d + s - 1) mod s" by (simp add: minus_mod_eq_div_mult [symmetric])
  moreover have "0 \<le> (d + s - 1) mod s" "(d + s - 1) mod s < s" using assms by simp_all
  ultimately show "d \<le> (d + s - 1) div s * s" "(d + s - 1) div s * s < d + s" by linarith+
qed

lemma MonotonicMicros_floor: "valid_ts ts \<Longrightarrow> MonotonicMicros ts = nanos ts div 1000"
  by (simp add: valid_ts_def MonotonicMicros_def nanos_def sdiv_nonneg)

lemma MonotonicMicrosCeil_ceil: "valid_ts ts \<Longrightarrow> MonotonicMicrosCeil ts = (nanos ts + 999) div 1000"
  by (simp add: valid_ts_def MonotonicMicrosCeil_def nanos_def sdiv_nonneg)

lemma valid_nanos: "valid_ts ts \<Longrightarrow> 0 \<le> nanos ts"
  by (simp add: valid_ts_def nanos_def)

text \<open>The deadline is at or after the requested instant, and less than one slack (at least 1us) past it.\<close>

lemma DeadlineUs_bounds:
  assumes "valid_ts ts" and "0 \<le> i"
  shows "nanos ts + 1000 * i \<le> 1000 * DeadlineUs ts i s"
    and "1000 * DeadlineUs ts i s < nanos ts + 1000 * i + 1000 * max 1 s"
proof -
  let ?c = "MonotonicMicrosCeil ts"
  have c: "nanos ts \<le> 1000 * ?c" "1000 * ?c \<le> nanos ts + 999" "0 \<le> ?c"
    using valid_nanos [OF assms(1)] by (simp_all add: MonotonicMicrosCeil_ceil [OF assms(1)])
  have "nanos ts + 1000 * i \<le> 1000 * DeadlineUs ts i s \<and>
    1000 * DeadlineUs ts i s < nanos ts + 1000 * i + 1000 * max 1 s"
  proof (cases "0 < s")
    case True
    then have "DeadlineUs ts i s = (?c + i + s - 1) div s * s"
      using c(3) assms(2) by (simp add: DeadlineUs_def sdiv_nonneg)
    with round_up_bounds [OF True, of "?c + i"] c True show ?thesis by (simp add: max_def)
  next
    case False
    with c show ?thesis by (simp add: DeadlineUs_def)
  qed
  then show "nanos ts + 1000 * i \<le> 1000 * DeadlineUs ts i s"
    "1000 * DeadlineUs ts i s < nanos ts + 1000 * i + 1000 * max 1 s" by auto
qed

lemma QuantizedInterval_bounds:
  assumes "valid_ts ts" and "0 \<le> i"
  shows "i \<le> QuantizedInterval ts i s" and "QuantizedInterval ts i s < i + max 1 s"
proof -
  let ?c = "MonotonicMicros ts"
  have c: "0 \<le> ?c" using valid_nanos [OF assms(1)] by (simp add: MonotonicMicros_floor [OF assms(1)])
  have "i \<le> QuantizedInterval ts i s \<and> QuantizedInterval ts i s < i + max 1 s"
  proof (cases "0 < s")
    case True
    then have "QuantizedInterval ts i s = (?c + i + s - 1) div s * s - ?c"
      using c assms(2) by (simp add: QuantizedInterval_def Let_def sdiv_nonneg)
    with round_up_bounds [OF True, of "?c + i"] True show ?thesis by simp
  qed (simp add: QuantizedInterval_def)
  then show "i \<le> QuantizedInterval ts i s" "QuantizedInterval ts i s < i + max 1 s" by auto
qed

lemma le_div_1000: "d \<le> x div 1000 \<longleftrightarrow> 1000 * d \<le> x" for d x :: int
proof -
  have "x div 1000 * 1000 + x mod 1000 = x" and "0 \<le> x mod 1000" and "x mod 1000 < 1000" by simp_all
  then show ?thesis by linarith
qed

lemma split_micros: "i div 1000000 * 1000000000 + i mod 1000000 * 1000 = 1000 * i" for i :: int
  using div_mult_mod_eq [of i 1000000] by linarith

lemma Timeout_ts_ok:
  assumes "0 \<le> i"
  shows "valid_ts (Timeout_ts i)" and "nanos (Timeout_ts i) = 1000 * i"
proof -
  have "Timeout_ts i = \<lparr>tv_sec = i div 1000000, tv_nsec = (i mod 1000000) * 1000\<rparr>"
    using assms by (simp add: Timeout_ts_def Let_def sdiv_nonneg minus_div_mult_eq_mod [symmetric])
  with assms show "valid_ts (Timeout_ts i)" and "nanos (Timeout_ts i) = 1000 * i"
    by (simp_all add: valid_ts_def nanos_def pos_imp_zdiv_nonneg_iff split_micros)
qed

section \<open>The timer service of a cooperator\<close>

text \<open>
  The submission queue entries the service prepares. \<open>m_sqes\<close> lists them newest first, each with
  the microsecond clock reading its relative timeout was computed from.
\<close>

datatype timer_sqe = PrepTimeout timespec | PrepTimeoutUpdate timespec

record timer_service =
  m_timers :: tqueue
  m_timerArmed :: bool
  m_timerDeadlineUs :: int
  m_timerTs :: timespec
  m_sqes :: "(int \<times> timer_sqe) list"

definition RegisterTimer :: "timer_service \<Rightarrow> addr \<Rightarrow> int \<Rightarrow> addr \<Rightarrow> timer_service option" where
  "RegisterTimer st node deadlineUs coord =
     map_option (\<lambda>q. st\<lparr>m_timers := q\<rparr>) (Insert_node (m_timers st) node deadlineUs coord)"

definition CancelTimer :: "timer_service \<Rightarrow> addr \<Rightarrow> timer_service option" where
  "CancelTimer st node = map_option (\<lambda>q. st\<lparr>m_timers := q\<rparr>) (Remove_node (m_timers st) node)"

definition OnTimerExpired :: "timer_service \<Rightarrow> timer_service" where
  "OnTimerExpired st = st\<lparr>m_timerArmed := False\<rparr>"

text \<open>
  The service: the nodes popped, in the order in which their coordinators are released, and the
  state after the loop.
\<close>

definition ServiceExpiredTimers :: "timer_service \<Rightarrow> timespec \<Rightarrow> (addr list \<times> timer_service) option" where
  "ServiceExpiredTimers st ts =
     (if Empty (m_timers st) then Some ([], st)
      else let now = MonotonicMicros ts in
        map_option (\<lambda>(ns, q). (ns, st\<lparr>m_timers := q\<rparr>)) (pop_loop (\<lambda>q. PopExpired q now) (m_timers st) []))"

definition ArmTimerKernel :: "timer_service \<Rightarrow> timespec \<Rightarrow> bool \<Rightarrow> int \<Rightarrow> bool \<Rightarrow> timer_service option" where
  "ArmTimerKernel st ts sqe deadlineUs update =
     (let relUs0 = deadlineUs - MonotonicMicros ts;
          relUs = (if relUs0 < 0 then 0 else relUs0);
          tts = \<lparr>tv_sec = relUs sdiv 1000000, tv_nsec = (relUs smod 1000000) * 1000\<rparr>
      in do {
        assert_that sqe;
        Some (st\<lparr>m_timerTs := tts,
           m_sqes := (MonotonicMicros ts, if update then PrepTimeoutUpdate tts else PrepTimeout tts) # m_sqes st\<rparr>) })"

definition ArmNearestTimer :: "timer_service \<Rightarrow> timespec \<Rightarrow> bool \<Rightarrow> timer_service option" where
  "ArmNearestTimer st ts sqe =
     (if Empty (m_timers st) then Some st
      else do {
        nearest \<leftarrow> MinDeadlineUs (m_timers st);
        if \<not> m_timerArmed st then do {
          st1 \<leftarrow> ArmTimerKernel st ts sqe nearest False;
          Some (st1\<lparr>m_timerArmed := True, m_timerDeadlineUs := nearest\<rparr>) }
        else if nearest < m_timerDeadlineUs st then do {
          st1 \<leftarrow> ArmTimerKernel st ts sqe nearest True;
          Some (st1\<lparr>m_timerDeadlineUs := nearest\<rparr>) }
        else Some st })"

lemma tq_abs_Empty: "tq_inv q \<Longrightarrow> Empty q \<Longrightarrow> tq_abs q = Map.empty"
  using tq_root_min(1) [of q] not_None_eq by (intro ext) (fastforce simp: Empty_def)

lemma ServiceExpiredTimers_ok:
  assumes "tq_inv (m_timers st)"
  shows "\<exists>ns q'. ServiceExpiredTimers st ts = Some (ns, st\<lparr>m_timers := q'\<rparr>) \<and> tq_inv q' \<and> distinct ns \<and>
     set ns = expired (tq_abs (m_timers st)) (MonotonicMicros ts) \<and>
     sorted (map (due (tq_abs (m_timers st))) ns) \<and>
     tq_abs q' = tq_abs (m_timers st) |` (- expired (tq_abs (m_timers st)) (MonotonicMicros ts))"
proof (cases "Empty (m_timers st)")
  case True
  with assms show ?thesis
    by (intro exI [of _ "[]"] exI [of _ "m_timers st"])
      (auto simp: ServiceExpiredTimers_def tq_abs_Empty expired_def restrict_map_def)
next
  case False
  from tq.drain_expired [OF assms, of "MonotonicMicros ts" "[]"] obtain ns q' where
    "pop_loop (\<lambda>q. PopExpired q (MonotonicMicros ts)) (m_timers st) [] = Some (ns, q')"
    and q': "tq_inv q'" "distinct ns" "set ns = expired (tq_abs (m_timers st)) (MonotonicMicros ts)"
      "sorted (map (due (tq_abs (m_timers st))) ns)"
      "tq_abs q' = tq_abs (m_timers st) |` (- expired (tq_abs (m_timers st)) (MonotonicMicros ts))"
    by auto
  with False have "ServiceExpiredTimers st ts = Some (ns, st\<lparr>m_timers := q'\<rparr>)"
    by (simp add: ServiceExpiredTimers_def)
  with q' show ?thesis by blast
qed

lemma MinDeadlineUs_ok:
  assumes "tq_inv q" and "\<not> Empty q"
  shows "\<exists>n d c. MinDeadlineUs q = Some d \<and> tq_abs q n = Some (d, c) \<and>
    (\<forall>n' d' c'. tq_abs q n' = Some (d', c') \<longrightarrow> d \<le> d')"
  using tq_root_linked [OF assms(1)] tq_root_min(3) [OF assms(1)] assms(2)
  by (fastforce simp: MinDeadlineUs_def Empty_def)

section \<open>The one kernel timer\<close>

fun sqe_ts :: "timer_sqe \<Rightarrow> timespec" where
  "sqe_ts (PrepTimeout ts) = ts"
| "sqe_ts (PrepTimeoutUpdate ts) = ts"

fun is_fresh :: "timer_sqe \<Rightarrow> bool" where
  "is_fresh (PrepTimeout ts) \<longleftrightarrow> True"
| "is_fresh (PrepTimeoutUpdate ts) \<longleftrightarrow> False"

lemma ArmTimerKernel_ok:
  assumes "ArmTimerKernel st ts sqe d u = Some st'"
  shows "m_sqes st' = (MonotonicMicros ts, if u then PrepTimeoutUpdate (m_timerTs st') else PrepTimeout (m_timerTs st')) # m_sqes st"
    and "valid_ts (m_timerTs st')"
    and "1000 * MonotonicMicros ts + nanos (m_timerTs st') = 1000 * max (MonotonicMicros ts) d"
    and "m_timers st' = m_timers st" and "m_timerArmed st' = m_timerArmed st"
proof -
  define r where "r = max 0 (d - MonotonicMicros ts)"
  have r0: "0 \<le> r" by (simp add: r_def)
  have st': "st' = st\<lparr>m_timerTs := \<lparr>tv_sec = r div 1000000, tv_nsec = (r mod 1000000) * 1000\<rparr>,
     m_sqes := (MonotonicMicros ts, if u then PrepTimeoutUpdate \<lparr>tv_sec = r div 1000000, tv_nsec = (r mod 1000000) * 1000\<rparr>
        else PrepTimeout \<lparr>tv_sec = r div 1000000, tv_nsec = (r mod 1000000) * 1000\<rparr>) # m_sqes st\<rparr>"
    using assms r0 unfolding r_def
    by (cases sqe) (auto simp: ArmTimerKernel_def Let_def sdiv_nonneg smod_nonneg max_def split: if_splits)
  have ms: "1000 * MonotonicMicros ts + 1000 * r = 1000 * max (MonotonicMicros ts) d"
    by (simp add: r_def max_def)
  have "nanos (m_timerTs st') = 1000 * r" by (simp add: st' nanos_def split_micros)
  with ms show "1000 * MonotonicMicros ts + nanos (m_timerTs st') = 1000 * max (MonotonicMicros ts) d" by simp
  show "valid_ts (m_timerTs st')" using r0 by (simp add: st' valid_ts_def pos_imp_zdiv_nonneg_iff)
qed (use assms in \<open>auto simp: ArmTimerKernel_def Let_def assert_that_def split: if_splits\<close>)

text \<open>
  The states a cooperator's timers go through: \<open>now\<close> is the last clock reading, \<open>k\<close> counts the expiry
  completions delivered. A completion arrives only for a timer in flight; clock readings never
  decrease; the submission queue has room when a timer is armed.
\<close>

inductive timer_reach :: "timer_service \<Rightarrow> int \<Rightarrow> nat \<Rightarrow> bool" where
  init: "tq_inv (m_timers st) \<Longrightarrow> \<not> m_timerArmed st \<Longrightarrow> m_sqes st = [] \<Longrightarrow> timer_reach st now 0"
| register: "timer_reach st now k \<Longrightarrow> n \<noteq> null \<Longrightarrow> RegisterTimer st n d c = Some st' \<Longrightarrow> timer_reach st' now k"
| cancel: "timer_reach st now k \<Longrightarrow> CancelTimer st n = Some st' \<Longrightarrow> timer_reach st' now k"
| cqe: "timer_reach st now k \<Longrightarrow> m_timerArmed st \<Longrightarrow> timer_reach (OnTimerExpired st) now (Suc k)"
| service: "timer_reach st now k \<Longrightarrow> now \<le> MonotonicMicros ts \<Longrightarrow>
    ServiceExpiredTimers st ts = Some (ns, st') \<Longrightarrow> timer_reach st' (MonotonicMicros ts) k"
| arm: "timer_reach st now k \<Longrightarrow> now \<le> MonotonicMicros ts \<Longrightarrow>
    ArmNearestTimer st ts True = Some st' \<Longrightarrow> timer_reach st' (MonotonicMicros ts) k"

definition timer_inv :: "timer_service \<Rightarrow> int \<Rightarrow> nat \<Rightarrow> bool" where
  "timer_inv st now k \<longleftrightarrow> tq_inv (m_timers st) \<and>
     length (filter (\<lambda>(c, e). is_fresh e) (m_sqes st)) = k + (if m_timerArmed st then 1 else 0) \<and>
     (m_timerArmed st \<longrightarrow> (\<exists>c e es. m_sqes st = (c, e) # es \<and> c \<le> now \<and> valid_ts (sqe_ts e) \<and>
        1000 * c + nanos (sqe_ts e) = 1000 * max c (m_timerDeadlineUs st)))"

lemma timer_inv_later: "timer_inv st now k \<Longrightarrow> now \<le> now' \<Longrightarrow> timer_inv st now' k"
  by (fastforce simp: timer_inv_def)

lemma timer_inv_timers: "timer_inv st now k \<Longrightarrow> tq_inv q \<Longrightarrow> timer_inv (st\<lparr>m_timers := q\<rparr>) now k"
  by (simp add: timer_inv_def)

text \<open>Arming: nothing queued, a fresh timeout, an update to an earlier deadline, or already early enough.\<close>

lemma ArmNearestTimer_cases:
  assumes "tq_inv (m_timers st)"
  obtains (none) "Empty (m_timers st)" "ArmNearestTimer st ts True = Some st"
  | (kernel) d st1 where "\<not> Empty (m_timers st)" "MinDeadlineUs (m_timers st) = Some d"
      "ArmTimerKernel st ts True d (m_timerArmed st) = Some st1"
      "ArmNearestTimer st ts True = Some (st1\<lparr>m_timerArmed := True, m_timerDeadlineUs := d\<rparr>)"
  | (early) d where "\<not> Empty (m_timers st)" "MinDeadlineUs (m_timers st) = Some d" "m_timerArmed st"
      "m_timerDeadlineUs st \<le> d" "ArmNearestTimer st ts True = Some st"
proof (cases "Empty (m_timers st)")
  case True
  then show ?thesis by (intro none) (simp_all add: ArmNearestTimer_def)
next
  case False
  then obtain d where d: "MinDeadlineUs (m_timers st) = Some d" using MinDeadlineUs_ok [OF assms] by blast
  obtain st1 where st1: "ArmTimerKernel st ts True d (m_timerArmed st) = Some st1"
    by (simp add: ArmTimerKernel_def Let_def)
  show ?thesis
  proof (cases "m_timerArmed st \<and> m_timerDeadlineUs st \<le> d")
    case True
    with False d have "ArmNearestTimer st ts True = Some st" by (auto simp: ArmNearestTimer_def)
    with True False d show ?thesis by (intro early) auto
  next
    case no: False
    have "st1\<lparr>m_timerDeadlineUs := d\<rparr> = st1\<lparr>m_timerArmed := True, m_timerDeadlineUs := d\<rparr>" if "m_timerArmed st"
      using that ArmTimerKernel_ok(5) [OF st1] by simp
    with no False d st1 have "ArmNearestTimer st ts True = Some (st1\<lparr>m_timerArmed := True, m_timerDeadlineUs := d\<rparr>)"
      by (cases "m_timerArmed st") (auto simp: ArmNearestTimer_def)
    with False d st1 show ?thesis by (intro kernel)
  qed
qed

lemma timer_inv_arm:
  assumes "timer_inv st now k" and "now \<le> MonotonicMicros ts"
  shows "\<exists>st'. ArmNearestTimer st ts True = Some st' \<and> timer_inv st' (MonotonicMicros ts) k \<and>
     m_timers st' = m_timers st \<and>
     (\<forall>n d c. tq_abs (m_timers st) n = Some (d, c) \<longrightarrow> m_timerArmed st' \<and> m_timerDeadlineUs st' \<le> d)"
proof -
  have q: "tq_inv (m_timers st)" using assms(1) by (simp add: timer_inv_def)
  note later = timer_inv_later [OF assms]
  show ?thesis
  proof (cases rule: ArmNearestTimer_cases [OF q, of ts])
    case 1
    with later tq_abs_Empty [OF q] 1 show ?thesis by auto
  next
    case kernel: (2 d st1)
    note K = ArmTimerKernel_ok [OF kernel(3)]
    have "timer_inv (st1\<lparr>m_timerArmed := True, m_timerDeadlineUs := d\<rparr>) (MonotonicMicros ts) k"
      using assms(1) K(2,3) by (simp add: timer_inv_def K(1,4))
    with kernel K(4) MinDeadlineUs_ok [OF q kernel(1)] show ?thesis by auto
  next
    case early: (3 d)
    with later MinDeadlineUs_ok [OF q early(1)] show ?thesis by fastforce
  qed
qed

lemma timer_reach_inv: "timer_reach st now k \<Longrightarrow> timer_inv st now k"
proof (induction rule: timer_reach.induct)
  case (register st now k n d c st')
  then obtain q where "Insert_node (m_timers st) n d c = Some q" "st' = st\<lparr>m_timers := q\<rparr>"
    by (auto simp: RegisterTimer_def)
  moreover from this have "tq_inv q"
    using Insert_node_ok [of "m_timers st" n d c] Insert_node_linked [of "m_timers st" n d c] register
    by (cases "tq_abs (m_timers st) n") (auto simp: timer_inv_def)
  ultimately show ?case using register timer_inv_timers by simp
next
  case (cancel st now k n st')
  then obtain q where "Remove_node (m_timers st) n = Some q" "st' = st\<lparr>m_timers := q\<rparr>"
    by (auto simp: CancelTimer_def)
  moreover from this have "tq_inv q" using Remove_node_ok [of "m_timers st" n] cancel by (auto simp: timer_inv_def)
  ultimately show ?case using cancel timer_inv_timers by simp
next
  case (service st now k ts ns st')
  then obtain q where "st' = st\<lparr>m_timers := q\<rparr>" "tq_inv q"
    using ServiceExpiredTimers_ok [of st ts] by (auto simp: timer_inv_def)
  with service timer_inv_later timer_inv_timers show ?case by simp
next
  case (arm st now k ts st')
  with timer_inv_arm [OF arm(4,2)] show ?case by auto
qed (auto simp: timer_inv_def OnTimerExpired_def)

section \<open>Properties\<close>

definition no_timers :: timer_service where
  "no_timers = \<lparr>m_timers = (\<lambda>_. \<lparr>m_deadlineUs = 0, m_coord = null, m_child = null, m_next = null, m_prev = null,
       m_linked = False\<rparr>, null), m_timerArmed = False, m_timerDeadlineUs = 0,
     m_timerTs = \<lparr>tv_sec = 0, tv_nsec = 0\<rparr>, m_sqes = []\<rparr>"

text \<open>Two sleeps, due at 30us and 50us; the second is the child of the first.\<close>

definition two_timers :: timer_service where
  "two_timers = no_timers\<lparr>m_timers :=
     ((fst (m_timers no_timers))
        (1 := \<lparr>m_deadlineUs = 30, m_coord = 7, m_child = 2, m_next = null, m_prev = null, m_linked = True\<rparr>,
         2 := \<lparr>m_deadlineUs = 50, m_coord = 8, m_child = null, m_next = null, m_prev = 1, m_linked = True\<rparr>), 1)\<rparr>"

lemma tq_inv_two_timers: "tq_inv (m_timers two_timers)"
  by (auto simp: tq_inv_def tq_tree_def two_timers_def no_timers_def keys_def
      intro!: exI [of _ "Node (Node Leaf 2 Leaf) 1 Leaf"])

lemma tq_abs_two_timers: "tq_abs (m_timers two_timers) = [1 \<mapsto> (30, 7), 2 \<mapsto> (50, 8)]"
  by (auto simp: tq_abs_def two_timers_def no_timers_def fun_eq_iff)

lemma timer_reach_two_timers: "timer_reach two_timers 0 0"
  by (rule timer_reach.init) (use tq_inv_two_timers in \<open>simp_all add: two_timers_def no_timers_def\<close>)

text \<open>
  C2. Every sequence of insertions, removals and expiry pops on the pointer-level pairing heap is a
  run of the deadline-map specification: a pop returns a node of least deadline that is due (null
  when none is), an insertion of a queued node is refused, and the heap keeps its invariant.
\<close>

theorem tq_run_refines:
  assumes "tq_inv q" and "list_all inserts_node ops"
  shows "dq_run (tq_abs q) ops (map_option (\<lambda>(rs, q'). (rs, tq_abs q')) (tq_run ops q)) \<and>
    (\<forall>rs q'. tq_run ops q = Some (rs, q') \<longrightarrow> tq_inv q' \<and> Validate q' = Some True)"
  using tq_run_refines_aux [OF assms] Validate_ok by blast

theorem tq_run_refines_witness:
  "dq_run [1 \<mapsto> (30, 7), 2 \<mapsto> (50, 8)] [OpInsert 3 40 9, OpRemove 1, OpPop 45]
     (map_option (\<lambda>(rs, q'). (rs, tq_abs q'))
       (tq_run [OpInsert 3 40 9, OpRemove 1, OpPop 45] (m_timers two_timers)))"
  using tq_run_refines [OF tq_inv_two_timers, of "[OpInsert 3 40 9, OpRemove 1, OpPop 45]"]
  by (simp only: tq_abs_two_timers) simp

text \<open>
  C3. One pass of the timer service terminates and releases exactly the nodes whose deadline has
  passed, each once and in order of deadline; every other sleep stays queued untouched.
\<close>

theorem ServiceExpiredTimers_correct:
  assumes "tq_inv (m_timers st)"
  shows "\<exists>ns q'. ServiceExpiredTimers st ts = Some (ns, st\<lparr>m_timers := q'\<rparr>) \<and> tq_inv q' \<and> distinct ns \<and>
     set ns = expired (tq_abs (m_timers st)) (MonotonicMicros ts) \<and>
     sorted (map (due (tq_abs (m_timers st))) ns) \<and>
     tq_abs q' = tq_abs (m_timers st) |` (- expired (tq_abs (m_timers st)) (MonotonicMicros ts))"
  using assms by (rule ServiceExpiredTimers_ok)

theorem ServiceExpiredTimers_correct_witness:
  "\<exists>ns q'. ServiceExpiredTimers two_timers \<lparr>tv_sec = 0, tv_nsec = 60999\<rparr> = Some (ns, two_timers\<lparr>m_timers := q'\<rparr>) \<and>
     distinct ns \<and> set ns = {1, 2} \<and> sorted (map (due [1 \<mapsto> (30, 7), 2 \<mapsto> (50, 8)]) ns)"
proof -
  have "MonotonicMicros \<lparr>tv_sec = 0, tv_nsec = 60999\<rparr> = 60"
    by (simp add: MonotonicMicros_def sdiv_nonneg)
  moreover have "expired [1 \<mapsto> (30, 7), 2 \<mapsto> (50, 8)] 60 = {1, 2}"
    by (auto simp: expired_def split: if_splits)
  ultimately show ?thesis
    using ServiceExpiredTimers_correct [OF tq_inv_two_timers, of "\<lparr>tv_sec = 0, tv_nsec = 60999\<rparr>"]
    by (auto simp: tq_abs_two_timers)
qed



text \<open>
  C5. In every reachable state, arming succeeds and leaves the one kernel timer covering the queue:
  if any sleep is queued the timer is armed, \<open>m_timerDeadlineUs\<close> is no later than any queued
  deadline, and the newest timeout entry, counted from the clock reading it was computed at, expires
  exactly at that deadline (at once when it has passed). Fresh timeouts outnumber delivered expiries by
  one while armed and by none otherwise: there is never a second kernel timer.
\<close>

theorem ArmNearestTimer_covers:
  assumes "timer_reach st now k" and "now \<le> MonotonicMicros ts"
  shows "\<exists>st'. ArmNearestTimer st ts True = Some st' \<and> m_timers st' = m_timers st \<and>
    (\<forall>n d c. tq_abs (m_timers st') n = Some (d, c) \<longrightarrow> m_timerArmed st' \<and> m_timerDeadlineUs st' \<le> d) \<and>
    (m_timerArmed st' \<longrightarrow> (\<exists>clk e es. m_sqes st' = (clk, e) # es \<and> clk \<le> MonotonicMicros ts \<and> valid_ts (sqe_ts e) \<and>
       1000 * clk + nanos (sqe_ts e) = 1000 * max clk (m_timerDeadlineUs st'))) \<and>
    length (filter (\<lambda>(c, e). is_fresh e) (m_sqes st')) = k + (if m_timerArmed st' then 1 else 0)"
  using timer_inv_arm [OF timer_reach_inv [OF assms(1)] assms(2)] unfolding timer_inv_def by metis

theorem ArmNearestTimer_covers_witness:
  "\<exists>st'. ArmNearestTimer two_timers \<lparr>tv_sec = 0, tv_nsec = 5000\<rparr> True = Some st' \<and> m_timerArmed st' \<and> m_timerDeadlineUs st' \<le> 30"
proof -
  have "(0::int) \<le> MonotonicMicros \<lparr>tv_sec = 0, tv_nsec = 5000\<rparr>"
    by (simp add: MonotonicMicros_def sdiv_nonneg)
  from ArmNearestTimer_covers [OF timer_reach_two_timers this] obtain st' where
    "ArmNearestTimer two_timers \<lparr>tv_sec = 0, tv_nsec = 5000\<rparr> True = Some st'"
    "\<forall>n d c. tq_abs (m_timers two_timers) n = Some (d, c) \<longrightarrow> m_timerArmed st' \<and> m_timerDeadlineUs st' \<le> d"
    by metis
  moreover have "tq_abs (m_timers two_timers) 1 = Some (30, 7)" by (simp add: tq_abs_two_timers)
  ultimately show ?thesis by blast
qed



end
