(* ===== verification/Scheduler.thy ===== *)
theory Scheduler
  imports Coop_Prelude
begin

unbundle bit_operations_syntax

text \<open>
  The cooperator's scheduling core: the state lists and the switch operations of
  \<open>coop/cooperator.cpp\<close> (\<open>Resume\<close>, \<open>YieldFrom\<close>, \<open>Block\<close>, \<open>Unblock\<close>, \<open>WakeWaiter\<close>, \<open>EnterContext\<close>,
  \<open>HandleCooperatorResumption\<close>, \<open>SanityCheck\<close>), \<open>Context::Yield\<close> and \<open>Context::Block\<close>
  (\<open>coop/context.cpp\<close>), and the coordination primitives built on them: \<open>Coordinator\<close>
  (\<open>coop/coordinator.cpp\<close>), \<open>Signal\<close> (\<open>coop/signal.cpp\<close>) and \<open>MultiCoordinator\<close>
  (\<open>coop/detail/multi_coordinator.h\<close>).

  Intrusive lists appear as sequences; every \<open>Push\<close> and \<open>Remove\<close> keeps its debug assertion. An
  operation ends where the code switches stacks: \<open>m_scheduled\<close> says who runs afterwards (null: the
  cooperator loop), and the code behind the switch is a separate operation. A failed assertion is
  \<open>None\<close>. The cycle counters of \<open>trackContextCycles\<close> and the perf counters are left out.
\<close>

section \<open>State\<close>

datatype SchedulerState = YIELDED | RUNNING | BLOCKED

datatype SchedulerJumpResult = DEFAULT | EXITED | JUMP_YIELDED | JUMP_BLOCKED | RESUMED

text \<open>
  \<open>m_lastChild\<close> and \<open>m_killedSignal\<close> name the coordinators embedded in the context; a signal is its
  coordinator together with its flag \<open>m_signaled\<close>.
\<close>

record Context =
  m_state :: SchedulerState
  m_priority :: int
  m_currentPriority :: int
  m_parent :: addr
  m_children :: "addr list"
  m_lastChild :: addr
  m_killedSignal :: addr
  m_yields :: nat
  m_blocks :: nat

datatype waiter = WaitContext addr | WaitContinuation addr

text \<open>A \<open>Coordinated\<close>: its waiter, whether it is satisfied, and whether its hookups are on a list.\<close>

record coordinated =
  m_waiter :: waiter
  m_satisfied :: bool
  m_connected :: bool

record coordinator =
  m_held :: bool
  m_blocking :: "addr list"

record config =
  directYield :: bool
  directYieldBudget :: int
  ioPresentLimit :: int

text \<open>
  The cooperator with the objects its contexts share. \<open>m_locals t\<close> is the stack-local list of a
  \<open>Signal::Notify\<close> in progress on context \<open>t\<close>; \<open>m_freed\<close> lists the contexts whose stacks went back to
  the pool.
\<close>

record sched =
  ctxs :: "addr \<Rightarrow> Context"
  coords :: "addr \<Rightarrow> coordinator"
  cds :: "addr \<Rightarrow> coordinated"
  m_signaled :: "addr \<Rightarrow> bool"
  m_contexts :: "addr list"
  m_yielded :: "addr list"
  m_blocked :: "addr list"
  m_scheduled :: addr
  m_pendingContinuations :: "addr list"
  m_directYieldsRemaining :: int
  m_inThunk :: bool
  m_locals :: "addr \<Rightarrow> addr list"
  m_freed :: "addr list"
  m_config :: config

definition state_of :: "sched \<Rightarrow> addr \<Rightarrow> SchedulerState" where
  "state_of s c = m_state (ctxs s c)"

definition set_state :: "addr \<Rightarrow> SchedulerState \<Rightarrow> sched \<Rightarrow> sched" where
  "set_state c v s = s\<lparr>ctxs := (ctxs s)(c := (ctxs s c)\<lparr>m_state := v\<rparr>)\<rparr>"

text \<open>The state lists share one set of hookups: a push asserts that the context is on neither.\<close>

definition push_yielded :: "addr \<Rightarrow> sched \<Rightarrow> sched option" where
  "push_yielded c s = do {
     assert_that (c \<notin> set (m_yielded s) \<and> c \<notin> set (m_blocked s));
     Some (s\<lparr>m_yielded := m_yielded s @ [c]\<rparr>) }"

definition push_blocked :: "addr \<Rightarrow> sched \<Rightarrow> sched option" where
  "push_blocked c s = do {
     assert_that (c \<notin> set (m_yielded s) \<and> c \<notin> set (m_blocked s));
     Some (s\<lparr>m_blocked := m_blocked s @ [c]\<rparr>) }"

definition remove_blocked :: "addr \<Rightarrow> sched \<Rightarrow> sched option" where
  "remove_blocked c s = do { assert_that (c \<in> set (m_blocked s)); Some (s\<lparr>m_blocked := remove1 c (m_blocked s)\<rparr>) }"

definition remove_yielded :: "addr \<Rightarrow> sched \<Rightarrow> sched option" where
  "remove_yielded c s = do { assert_that (c \<in> set (m_yielded s)); Some (s\<lparr>m_yielded := remove1 c (m_yielded s)\<rparr>) }"

section \<open>Switching\<close>

text \<open>Back in the loop: the context that ran is filed under why it came back.\<close>

fun HandleCooperatorResumption :: "SchedulerJumpResult \<Rightarrow> sched \<Rightarrow> sched option" where
  "HandleCooperatorResumption DEFAULT s = None"
| "HandleCooperatorResumption RESUMED s = None"
| "HandleCooperatorResumption EXITED s = do {
     assert_that (m_scheduled s \<noteq> null);
     Some (s\<lparr>m_freed := m_scheduled s # m_freed s, m_scheduled := null\<rparr>) }"
| "HandleCooperatorResumption JUMP_YIELDED s = do {
     assert_that (m_scheduled s \<noteq> null);
     s1 \<leftarrow> push_yielded (m_scheduled s) (set_state (m_scheduled s) YIELDED s);
     Some (s1\<lparr>m_scheduled := null\<rparr>) }"
| "HandleCooperatorResumption JUMP_BLOCKED s = do {
     assert_that (m_scheduled s \<noteq> null);
     s1 \<leftarrow> push_blocked (m_scheduled s) (set_state (m_scheduled s) BLOCKED s);
     Some (s1\<lparr>m_scheduled := null\<rparr>) }"

definition Resume :: "addr \<Rightarrow> sched \<Rightarrow> sched option" where
  "Resume c s = do {
     assert_that (m_scheduled s = null);
     assert_that (state_of s c = YIELDED);
     Some ((set_state c RUNNING s)\<lparr>m_scheduled := c, m_directYieldsRemaining := directYieldBudget (m_config s)\<rparr>) }"

text \<open>The loop's \<open>m_yielded.Pop()\<close> and \<open>Resume\<close>.\<close>

definition loop_resume :: "sched \<Rightarrow> sched option" where
  "loop_resume s = (case m_yielded s of [] \<Rightarrow> Some s | c # cs \<Rightarrow> Resume c (s\<lparr>m_yielded := cs\<rparr>))"

text \<open>Switch straight into the next runnable context, as the two direct-switch fastpaths end.\<close>

definition switch_next :: "addr \<Rightarrow> sched \<Rightarrow> sched" where
  "switch_next c s = (set_state c RUNNING s)\<lparr>m_scheduled := c\<rparr>"

definition direct_ok :: "sched \<Rightarrow> bool" where
  "direct_ok s \<longleftrightarrow> directYield (m_config s) \<and> m_directYieldsRemaining s > 0 \<and> m_yielded s \<noteq> []"

definition Block :: "addr \<Rightarrow> sched \<Rightarrow> sched option" where
  "Block c s =
     (if m_scheduled s \<noteq> c then do {
        assert_that (state_of s c = YIELDED);
        s1 \<leftarrow> remove_yielded c (set_state c BLOCKED s);
        push_blocked c s1 }
      else if direct_ok s then do {
        s1 \<leftarrow> push_blocked c (set_state c BLOCKED (s\<lparr>m_directYieldsRemaining := m_directYieldsRemaining s - 1\<rparr>));
        (case m_yielded s1 of [] \<Rightarrow> None
         | next # rest \<Rightarrow> Some (switch_next next (s1\<lparr>m_yielded := rest\<rparr>))) }
      else HandleCooperatorResumption JUMP_BLOCKED s)"

text \<open>\<open>Context::Block\<close>.\<close>

definition Context_Block :: "addr \<Rightarrow> sched \<Rightarrow> sched option" where
  "Context_Block c s = do {
     assert_that (\<not> m_inThunk s);
     Block c (s\<lparr>ctxs := (ctxs s)(c := (ctxs s c)\<lparr>m_blocks := m_blocks (ctxs s c) + 1\<rparr>)\<rparr>) }"

definition Unblock :: "addr \<Rightarrow> bool \<Rightarrow> sched \<Rightarrow> sched option" where
  "Unblock c schedule s = do {
     assert_that (\<not> schedule \<or> m_scheduled s \<noteq> null);
     if state_of s c \<noteq> BLOCKED then Some s
     else do {
       s1 \<leftarrow> remove_blocked c s;
       if \<not> schedule then push_yielded c (set_state c YIELDED s1)
       else do {
         let prev = m_scheduled s1;
         s2 \<leftarrow> push_yielded prev (set_state prev YIELDED s1);
         Some (switch_next c s2) } } }"

section \<open>Coordinators\<close>

definition set_coord :: "addr \<Rightarrow> coordinator \<Rightarrow> sched \<Rightarrow> sched" where
  "set_coord k v s = s\<lparr>coords := (coords s)(k := v)\<rparr>"

definition set_cd :: "addr \<Rightarrow> coordinated \<Rightarrow> sched \<Rightarrow> sched" where
  "set_cd x v s = s\<lparr>cds := (cds s)(x := v)\<rparr>"

abbreviation held :: "sched \<Rightarrow> addr \<Rightarrow> bool" where
  "held s k \<equiv> m_held (coords s k)"

abbreviation blocking :: "sched \<Rightarrow> addr \<Rightarrow> addr list" where
  "blocking s k \<equiv> m_blocking (coords s k)"

definition WakeWaiter :: "addr \<Rightarrow> bool \<Rightarrow> sched \<Rightarrow> sched option" where
  "WakeWaiter x schedule s =
     (let s1 = set_cd x ((cds s x)\<lparr>m_satisfied := True\<rparr>) s in
      case m_waiter (cds s x) of
        WaitContinuation n \<Rightarrow> do {
          assert_that (\<not> m_connected (cds s1 x));
          Some ((set_cd x ((cds s1 x)\<lparr>m_connected := True\<rparr>) s1)\<lparr>m_pendingContinuations := m_pendingContinuations s1 @ [x]\<rparr>) }
      | WaitContext c \<Rightarrow> Unblock c schedule s1)"

definition TryAcquire :: "addr \<Rightarrow> sched \<Rightarrow> bool \<times> sched" where
  "TryAcquire k s = (if \<not> held s k then (True, set_coord k ((coords s k)\<lparr>m_held := True\<rparr>) s) else (False, s))"

definition AddAsBlocked :: "addr \<Rightarrow> addr \<Rightarrow> sched \<Rightarrow> sched option" where
  "AddAsBlocked k x s = do {
     assert_that (\<not> m_connected (cds s x));
     let s1 = set_cd x ((cds s x)\<lparr>m_satisfied := False, m_connected := True\<rparr>) s;
     Some (set_coord k ((coords s1 k)\<lparr>m_blocking := blocking s1 k @ [x]\<rparr>) s1) }"

text \<open>
  Removal unlinks the node from whichever list it is on: the wait list, the pending continuations,
  or the local list of a running \<open>Notify\<close>.
\<close>

definition RemoveAsBlocked :: "addr \<Rightarrow> addr \<Rightarrow> sched \<Rightarrow> sched option" where
  "RemoveAsBlocked k x s = do {
     assert_that (m_connected (cds s x));
     let s1 = set_cd x ((cds s x)\<lparr>m_connected := False\<rparr>) s;
     Some (if x \<in> set (blocking s1 k) then set_coord k ((coords s1 k)\<lparr>m_blocking := remove1 x (blocking s1 k)\<rparr>) s1
           else s1\<lparr>m_pendingContinuations := remove1 x (m_pendingContinuations s1),
                   m_locals := (\<lambda>t. remove1 x (m_locals s1 t))\<rparr>) }"

text \<open>\<open>Acquire\<close>; \<open>x\<close> is the stack-allocated \<open>Coordinated\<close> of the call.\<close>

definition Acquire :: "addr \<Rightarrow> addr \<Rightarrow> addr \<Rightarrow> sched \<Rightarrow> sched option" where
  "Acquire k c x s =
     (if \<not> held s k then Some (set_coord k ((coords s k)\<lparr>m_held := True\<rparr>) s)
      else do {
        s1 \<leftarrow> AddAsBlocked k x (set_cd x \<lparr>m_waiter = WaitContext c, m_satisfied = False, m_connected = False\<rparr> s);
        Context_Block c s1 })"

definition is_continuation :: "waiter \<Rightarrow> bool" where
  "is_continuation w = (case w of WaitContext c \<Rightarrow> False | WaitContinuation n \<Rightarrow> True)"

definition ReleaseToNext :: "addr \<Rightarrow> addr \<Rightarrow> bool \<Rightarrow> sched \<Rightarrow> sched option" where
  "ReleaseToNext k x schedule s =
     (let s1 = (if \<not> is_continuation (m_waiter (cds s x)) then set_coord k ((coords s k)\<lparr>m_held := True\<rparr>) s else s)
      in WakeWaiter x schedule s1)"

definition pop_waiter :: "addr \<Rightarrow> sched \<Rightarrow> sched" where
  "pop_waiter x s = set_cd x ((cds s x)\<lparr>m_connected := False\<rparr>) s"

definition Release :: "addr \<Rightarrow> bool \<Rightarrow> sched \<Rightarrow> sched option" where
  "Release k schedule s =
     (if \<not> held s k then Some s
      else case blocking s k of
          [] \<Rightarrow> Some (set_coord k ((coords s k)\<lparr>m_held := False\<rparr>) s)
        | x # xs \<Rightarrow> ReleaseToNext k x schedule (pop_waiter x (set_coord k \<lparr>m_held = False, m_blocking = xs\<rparr> s)))"

text \<open>\<open>Flash\<close>: the part up to the switch, and the part behind it.\<close>

definition Flash_begin :: "addr \<Rightarrow> addr \<Rightarrow> addr \<Rightarrow> sched \<Rightarrow> (bool \<times> sched) option" where
  "Flash_begin k c x s = (if \<not> held s k then Some (False, s) else map_option (Pair True) (Acquire k c x s))"

definition Flash_end :: "addr \<Rightarrow> sched \<Rightarrow> sched option" where
  "Flash_end k s = Release k True s"

section \<open>Yielding and entering\<close>

text \<open>
  \<open>Poll\<close> as the scheduler sees it: each completion it dispatches releases the coordinator of its
  handle without scheduling. \<open>ks\<close> lists those coordinators in completion order.
\<close>

fun Poll :: "addr list \<Rightarrow> sched \<Rightarrow> sched option" where
  "Poll [] s = Some s"
| "Poll (k # ks) s = do { s1 \<leftarrow> Release k False s; Poll ks s1 }"

text \<open>What the IO governor reads of the ring: pending submissions, completions, cross-thread work.\<close>

record ring_view =
  HasPendingSubmissions :: bool
  HasPendingCompletions :: bool
  m_hasSubmissions :: bool

definition YieldFrom :: "addr \<Rightarrow> ring_view \<Rightarrow> addr list \<Rightarrow> sched \<Rightarrow> sched option" where
  "YieldFrom c rv ks s =
     (if direct_ok s then do {
        s1 \<leftarrow> (if ioPresentLimit (m_config s) > 0 \<and>
                 (HasPendingSubmissions rv \<or>
                  (m_directYieldsRemaining s AND 3 = 0 \<and> (HasPendingCompletions rv \<or> m_hasSubmissions rv)))
              then do {
                s0 \<leftarrow> Poll ks s;
                Some (if m_directYieldsRemaining s0 > ioPresentLimit (m_config s)
                      then s0\<lparr>m_directYieldsRemaining := ioPresentLimit (m_config s)\<rparr> else s0) }
              else Some s);
        if m_directYieldsRemaining s1 = 0 then HandleCooperatorResumption JUMP_YIELDED s1
        else (case m_yielded s1 of [] \<Rightarrow> None
          | next # rest \<Rightarrow> do {
              s2 \<leftarrow> push_yielded c (set_state c YIELDED
                (s1\<lparr>m_directYieldsRemaining := m_directYieldsRemaining s1 - 1, m_yielded := rest\<rparr>));
              Some (switch_next next s2) }) }
      else HandleCooperatorResumption JUMP_YIELDED s)"

text \<open>\<open>Context::Yield\<close>: whether it yielded; the epoch-pin and borrow assertions are a parameter.\<close>

definition Yield :: "addr \<Rightarrow> bool \<Rightarrow> bool \<Rightarrow> ring_view \<Rightarrow> addr list \<Rightarrow> sched \<Rightarrow> (bool \<times> sched) option" where
  "Yield c force unpinned rv ks s =
     (let cp = (if force then m_currentPriority (ctxs s c) else m_currentPriority (ctxs s c) - 1);
          s1 = s\<lparr>ctxs := (ctxs s)(c := (ctxs s c)\<lparr>m_currentPriority := cp\<rparr>)\<rparr>
      in if \<not> force \<and> cp = 0 then Some (False, s1)
         else do {
           assert_that unpinned;
           assert_that (\<not> m_inThunk s);
           let s2 = s1\<lparr>ctxs := (ctxs s1)(c := (ctxs s1 c)\<lparr>m_yields := m_yields (ctxs s1 c) + 1,
                        m_currentPriority := m_priority (ctxs s1 c)\<rparr>)\<rparr>;
           s3 \<leftarrow> YieldFrom c rv ks s2;
           Some (True, s3) })"

definition SanityCheck :: "sched \<Rightarrow> bool" where
  "SanityCheck s \<longleftrightarrow>
     (let yielded = length (filter (\<lambda>c. state_of s c = YIELDED) (m_contexts s));
          blocked = length (filter (\<lambda>c. state_of s c = BLOCKED) (m_contexts s))
      in list_all (\<lambda>c. state_of s c = RUNNING \<longrightarrow> c = m_scheduled s) (m_contexts s) \<and>
         yielded = length (m_yielded s) \<and> blocked = length (m_blocked s) \<and>
         list_all (\<lambda>c. state_of s c = YIELDED) (m_yielded s) \<and>
         list_all (\<lambda>c. state_of s c = BLOCKED) (m_blocked s))"

definition EnterContext :: "addr \<Rightarrow> sched \<Rightarrow> sched option" where
  "EnterContext c s = do {
     s1 \<leftarrow> (if m_scheduled s \<noteq> null
           then map_option (\<lambda>s. s\<lparr>m_scheduled := null\<rparr>) (push_yielded (m_scheduled s) (set_state (m_scheduled s) YIELDED s))
           else Some s);
     let s2 = switch_next c s1;
     assert_that (SanityCheck s2);
     Some s2 }"

section \<open>Signals\<close>

definition Signal_Wait :: "addr \<Rightarrow> addr \<Rightarrow> addr \<Rightarrow> sched \<Rightarrow> sched option" where
  "Signal_Wait k c x s = (if m_signaled s k then Some s else Acquire k c x s)"

text \<open>
  The drain loop of \<open>Notify\<close> running on context \<open>t\<close>: it wakes the waiters of the local list one by
  one. A wake that switches away leaves the rest on the list; the loop goes on when \<open>t\<close> runs again.
\<close>

fun notify_loop :: "nat \<Rightarrow> addr \<Rightarrow> bool \<Rightarrow> sched \<Rightarrow> sched option" where
  "notify_loop 0 t schedule s = Some s"
| "notify_loop (Suc n) t schedule s = (case m_locals s t of
       [] \<Rightarrow> Some s
     | x # xs \<Rightarrow> do {
         s1 \<leftarrow> WakeWaiter x schedule (pop_waiter x (s\<lparr>m_locals := (m_locals s)(t := xs)\<rparr>));
         if m_scheduled s1 = m_scheduled s then notify_loop n t schedule s1 else Some s1 })"

definition Notify :: "addr \<Rightarrow> addr \<Rightarrow> bool \<Rightarrow> sched \<Rightarrow> sched option" where
  "Notify k t schedule s = do {
     assert_that (m_locals s t = []);
     let s1 = s\<lparr>m_signaled := (m_signaled s)(k := True), m_locals := (m_locals s)(t := blocking s k)\<rparr>;
     notify_loop (length (blocking s k)) t schedule (set_coord k \<lparr>m_held = False, m_blocking = []\<rparr> s1) }"

definition Notify_resume :: "addr \<Rightarrow> bool \<Rightarrow> sched \<Rightarrow> sched option" where
  "Notify_resume t schedule s = notify_loop (length (m_locals s t)) t schedule s"

definition ResetCoordinator :: "addr \<Rightarrow> sched \<Rightarrow> sched" where
  "ResetCoordinator k s = set_coord k ((coords s k)\<lparr>m_held := False\<rparr>) s"

section \<open>Several coordinators at once\<close>

text \<open>The coordinators of a \<open>MultiCoordinator\<close>, each with its \<open>Coordinated\<close>.\<close>

type_synonym mc = "(addr \<times> addr) list"

fun mc_try :: "mc \<Rightarrow> nat \<Rightarrow> sched \<Rightarrow> (nat option \<times> sched)" where
  "mc_try [] i s = (None, s)"
| "mc_try ((k, x) # f) i s = (case TryAcquire k s of (True, s1) \<Rightarrow> (Some i, s1) | (False, s1) \<Rightarrow> mc_try f (Suc i) s1)"

fun mc_hook :: "mc \<Rightarrow> addr \<Rightarrow> sched \<Rightarrow> sched option" where
  "mc_hook [] c s = Some s"
| "mc_hook ((k, x) # f) c s = do {
     s1 \<leftarrow> AddAsBlocked k x (set_cd x ((cds s x)\<lparr>m_waiter := WaitContext c, m_satisfied := False\<rparr>) s);
     mc_hook f c s1 }"

text \<open>\<open>MultiCoordinator::Acquire\<close> up to the switch: the index acquired at once, or blocked.\<close>

definition mc_acquire :: "mc \<Rightarrow> addr \<Rightarrow> sched \<Rightarrow> (nat option \<times> sched) option" where
  "mc_acquire f c s = (case mc_try f 0 s of
       (Some i, s1) \<Rightarrow> Some (Some i, s1)
     | (None, s1) \<Rightarrow> do { s2 \<leftarrow> mc_hook f c s1; s3 \<leftarrow> Context_Block c s2; Some (None, s3) })"

text \<open>The clean-up of the coordinators behind the winner.\<close>

fun mc_rest :: "mc \<Rightarrow> sched \<Rightarrow> sched option" where
  "mc_rest [] s = Some s"
| "mc_rest ((k, x) # f) s = do {
     s1 \<leftarrow> (if m_satisfied (cds s x) then Release k False s else RemoveAsBlocked k x s);
     mc_rest f s1 }"

text \<open>Behind the switch: find the first satisfied one, unhook the others; none is an assertion failure.\<close>

fun mc_finish :: "mc \<Rightarrow> nat \<Rightarrow> sched \<Rightarrow> (nat \<times> sched) option" where
  "mc_finish [] i s = None"
| "mc_finish ((k, x) # f) i s =
     (if \<not> m_satisfied (cds s x) then do { s1 \<leftarrow> RemoveAsBlocked k x s; mc_finish f (Suc i) s1 }
      else map_option (Pair i) (mc_rest f s))"

definition mc_SanityCheck :: "mc \<Rightarrow> sched \<Rightarrow> bool" where
  "mc_SanityCheck f s \<longleftrightarrow> list_all (\<lambda>(k, x). \<not> m_connected (cds s x)) f"

definition mc_complete :: "mc \<Rightarrow> sched \<Rightarrow> (nat \<times> sched) option" where
  "mc_complete f s = do {
     (i, s1) \<leftarrow> mc_finish f 0 s;
     assert_that (mc_SanityCheck f s1);
     Some (i, s1) }"

section \<open>The scheduler invariant\<close>

text \<open>
  Every live context is on exactly the list its state names, and the running one is the scheduled
  one. This is what \<open>SanityCheck\<close> samples by counting. The predicate is over the lists \<open>cs\<close> (all
  contexts), \<open>ys\<close> (yielded), \<open>bs\<close> (blocked), the scheduled context \<open>r\<close> and the states.
\<close>

definition lists_ok :: "addr list \<Rightarrow> addr list \<Rightarrow> addr list \<Rightarrow> addr \<Rightarrow> (addr \<Rightarrow> SchedulerState) \<Rightarrow> bool" where
  "lists_ok cs ys bs r st \<longleftrightarrow> distinct cs \<and> null \<notin> set cs \<and> distinct ys \<and> distinct bs \<and>
     (\<forall>c. c \<in> set ys \<longleftrightarrow> c \<in> set cs \<and> st c = YIELDED) \<and> (\<forall>c. c \<in> set bs \<longleftrightarrow> c \<in> set cs \<and> st c = BLOCKED) \<and>
     (r \<noteq> null \<longrightarrow> r \<in> set cs \<and> st r = RUNNING) \<and> (\<forall>c \<in> set cs. st c = RUNNING \<longrightarrow> c = r)"

definition sched_inv :: "sched \<Rightarrow> bool" where
  "sched_inv s \<longleftrightarrow> lists_ok (m_contexts s) (m_yielded s) (m_blocked s) (m_scheduled s) (state_of s)"

lemma lists_okD:
  assumes "lists_ok cs ys bs r st"
  shows "r \<notin> set ys" "r \<notin> set bs" "c \<in> set ys \<Longrightarrow> c \<notin> set bs" "c \<in> set ys \<longleftrightarrow> c \<in> set cs \<and> st c = YIELDED"
    "c \<in> set bs \<longleftrightarrow> c \<in> set cs \<and> st c = BLOCKED" "r \<noteq> null \<Longrightarrow> r \<in> set cs" "r \<noteq> null \<Longrightarrow> st r = RUNNING"
    "c \<in> set cs \<Longrightarrow> st c = RUNNING \<Longrightarrow> c = r" "null \<notin> set cs" "distinct cs" "distinct ys" "distinct bs"
proof -
  have Y: "\<And>c. c \<in> set ys \<longleftrightarrow> c \<in> set cs \<and> st c = YIELDED" and B: "\<And>c. c \<in> set bs \<longleftrightarrow> c \<in> set cs \<and> st c = BLOCKED"
    and R: "r \<noteq> null \<Longrightarrow> r \<in> set cs \<and> st r = RUNNING" and R': "\<And>c. c \<in> set cs \<Longrightarrow> st c = RUNNING \<Longrightarrow> c = r"
    and N: "null \<notin> set cs" "distinct cs" "distinct ys" "distinct bs"
    using assms by (simp_all add: lists_ok_def)
  show "r \<notin> set ys" "r \<notin> set bs" using Y [of r] B [of r] R N(1) by (cases "r = null"; simp)+
  show "c \<in> set ys \<Longrightarrow> c \<notin> set bs" using Y [of c] B [of c] by simp
qed (use assms in \<open>simp_all add: lists_ok_def\<close>)

lemma lists_okI:
  assumes "distinct cs" "null \<notin> set cs" "distinct ys" "distinct bs"
    "\<And>c. c \<in> set ys \<longleftrightarrow> c \<in> set cs \<and> st c = YIELDED" "\<And>c. c \<in> set bs \<longleftrightarrow> c \<in> set cs \<and> st c = BLOCKED"
    "r \<noteq> null \<Longrightarrow> r \<in> set cs \<and> st r = RUNNING" "\<And>c. c \<in> set cs \<Longrightarrow> st c = RUNNING \<Longrightarrow> c = r"
  shows "lists_ok cs ys bs r st"
  using assms by (simp add: lists_ok_def)

text \<open>How a context moves between the lists.\<close>

lemma run_to_yielded:
  assumes "lists_ok cs ys bs r st" and "r \<noteq> null"
  shows "lists_ok cs (ys @ [r]) bs null (st(r := YIELDED))"
  by (rule lists_okI) (use assms(2-) lists_okD(1-7,9-12) [OF assms(1)] in \<open>auto split: if_splits dest: lists_okD(8) [OF assms(1)]\<close>)

lemma run_to_blocked:
  assumes "lists_ok cs ys bs r st" and "r \<noteq> null"
  shows "lists_ok cs ys (bs @ [r]) null (st(r := BLOCKED))"
  by (rule lists_okI) (use assms(2-) lists_okD(1-7,9-12) [OF assms(1)] in \<open>auto split: if_splits dest: lists_okD(8) [OF assms(1)]\<close>)

lemma yielded_to_run:
  assumes "lists_ok cs (c # ys) bs null st"
  shows "lists_ok cs ys bs c (st(c := RUNNING))"
  by (rule lists_okI) (use lists_okD(4) [OF assms(1), of c] lists_okD(1-7,9-12) [OF assms(1)] in \<open>auto split: if_splits dest: lists_okD(8) [OF assms(1)]\<close>)

lemma blocked_to_yielded:
  assumes "lists_ok cs ys bs r st" and "c \<in> set bs"
  shows "lists_ok cs (ys @ [c]) (remove1 c bs) r (st(c := YIELDED))"
proof -
  note D = lists_okD [OF assms(1)]
  have c: "c \<in> set cs" "c \<noteq> r" "c \<notin> set ys" using assms(2) D(1,2) D(4,5) [of c] by auto
  show ?thesis
  proof (rule lists_okI)
    show "\<And>d. d \<in> set (ys @ [c]) \<longleftrightarrow> d \<in> set cs \<and> (st(c := YIELDED)) d = YIELDED"
      and "\<And>d. d \<in> set (remove1 c bs) \<longleftrightarrow> d \<in> set cs \<and> (st(c := YIELDED)) d = BLOCKED"
      using c D(4,5,11,12) by auto
  qed (use c D(6,7,9-12) in \<open>auto split: if_splits dest: D(8)\<close>)
qed

lemma blocked_to_run:
  assumes "lists_ok cs ys bs null st" and "c \<in> set bs"
  shows "lists_ok cs ys (remove1 c bs) c (st(c := RUNNING))"
  by (rule lists_okI) (use assms(2-) lists_okD(1-7,9-12) [OF assms(1)] in \<open>auto split: if_splits dest: lists_okD(8) [OF assms(1)]\<close>)

lemma yielded_to_blocked:
  assumes "lists_ok cs ys bs r st" and "c \<in> set ys"
  shows "lists_ok cs (remove1 c ys) (bs @ [c]) r (st(c := BLOCKED))"
proof -
  note D = lists_okD [OF assms(1)]
  have c: "c \<in> set cs" "c \<noteq> r" "c \<notin> set bs" using assms(2) D(1,2) D(4,5) [of c] by auto
  show ?thesis
  proof (rule lists_okI)
    show "\<And>d. d \<in> set (remove1 c ys) \<longleftrightarrow> d \<in> set cs \<and> (st(c := BLOCKED)) d = YIELDED"
      and "\<And>d. d \<in> set (bs @ [c]) \<longleftrightarrow> d \<in> set cs \<and> (st(c := BLOCKED)) d = BLOCKED"
      using c D(4,5,11,12) by auto
  qed (use c D(6,7,9-12) in \<open>auto split: if_splits dest: D(8)\<close>)
qed

lemma enter_run:
  assumes "lists_ok cs ys bs null st" and "c \<notin> set cs" and "c \<noteq> null"
  shows "lists_ok (cs @ [c]) ys bs c (st(c := RUNNING))"
  by (rule lists_okI) (use assms(2-) lists_okD(1-7,9-12) [OF assms(1)] in \<open>auto split: if_splits dest: lists_okD(8) [OF assms(1)]\<close>)

lemma run_exit:
  assumes "lists_ok cs ys bs r st"
  shows "lists_ok (remove1 r cs) ys bs null st"
proof -
  note D = lists_okD [OF assms]
  have m: "c \<in> set (remove1 r cs) \<longleftrightarrow> c \<in> set cs \<and> c \<noteq> r" for c using D(10) by auto
  show ?thesis by (rule lists_okI) (use m D(1,2,8,9,10,11,12) D(4,5) in \<open>fastforce+\<close>)
qed

lemma state_of_set_state [simp]: "state_of (set_state c v s) = (state_of s)(c := v)"
  by (auto simp: set_state_def state_of_def fun_eq_iff)

lemma state_of_update [simp]:
  "state_of (s\<lparr>m_yielded := ys\<rparr>) = state_of s" "state_of (s\<lparr>m_blocked := ys\<rparr>) = state_of s"
  "state_of (s\<lparr>m_scheduled := c\<rparr>) = state_of s" "state_of (s\<lparr>m_contexts := ys\<rparr>) = state_of s"
  "state_of (s\<lparr>m_directYieldsRemaining := i\<rparr>) = state_of s" "state_of (s\<lparr>coords := ks\<rparr>) = state_of s"
  "state_of (s\<lparr>cds := xs\<rparr>) = state_of s" "state_of (s\<lparr>m_signaled := g\<rparr>) = state_of s"
  "state_of (s\<lparr>m_locals := l\<rparr>) = state_of s" "state_of (s\<lparr>m_pendingContinuations := ys\<rparr>) = state_of s"
  "state_of (s\<lparr>m_freed := ys\<rparr>) = state_of s"
  by (simp_all add: state_of_def fun_eq_iff)

lemma set_state_simps [simp]:
  "m_contexts (set_state c v s) = m_contexts s" "m_yielded (set_state c v s) = m_yielded s"
  "m_blocked (set_state c v s) = m_blocked s" "m_scheduled (set_state c v s) = m_scheduled s"
  by (simp_all add: set_state_def)

text \<open>What switching leaves alone.\<close>

definition same_waits :: "sched \<Rightarrow> sched \<Rightarrow> bool" where
  "same_waits s s' \<longleftrightarrow> coords s' = coords s \<and> cds s' = cds s \<and> m_signaled s' = m_signaled s \<and>
     m_contexts s' = m_contexts s \<and> m_pendingContinuations s' = m_pendingContinuations s \<and>
     m_inThunk s' = m_inThunk s \<and> m_locals s' = m_locals s \<and> m_config s' = m_config s \<and> m_freed s' = m_freed s \<and>
     (\<forall>c. m_parent (ctxs s' c) = m_parent (ctxs s c) \<and> m_children (ctxs s' c) = m_children (ctxs s c) \<and>
        m_lastChild (ctxs s' c) = m_lastChild (ctxs s c) \<and> m_killedSignal (ctxs s' c) = m_killedSignal (ctxs s c))"

lemma same_waits_refl [simp]: "same_waits s s"
  by (simp add: same_waits_def)

lemma same_waits_trans: "same_waits s s1 \<Longrightarrow> same_waits s1 s2 \<Longrightarrow> same_waits s s2"
  by (simp add: same_waits_def)

lemma same_waits_update [simp]:
  "same_waits s (set_state c v s') = same_waits s s'" "same_waits s (s'\<lparr>m_yielded := ys\<rparr>) = same_waits s s'"
  "same_waits s (s'\<lparr>m_blocked := ys\<rparr>) = same_waits s s'" "same_waits s (s'\<lparr>m_scheduled := c\<rparr>) = same_waits s s'"
  "same_waits s (s'\<lparr>m_directYieldsRemaining := i\<rparr>) = same_waits s s'"
  by (auto simp: same_waits_def set_state_def)

lemma SanityCheck_ok:
  assumes "sched_inv s"
  shows "SanityCheck s"
proof -
  have L: "lists_ok (m_contexts s) (m_yielded s) (m_blocked s) (m_scheduled s) (state_of s)"
    using assms by (simp add: sched_inv_def)
  have cnt: "length (filter P (m_contexts s)) = length l" if "distinct l" "set l = {c \<in> set (m_contexts s). P c}" for P l
    using that lists_okD(10) [OF L] by (metis distinct_card distinct_filter set_filter)
  show ?thesis
    using cnt [of "m_yielded s" "\<lambda>c. state_of s c = YIELDED"] cnt [of "m_blocked s" "\<lambda>c. state_of s c = BLOCKED"]
      lists_okD(8) [OF L] L by (auto simp: SanityCheck_def list_all_iff lists_ok_def)
qed

section \<open>What switching does\<close>

text \<open>
  Each switch keeps the invariant and the wait state. \<open>P\<close> says which contexts are blocked afterwards,
  \<open>r\<close> which one runs.
\<close>

definition moved :: "sched \<Rightarrow> sched \<Rightarrow> (addr \<Rightarrow> bool) \<Rightarrow> bool" where
  "moved s s' P \<longleftrightarrow> sched_inv s' \<and> same_waits s s' \<and> (\<forall>c. state_of s' c = BLOCKED \<longleftrightarrow> P c)"

lemma movedD:
  assumes "moved s s' P"
  shows "sched_inv s'" "same_waits s s'" "state_of s' c = BLOCKED \<longleftrightarrow> P c"
  using assms by (simp_all add: moved_def)

lemma resume_yielded:
  assumes "sched_inv s" and "m_scheduled s \<noteq> null"
  shows "\<exists>s'. HandleCooperatorResumption JUMP_YIELDED s = Some s' \<and> m_scheduled s' = null \<and>
    moved s s' (\<lambda>c. state_of s c = BLOCKED)"
proof -
  note L = assms(1) [unfolded sched_inv_def]
  show ?thesis using run_to_yielded [OF L assms(2)] lists_okD(1,2,7) [OF L] assms(2)
    by (auto simp: push_yielded_def moved_def sched_inv_def)
qed

lemma resume_blocked:
  assumes "sched_inv s" and "m_scheduled s \<noteq> null"
  shows "\<exists>s'. HandleCooperatorResumption JUMP_BLOCKED s = Some s' \<and> m_scheduled s' = null \<and>
    moved s s' (\<lambda>c. c = m_scheduled s \<or> state_of s c = BLOCKED)"
proof -
  note L = assms(1) [unfolded sched_inv_def]
  show ?thesis using run_to_blocked [OF L assms(2)] lists_okD(1,2) [OF L] assms(2)
    by (simp add: push_blocked_def moved_def sched_inv_def)
qed

lemma loop_resume_ok:
  assumes "sched_inv s" and "m_scheduled s = null" and "m_yielded s = c # ys"
  shows "\<exists>s'. loop_resume s = Some s' \<and> m_scheduled s' = c \<and> m_yielded s' = ys \<and>
    moved s s' (\<lambda>c. state_of s c = BLOCKED)"
proof -
  have L: "lists_ok (m_contexts s) (c # ys) (m_blocked s) null (state_of s)"
    using assms by (simp add: sched_inv_def)
  show ?thesis using yielded_to_run [OF L] lists_okD(4) [OF L, of c] assms
    by (auto simp: loop_resume_def Resume_def moved_def sched_inv_def)
qed

text \<open>The two direct switches: the running context is filed, the next runnable one runs.\<close>

lemma direct_yield:
  assumes "sched_inv s" and "m_scheduled s = c" "c \<noteq> null" and "m_yielded s = n # ys"
  shows "\<exists>s2. push_yielded c (set_state c YIELDED (s\<lparr>m_directYieldsRemaining := i, m_yielded := ys\<rparr>)) = Some s2 \<and>
    moved s (switch_next n s2) (\<lambda>d. state_of s d = BLOCKED)"
proof -
  have L: "lists_ok (m_contexts s) (n # ys) (m_blocked s) c (state_of s)" using assms by (simp add: sched_inv_def)
  have "lists_ok (m_contexts s) (n # (ys @ [c])) (m_blocked s) null ((state_of s)(c := YIELDED))"
    using run_to_yielded [OF L assms(3)] by simp
  from yielded_to_run [OF this] show ?thesis using lists_okD(1,2,7) [OF L] assms(3) lists_okD(4) [OF L, of n]
    by (auto simp: push_yielded_def switch_next_def moved_def sched_inv_def assms(2))
qed

lemma direct_block:
  assumes "sched_inv s" and "m_scheduled s = c" "c \<noteq> null" and "m_yielded s = n # ys"
  shows "\<exists>s2. push_blocked c (set_state c BLOCKED (s\<lparr>m_directYieldsRemaining := i\<rparr>)) = Some s2 \<and> m_yielded s2 = n # ys \<and>
    moved s (switch_next n (s2\<lparr>m_yielded := ys\<rparr>)) (\<lambda>d. d = c \<or> state_of s d = BLOCKED)"
proof -
  have L: "lists_ok (m_contexts s) (n # ys) (m_blocked s) c (state_of s)" using assms by (simp add: sched_inv_def)
  have "lists_ok (m_contexts s) (n # ys) (m_blocked s @ [c]) null ((state_of s)(c := BLOCKED))"
    using run_to_blocked [OF L assms(3)] by simp
  from yielded_to_run [OF this] show ?thesis using lists_okD(1,2,7) [OF L] assms(3,4) lists_okD(4) [OF L, of n]
    by (auto simp: push_blocked_def switch_next_def moved_def sched_inv_def assms(2))
qed

lemma Block_ok:
  assumes "sched_inv s" and "m_scheduled s = c" and "c \<noteq> null"
  shows "\<exists>s'. Block c s = Some s' \<and> moved s s' (\<lambda>d. d = c \<or> state_of s d = BLOCKED)"
proof (cases "direct_ok s")
  case True
  then obtain n ys where "m_yielded s = n # ys" by (cases "m_yielded s") (auto simp: direct_ok_def)
  from direct_block [OF assms this, of "m_directYieldsRemaining s - 1"] True assms(2) show ?thesis
    by (auto simp: Block_def)
next
  case False
  with resume_blocked [of s] assms show ?thesis by (auto simp: Block_def)
qed

lemma state_of_blocks [simp]: "state_of (s\<lparr>ctxs := (ctxs s)(c := (ctxs s c)\<lparr>m_blocks := n\<rparr>)\<rparr>) = state_of s"
  by (auto simp: state_of_def fun_eq_iff)

lemma sched_inv_blocks [simp]: "sched_inv (s\<lparr>ctxs := (ctxs s)(c := (ctxs s c)\<lparr>m_blocks := n\<rparr>)\<rparr>) = sched_inv s"
  by (simp add: sched_inv_def)

lemma Context_Block_ok:
  assumes "sched_inv s" and "m_scheduled s = c" and "c \<noteq> null" and "\<not> m_inThunk s"
  shows "\<exists>s'. Context_Block c s = Some s' \<and> moved s s' (\<lambda>d. d = c \<or> state_of s d = BLOCKED)"
proof -
  let ?s = "s\<lparr>ctxs := (ctxs s)(c := (ctxs s c)\<lparr>m_blocks := m_blocks (ctxs s c) + 1\<rparr>)\<rparr>"
  have sw: "same_waits s ?s" by (simp add: same_waits_def)
  from Block_ok [of ?s c] assms obtain s' where "Block c ?s = Some s'"
    "moved ?s s' (\<lambda>d. d = c \<or> state_of s d = BLOCKED)" by auto
  then show ?thesis using assms(4) same_waits_trans [OF sw]
    by (auto simp: Context_Block_def moved_def)
qed

lemma Unblock_ok:
  assumes "sched_inv s" and "c \<in> set (m_contexts s)" and "schedule \<Longrightarrow> m_scheduled s \<noteq> null"
  shows "\<exists>s'. Unblock c schedule s = Some s' \<and> moved s s' (\<lambda>d. d \<noteq> c \<and> state_of s d = BLOCKED) \<and>
    m_scheduled s' = (if schedule \<and> state_of s c = BLOCKED then c else m_scheduled s) \<and>
    length (m_yielded s) \<le> length (m_yielded s')"
proof (cases "state_of s c = BLOCKED")
  case False
  then show ?thesis using assms by (auto simp: Unblock_def moved_def)
next
  case True
  note L = assms(1) [unfolded sched_inv_def]
  have c: "c \<in> set (m_blocked s)" "c \<notin> set (m_yielded s)" "c \<noteq> m_scheduled s"
    using True assms(2) lists_okD(4,5) [OF L, of c] lists_okD(2) [OF L] by auto
  have d: "distinct (m_blocked s)" by (rule lists_okD(12) [OF L])
  show ?thesis
  proof (cases schedule)
    case False
    then show ?thesis using True c d blocked_to_yielded [OF L c(1)]
      by (auto simp: Unblock_def remove_blocked_def push_yielded_def moved_def sched_inv_def)
  next
    case s: True
    have r: "m_scheduled s \<noteq> null" using assms(3) s by simp
    from blocked_to_run [OF run_to_yielded [OF L r] c(1)] True s c r lists_okD(1,2,7) [OF L] d show ?thesis
      by (auto simp: Unblock_def remove_blocked_def push_yielded_def switch_next_def moved_def sched_inv_def fun_upd_twist Let_def)
  qed
qed

end
