(* ===== verification/Coordination.thy ===== *)
theory Coordination
  imports Scheduler
begin

text \<open>
  Waiting and waking: which \<open>Coordinated\<close> nodes are queued where, for which context, and what the
  primitives of \<open>coop/coordinator.cpp\<close>, \<open>coop/signal.cpp\<close> and \<open>coop/detail/multi_coordinator.h\<close> do to
  that. The invariant is stated over views of the state (the lists, the flags, the blocked contexts)
  and kept by a handful of transitions of these views; each primitive is then a transition.
\<close>

section \<open>Places\<close>

datatype place = AtCoord addr | AtLocal addr

text \<open>Every connected node is on exactly one list, once.\<close>

definition placed :: "(place \<Rightarrow> addr list) \<Rightarrow> (addr \<Rightarrow> bool) \<Rightarrow> bool" where
  "placed W C \<longleftrightarrow> (\<forall>p. distinct (W p)) \<and> (\<forall>p q x. x \<in> set (W p) \<longrightarrow> x \<in> set (W q) \<longrightarrow> p = q) \<and>
     (\<forall>x. C x \<longleftrightarrow> (\<exists>p. x \<in> set (W p)))"

lemma placedD:
  assumes "placed W C"
  shows "distinct (W p)" "x \<in> set (W p) \<Longrightarrow> x \<in> set (W q) \<Longrightarrow> p = q" "x \<in> set (W p) \<Longrightarrow> C x"
    "C x \<Longrightarrow> \<exists>p. x \<in> set (W p)"
  using assms unfolding placed_def by blast+

lemma placedI:
  assumes "\<And>p. distinct (W p)" "\<And>p q x. x \<in> set (W p) \<Longrightarrow> x \<in> set (W q) \<Longrightarrow> p = q"
    "\<And>p x. x \<in> set (W p) \<Longrightarrow> C x" "\<And>x. C x \<Longrightarrow> \<exists>p. x \<in> set (W p)"
  shows "placed W C"
  unfolding placed_def using assms by blast

lemma placed_hook:
  assumes "placed W C" and "\<not> C x"
  shows "placed (W(p := W p @ [x])) (C(x := True))"
proof -
  note D = placedD [OF assms(1)]
  have n: "x \<notin> set (W q)" for q using D(3) assms(2) by blast
  have m: "y \<in> set ((W(p := W p @ [x])) q) \<longleftrightarrow> y \<in> set (W q) \<or> (q = p \<and> y = x)" for y q by auto
  show ?thesis
  proof (rule placedI)
    show "distinct ((W(p := W p @ [x])) q)" for q using D(1) n by auto
    show "\<exists>q. y \<in> set ((W(p := W p @ [x])) q)" if "(C(x := True)) y" for y
      unfolding m using that D(4) [of y] by (cases "y = x") auto
    show "q = r" if "y \<in> set ((W(p := W p @ [x])) q)" "y \<in> set ((W(p := W p @ [x])) r)" for y q r
      using that n D(2) unfolding m by blast
    show "(C(x := True)) y" if "y \<in> set ((W(p := W p @ [x])) q)" for y q
      using that D(3) unfolding m by auto
  qed
qed

lemma placed_unhook:
  assumes "placed W C" and "x \<in> set (W p)"
  shows "placed (W(p := remove1 x (W p))) (C(x := False))"
proof -
  note D = placedD [OF assms(1)]
  have x: "x \<in> set (W q) \<Longrightarrow> q = p" for q using D(2) assms(2) by blast
  have m: "y \<in> set ((W(p := remove1 x (W p))) q) \<longleftrightarrow> y \<in> set (W q) \<and> y \<noteq> x" for y q
    using D(1) [of p] x [of q] by (cases "q = p") auto
  show ?thesis
  proof (rule placedI)
    show "distinct ((W(p := remove1 x (W p))) q)" for q using D(1) by (simp add: distinct_remove1)
    show "\<exists>q. y \<in> set ((W(p := remove1 x (W p))) q)" if "(C(x := False)) y" for y
      unfolding m using that D(4) [of y] by (cases "y = x") auto
    show "q = r" if "y \<in> set ((W(p := remove1 x (W p))) q)" "y \<in> set ((W(p := remove1 x (W p))) r)" for y q r
      using that D(2) unfolding m by blast
    show "(C(x := False)) y" if "y \<in> set ((W(p := remove1 x (W p))) q)" for y q
      using that D(3) unfolding m by auto
  qed
qed

lemma placed_steal:
  assumes "placed W C" and "W q = []" and "p \<noteq> q"
  shows "placed (W(q := W p, p := [])) C"
proof -
  note D = placedD [OF assms(1)]
  let ?W = "W(q := W p, p := [])"
  have m: "x \<in> set (?W r) \<longleftrightarrow> x \<in> set (W (if r = q then p else r)) \<and> r \<noteq> p" for x r
    using assms(3) by auto
  show ?thesis
  proof (rule placedI)
    show "distinct (?W r)" for r using D(1) by auto
    show "\<exists>r. x \<in> set (?W r)" if "C x" for x
    proof -
      from D(4) [OF that] obtain r where r: "x \<in> set (W r)" by blast
      then have "r \<noteq> q" using assms(2) by auto
      with r assms(3) have "x \<in> set (?W (if r = p then q else r))" by auto
      then show ?thesis by blast
    qed
    show "r = r'" if "x \<in> set (?W r)" "x \<in> set (?W r')" for x r r'
      using that D(2) [of x "if r = q then p else r" "if r' = q then p else r'"] unfolding m by (auto split: if_splits)
    show "C x" if "x \<in> set (?W r)" for x r using that D(3) unfolding m by blast
  qed
qed

section \<open>Who waits for what\<close>

text \<open>
  \<open>W\<close>, \<open>C\<close>, \<open>S\<close>, \<open>A\<close>: the lists, the connected and the satisfied nodes, the waiter of a node. \<open>B\<close>, \<open>X\<close>: the
  blocked and the live contexts. \<open>F c\<close>: the \<open>MultiCoordinator\<close> on the stack of context \<open>c\<close>; \<open>e\<close> is a
  context in the middle of its clean-up.
\<close>

definition waits_ok :: "(place \<Rightarrow> addr list) \<Rightarrow> (addr \<Rightarrow> bool) \<Rightarrow> (addr \<Rightarrow> bool) \<Rightarrow> (addr \<Rightarrow> waiter) \<Rightarrow>
    (addr \<Rightarrow> bool) \<Rightarrow> addr set \<Rightarrow> (addr \<Rightarrow> mc) \<Rightarrow> addr \<Rightarrow> bool" where
  "waits_ok W C S A B X F e \<longleftrightarrow> placed W C \<and>
     (\<forall>x. C x \<longrightarrow> \<not> S x) \<and>
     (\<forall>x. C x \<longrightarrow> (\<exists>c \<in> X. A x = WaitContext c)) \<and>
     (\<forall>c. c \<in> X \<longrightarrow> B c \<longrightarrow> (\<exists>x. C x \<and> A x = WaitContext c)) \<and>
     (\<forall>x c. C x \<longrightarrow> A x = WaitContext c \<longrightarrow> x \<in> snd ` set (F c)) \<and>
     (\<forall>c. F c \<noteq> [] \<longrightarrow> c \<in> X) \<and>
     (\<forall>c. distinct (map snd (F c))) \<and>
     (\<forall>c x. B c \<longrightarrow> x \<in> snd ` set (F c) \<longrightarrow> \<not> S x) \<and>
     (\<forall>c. F c \<noteq> [] \<longrightarrow> \<not> B c \<longrightarrow> c \<noteq> e \<longrightarrow> (\<exists>x \<in> snd ` set (F c). S x)) \<and>
     (\<forall>c k x. (k, x) \<in> set (F c) \<longrightarrow> A x = WaitContext c) \<and>
     (\<forall>c k x. (k, x) \<in> set (F c) \<longrightarrow> (C x \<longleftrightarrow> \<not> S x)) \<and>
     (\<forall>c k x. (k, x) \<in> set (F c) \<longrightarrow> C x \<longrightarrow> x \<in> set (W (AtCoord k)) \<or> (\<exists>t. x \<in> set (W (AtLocal t)))) \<and>
     (\<forall>t. W (AtLocal t) \<noteq> [] \<longrightarrow> t \<in> X) \<and>
     (\<forall>t. W (AtLocal t) \<noteq> [] \<longrightarrow> \<not> B t)"

lemma waits_okD:
  assumes "waits_ok W C S A B X F e"
  shows "placed W C"
    "C x \<Longrightarrow> \<not> S x"
    "C x \<Longrightarrow> \<exists>c \<in> X. A x = WaitContext c"
    "c \<in> X \<Longrightarrow> B c \<Longrightarrow> \<exists>x. C x \<and> A x = WaitContext c"
    "C x \<Longrightarrow> A x = WaitContext c \<Longrightarrow> x \<in> snd ` set (F c)"
    "F c \<noteq> [] \<Longrightarrow> c \<in> X"
    "distinct (map snd (F c))"
    "B c \<Longrightarrow> x \<in> snd ` set (F c) \<Longrightarrow> \<not> S x"
    "F c \<noteq> [] \<Longrightarrow> \<not> B c \<Longrightarrow> c \<noteq> e \<Longrightarrow> \<exists>x \<in> snd ` set (F c). S x"
    "(k, x) \<in> set (F c) \<Longrightarrow> A x = WaitContext c"
    "(k, x) \<in> set (F c) \<Longrightarrow> C x \<longleftrightarrow> \<not> S x"
    "(k, x) \<in> set (F c) \<Longrightarrow> C x \<Longrightarrow> x \<in> set (W (AtCoord k)) \<or> (\<exists>t. x \<in> set (W (AtLocal t)))"
    "W (AtLocal t) \<noteq> [] \<Longrightarrow> t \<in> X"
    "W (AtLocal t) \<noteq> [] \<Longrightarrow> \<not> B t"
proof -
  note a0 = assms [unfolded waits_ok_def]
  note a1 = a0 [THEN conjunct2]
  note a2 = a1 [THEN conjunct2]
  note a3 = a2 [THEN conjunct2]
  note a4 = a3 [THEN conjunct2]
  note a5 = a4 [THEN conjunct2]
  note a6 = a5 [THEN conjunct2]
  note a7 = a6 [THEN conjunct2]
  note a8 = a7 [THEN conjunct2]
  note a9 = a8 [THEN conjunct2]
  note a10 = a9 [THEN conjunct2]
  note a11 = a10 [THEN conjunct2]
  note a12 = a11 [THEN conjunct2]
  note a13 = a12 [THEN conjunct2]
  show "placed W C" by (rule a0 [THEN conjunct1, rule_format])
  show "C x \<Longrightarrow> \<not> S x" by (rule a1 [THEN conjunct1, rule_format])
  show "C x \<Longrightarrow> \<exists>c \<in> X. A x = WaitContext c" by (rule a2 [THEN conjunct1, rule_format])
  show "c \<in> X \<Longrightarrow> B c \<Longrightarrow> \<exists>x. C x \<and> A x = WaitContext c" by (rule a3 [THEN conjunct1, rule_format])
  show "C x \<Longrightarrow> A x = WaitContext c \<Longrightarrow> x \<in> snd ` set (F c)" by (rule a4 [THEN conjunct1, rule_format])
  show "F c \<noteq> [] \<Longrightarrow> c \<in> X" by (rule a5 [THEN conjunct1, rule_format])
  show "distinct (map snd (F c))" by (rule a6 [THEN conjunct1, rule_format])
  show "B c \<Longrightarrow> x \<in> snd ` set (F c) \<Longrightarrow> \<not> S x" by (rule a7 [THEN conjunct1, rule_format])
  show "F c \<noteq> [] \<Longrightarrow> \<not> B c \<Longrightarrow> c \<noteq> e \<Longrightarrow> \<exists>x \<in> snd ` set (F c). S x" by (rule a8 [THEN conjunct1, rule_format])
  show "(k, x) \<in> set (F c) \<Longrightarrow> A x = WaitContext c" by (rule a9 [THEN conjunct1, rule_format])
  show "(k, x) \<in> set (F c) \<Longrightarrow> C x \<longleftrightarrow> \<not> S x" by (rule a10 [THEN conjunct1, rule_format])
  show "(k, x) \<in> set (F c) \<Longrightarrow> C x \<Longrightarrow> x \<in> set (W (AtCoord k)) \<or> (\<exists>t. x \<in> set (W (AtLocal t)))" by (rule a11 [THEN conjunct1, rule_format])
  show "W (AtLocal t) \<noteq> [] \<Longrightarrow> t \<in> X" by (rule a12 [THEN conjunct1, rule_format])
  show "W (AtLocal t) \<noteq> [] \<Longrightarrow> \<not> B t" by (rule a13 [rule_format])
qed

lemma waits_okI:
  assumes "placed W C"
    "\<And>x. C x \<Longrightarrow> \<not> S x"
    "\<And>x. C x \<Longrightarrow> \<exists>c \<in> X. A x = WaitContext c"
    "\<And>c. c \<in> X \<Longrightarrow> B c \<Longrightarrow> \<exists>x. C x \<and> A x = WaitContext c"
    "\<And>x c. C x \<Longrightarrow> A x = WaitContext c \<Longrightarrow> x \<in> snd ` set (F c)"
    "\<And>c. F c \<noteq> [] \<Longrightarrow> c \<in> X"
    "\<And>c. distinct (map snd (F c))"
    "\<And>c x. B c \<Longrightarrow> x \<in> snd ` set (F c) \<Longrightarrow> \<not> S x"
    "\<And>c. F c \<noteq> [] \<Longrightarrow> \<not> B c \<Longrightarrow> c \<noteq> e \<Longrightarrow> \<exists>x \<in> snd ` set (F c). S x"
    "\<And>c k x. (k, x) \<in> set (F c) \<Longrightarrow> A x = WaitContext c"
    "\<And>c k x. (k, x) \<in> set (F c) \<Longrightarrow> C x \<longleftrightarrow> \<not> S x"
    "\<And>c k x. (k, x) \<in> set (F c) \<Longrightarrow> C x \<Longrightarrow> x \<in> set (W (AtCoord k)) \<or> (\<exists>t. x \<in> set (W (AtLocal t)))"
    "\<And>t. W (AtLocal t) \<noteq> [] \<Longrightarrow> t \<in> X"
    "\<And>t. W (AtLocal t) \<noteq> [] \<Longrightarrow> \<not> B t"
  shows "waits_ok W C S A B X F e"
  unfolding waits_ok_def using assms by (intro conjI allI impI) assumption+

text \<open>A waiter is popped, satisfied and its context unblocked.\<close>

lemma waits_wake:
  assumes w: "waits_ok W C S A B X F e" and x: "x \<in> set (W p)" and a: "A x = WaitContext c"
  shows "waits_ok (W(p := remove1 x (W p))) (C(x := False)) (S(x := True)) A (\<lambda>d. d \<noteq> c \<and> B d) X F e"
proof -
  note D = waits_okD [OF w]
  have cx: "C x" using placedD(3) [OF D(1) x] .
  have nx: "y \<noteq> x" if "A y = WaitContext d" "d \<noteq> c" for y d using that a by auto
  have mem: "y \<in> set ((W(p := remove1 x (W p))) q) \<longleftrightarrow> y \<in> set (W q) \<and> y \<noteq> x" for y q
    using placedD(1) [OF D(1), of p] placedD(2) [OF D(1) x] by (cases "q = p") auto
  show ?thesis
  proof (rule waits_okI, goal_cases)
    case 1 show ?case by (rule placed_unhook [OF D(1) x])
  next
    case (4 d)
    then obtain y where y: "C y" "A y = WaitContext d" using D(4) by blast
    with 4 nx [of y d] show ?case by auto
  next
    case (8 d y)
    have "A y = WaitContext d" using 8(2) D(10) by auto
    with 8 D(8) nx show ?case by auto
  next
    case (9 d)
    show ?case
    proof (cases "d = c")
      case True
      then have "x \<in> snd ` set (F d)" using D(5) [OF cx] a by auto
      then show ?thesis by (intro bexI [of _ x]) auto
    next
      case False
      with 9 D(9) [of d] obtain y where "y \<in> snd ` set (F d)" "S y" by auto
      then show ?thesis by (intro bexI [of _ y]) auto
    qed
  next
    case (12 d k y)
    then have "C y" "y \<noteq> x" by (auto split: if_splits)
    with D(12) [OF 12(1)] mem show ?case by auto
  next
    case (13 t)
    then have "W (AtLocal t) \<noteq> []" by (cases "p = AtLocal t") auto
    then show ?case by (rule D(13))
  next
    case (14 t)
    then have "W (AtLocal t) \<noteq> []" by (cases "p = AtLocal t") auto
    then show ?case using D(14) by blast
  qed (use D in \<open>auto split: if_splits\<close>)
qed

text \<open>A context that runs hooks one more node for itself.\<close>

lemma waits_hook:
  assumes w: "waits_ok W C S A B X (F(c := g)) c" and c: "c \<in> X" "\<not> B c" and x: "\<not> C x" "\<And>d. x \<notin> snd ` set ((F(c := g)) d)"
  shows "waits_ok (W(AtCoord k := W (AtCoord k) @ [x])) (C(x := True)) (S(x := False)) (A(x := WaitContext c)) B X
    (F(c := g @ [(k, x)])) c"
proof -
  note D = waits_okD [OF w]
  have xF: "y \<noteq> x" if "(k', y) \<in> set ((F(c := g)) d)" for k' y d using x(2) [of d] that by force
  have fr: "(k', y) \<in> set ((F(c := g @ [(k, x)])) d) \<longleftrightarrow> (k', y) \<in> set ((F(c := g)) d) \<or> (d = c \<and> k' = k \<and> y = x)" for k' y d
    by auto
  have frs: "y \<in> snd ` set ((F(c := g @ [(k, x)])) d) \<longleftrightarrow> y \<in> snd ` set ((F(c := g)) d) \<or> (d = c \<and> y = x)" for y d
    by auto
  show ?thesis
  proof (rule waits_okI, goal_cases)
    case 1 show ?case by (rule placed_hook [OF D(1) x(1)])
  next
    case (3 y) then show ?case using D(3) [of y] c(1) by (cases "y = x") auto
  next
    case (4 d) then obtain y where "C y" "A y = WaitContext d" using D(4) by blast
    with x(1) show ?case by (intro exI [of _ y]) auto
  next
    case (5 y d) then show ?case using D(5) [of y d] unfolding frs by (cases "y = x") auto
  next
    case (7 d) then show ?case using D(7) [of d] x(2) [of c] by auto
  next
    case (8 d y) then show ?case using D(8) [of d y] c(2) unfolding frs by auto
  next
    case (9 d) then obtain y where "y \<in> snd ` set ((F(c := g)) d)" "S y" using D(9) [of d] by auto
    with x(2) [of d] show ?case unfolding frs by (intro bexI [of _ y]) auto
  next
    case (10 d k' y) then show ?case using D(10) [of k' y d] xF [of k' y d] unfolding fr by auto
  next
    case (11 d k' y) then show ?case using D(11) [of k' y d] xF [of k' y d] unfolding fr by auto
  next
    case (12 d k' y) then show ?case using D(12) [of k' y d] xF [of k' y d] unfolding fr by auto
  qed (use D(2,6,13,14) c(1) in \<open>auto split: if_splits\<close>)
qed

text \<open>Having hooked its nodes, the context blocks.\<close>

lemma waits_block:
  assumes w: "waits_ok W C S A B X F c" and c: "F c \<noteq> []" "\<And>x. x \<in> snd ` set (F c) \<Longrightarrow> \<not> S x" "W (AtLocal c) = []"
  shows "waits_ok W C S A (\<lambda>d. d = c \<or> B d) X F e"
proof -
  note D = waits_okD [OF w]
  show ?thesis
  proof (rule waits_okI, goal_cases)
    case (4 d)
    show ?case
    proof (cases "d = c")
      case True
      obtain k x where "(k, x) \<in> set (F c)" using c(1) by (cases "F c") auto
      then have "C x" "A x = WaitContext c" using D(10,11) c(2) by force+
      with True show ?thesis by blast
    qed (use D(4) 4 in blast)
  next
    case (8 d x) then show ?case using D(8) [of d x] c(2) by (cases "d = c") auto
  next
    case (9 d) then show ?case using D(9) [of d] by auto
  next
    case (14 t) then show ?case using D(14) [of t] c(3) by auto
  qed (fact D(1-3,5-7,10-13))+
qed

text \<open>Clean-up of a \<open>MultiCoordinator\<close>: an unsatisfied node is unhooked, a satisfied one dropped.\<close>

lemma waits_unhook:
  assumes w: "waits_ok W C S A B X (F(c := (k, x) # f)) c" and x: "x \<in> set (W p)" and b: "\<not> B c"
  shows "waits_ok (W(p := remove1 x (W p))) (C(x := False)) S A B X (F(c := f)) c"
proof -
  note D = waits_okD [OF w]
  have a: "A x = WaitContext c" using D(10) [of k x c] by simp
  have nx: "y \<noteq> x" if "A y = WaitContext d" "d \<noteq> c" for y d using that a by auto
  have mem: "y \<in> set ((W(p := remove1 x (W p))) q) \<longleftrightarrow> y \<in> set (W q) \<and> y \<noteq> x" for y q
    using placedD(1) [OF D(1), of p] placedD(2) [OF D(1) x] by (cases "q = p") auto
  have fr: "(k', y) \<in> set ((F(c := (k, x) # f)) d) \<and> y \<noteq> x" if "(k', y) \<in> set ((F(c := f)) d)" for k' y d
    using that D(7) [of c] D(10) [of k' y d] nx [of y d] by (cases "d = c") force+
  show ?thesis
  proof (rule waits_okI, goal_cases)
    case 1 show ?case by (rule placed_unhook [OF D(1) x])
  next
    case (4 d)
    then obtain y where y: "C y" "A y = WaitContext d" using D(4) by blast
    with 4 b nx [of y d] show ?case by (intro exI [of _ y]) auto
  next
    case (5 y d) then show ?case using D(5) [of y d] by (auto split: if_splits)
  next
    case (7 d) then show ?case using D(7) [of d] D(7) [of c] by (auto split: if_splits)
  next
    case (8 d y) then show ?case using D(8) [of d y] b by (auto split: if_splits)
  next
    case (9 d) then show ?case using D(9) [of d] by (auto split: if_splits)
  next
    case (10 d k' y) then show ?case using D(10) fr by blast
  next
    case (11 d k' y) then show ?case using D(11) [of k' y d] fr [of k' y d] by auto
  next
    case (12 d k' y) then show ?case using D(12) [of k' y d] fr [of k' y d] mem by auto
  next
    case (13 t)
    then have "W (AtLocal t) \<noteq> []" by (cases "p = AtLocal t") auto
    then show ?case by (rule D(13))
  next
    case (14 t)
    then have "W (AtLocal t) \<noteq> []" by (cases "p = AtLocal t") auto
    then show ?case by (rule D(14))
  qed (use D(2,3,6) in \<open>auto split: if_splits\<close>)
qed

lemma waits_drop:
  assumes w: "waits_ok W C S A B X (F(c := (k, x) # f)) c" and x: "S x" and b: "\<not> B c"
  shows "waits_ok W C S A B X (F(c := f)) c"
proof -
  note D = waits_okD [OF w]
  show ?thesis
  proof (rule waits_okI, goal_cases)
    case (5 y d) then show ?case using D(5) [of y d] D(2) [of y] x by (auto split: if_splits)
  next
    case (7 d) then show ?case using D(7) [of d] D(7) [of c] by (auto split: if_splits)
  next
    case (8 d y) then show ?case using D(8) [of d y] b by (auto split: if_splits)
  next
    case (9 d) then show ?case using D(9) [of d] by (auto split: if_splits)
  next
    case (10 d k' y) then show ?case using D(10) [of k' y d] by (auto split: if_splits)
  next
    case (11 d k' y) then show ?case using D(11) [of k' y d] by (auto split: if_splits)
  next
    case (12 d k' y) then show ?case using D(12) [of k' y d] by (auto split: if_splits)
  qed (use D(1-4,6,13,14) in \<open>auto split: if_splits\<close>)
qed

lemma waits_exempt:
  assumes w: "waits_ok W C S A B X F e" and "F e = []"
  shows "waits_ok W C S A B X F e'"
proof (rule waits_okI, goal_cases)
  case (9 c) then show ?case using waits_okD(9) [OF w, of c] assms(2) by auto
qed (fact waits_okD(1-8,10-14) [OF w])+

text \<open>\<open>Notify\<close> steals a wait list; contexts come and go.\<close>

lemma waits_steal:
  assumes w: "waits_ok W C S A B X F e" and t: "W (AtLocal t) = []" "t \<in> X" "\<not> B t"
  shows "waits_ok (W(AtLocal t := W (AtCoord k), AtCoord k := [])) C S A B X F e"
proof -
  note D = waits_okD [OF w]
  show ?thesis
  proof (rule waits_okI, goal_cases)
    case 1 show ?case by (rule placed_steal [OF D(1) t(1)]) simp
  next
    case (12 d k' y)
    from D(12) [OF this] consider "y \<in> set (W (AtCoord k'))" | u where "y \<in> set (W (AtLocal u))" "u \<noteq> t"
      using t(1) by (metis empty_iff list.set(1))
    then show ?case
    proof cases
      case 1 then show ?thesis by (cases "k' = k") auto
    next
      case (2 u) then show ?thesis by (intro disjI2 exI [of _ u]) simp
    qed
  qed (use D(2-11,13,14) t(2,3) in \<open>auto split: if_splits\<close>)
qed

lemma waits_spawn:
  assumes w: "waits_ok W C S A B X F e" and n: "n \<notin> X"
  shows "waits_ok W C S A (B(n := False)) (insert n X) F e"
proof -
  note D = waits_okD [OF w]
  have "F n = []" using D(6) [of n] n by blast
  show ?thesis
  proof (rule waits_okI, goal_cases)
    case (9 d) then show ?case using D(9) [of d] \<open>F n = []\<close> by (cases "d = n") auto
  next
    case (14 t) then show ?case using D(13,14) [of t] n by auto
  next
    case (3 x) then show ?case using D(3) [of x] by blast
  next
    case (4 c) then show ?case using D(4) [of c] by (auto split: if_splits)
  next
    case (6 c) then show ?case using D(6) [of c] by blast
  next
    case (8 c x) then show ?case using D(8) [of c x] by (auto split: if_splits)
  next
    case (13 t) then show ?case using D(13) [of t] by blast
  qed (fact D(1,2,5,7,10-12))+
qed

lemma waits_exit:
  assumes w: "waits_ok W C S A B X F e" and c: "F c = []" "W (AtLocal c) = []"
  shows "waits_ok W C S A B (X - {c}) F e"
proof -
  note D = waits_okD [OF w]
  show ?thesis
  proof (rule waits_okI, goal_cases)
    case (3 x)
    then obtain d where "d \<in> X" "A x = WaitContext d" using D(3) by blast
    moreover from this 3 have "d \<noteq> c" using D(5) [of x d] c(1) by auto
    ultimately show ?case by blast
  next
    case (6 d) then show ?case using D(6) [of d] c(1) by auto
  next
    case (13 t) then show ?case using D(13) [of t] c(2) by auto
  next
    case (4 d) then show ?case using D(4) [of d] by blast
  qed (fact D(1,2,5,7-12,14))+
qed

section \<open>The runtime invariant\<close>

text \<open>Views of the scheduler state.\<close>

definition wl :: "sched \<Rightarrow> place \<Rightarrow> addr list" where
  "wl s p = (case p of AtCoord k \<Rightarrow> blocking s k | AtLocal t \<Rightarrow> m_locals s t)"

definition conn :: "sched \<Rightarrow> addr \<Rightarrow> bool" where
  "conn s x = m_connected (cds s x)"

definition sat :: "sched \<Rightarrow> addr \<Rightarrow> bool" where
  "sat s x = m_satisfied (cds s x)"

definition waiter_of :: "sched \<Rightarrow> addr \<Rightarrow> waiter" where
  "waiter_of s x = m_waiter (cds s x)"

definition blk :: "sched \<Rightarrow> addr \<Rightarrow> bool" where
  "blk s c \<longleftrightarrow> state_of s c = BLOCKED"

lemma wl_simps [simp]:
  "wl s (AtCoord k) = blocking s k" "wl s (AtLocal t) = m_locals s t"
  "wl (set_coord k v s) = (wl s)(AtCoord k := m_blocking v)" "wl (set_cd x w s) = wl s"
  "wl (s\<lparr>m_locals := (m_locals s)(t := xs)\<rparr>) = (wl s)(AtLocal t := xs)"
  "wl (s\<lparr>m_signaled := g\<rparr>) = wl s" "wl (s\<lparr>m_contexts := cs\<rparr>) = wl s" "wl (s\<lparr>ctxs := h\<rparr>) = wl s"
  by (auto simp: wl_def set_coord_def set_cd_def fun_eq_iff split: place.splits)

lemma cd_simps [simp]:
  "conn (set_cd x w s) = (conn s)(x := m_connected w)" "conn (set_coord k v s) = conn s"
  "sat (set_cd x w s) = (sat s)(x := m_satisfied w)" "sat (set_coord k v s) = sat s"
  "waiter_of (set_cd x w s) = (waiter_of s)(x := m_waiter w)" "waiter_of (set_coord k v s) = waiter_of s"
  "blk (set_cd x w s) = blk s" "blk (set_coord k v s) = blk s"
  by (auto simp: conn_def sat_def waiter_of_def blk_def set_cd_def set_coord_def fun_eq_iff)

lemma view_simps [simp]:
  "conn (s\<lparr>m_locals := l\<rparr>) = conn s" "sat (s\<lparr>m_locals := l\<rparr>) = sat s" "waiter_of (s\<lparr>m_locals := l\<rparr>) = waiter_of s"
  "blk (s\<lparr>m_locals := l\<rparr>) = blk s" "conn (s\<lparr>m_signaled := g\<rparr>) = conn s" "sat (s\<lparr>m_signaled := g\<rparr>) = sat s"
  "waiter_of (s\<lparr>m_signaled := g\<rparr>) = waiter_of s" "blk (s\<lparr>m_signaled := g\<rparr>) = blk s"
  "conn (s\<lparr>m_contexts := cs\<rparr>) = conn s" "sat (s\<lparr>m_contexts := cs\<rparr>) = sat s"
  "waiter_of (s\<lparr>m_contexts := cs\<rparr>) = waiter_of s" "blk (s\<lparr>m_contexts := cs\<rparr>) = blk s"
  "conn (s\<lparr>ctxs := h\<rparr>) = conn s" "sat (s\<lparr>ctxs := h\<rparr>) = sat s" "waiter_of (s\<lparr>ctxs := h\<rparr>) = waiter_of s"
  by (auto simp: conn_def sat_def waiter_of_def blk_def fun_eq_iff)

lemma set_coord_simps [simp]:
  "coords (set_coord k v s) = (coords s)(k := v)" "cds (set_coord k v s) = cds s"
  "m_signaled (set_coord k v s) = m_signaled s" "m_contexts (set_coord k v s) = m_contexts s"
  "m_yielded (set_coord k v s) = m_yielded s" "m_blocked (set_coord k v s) = m_blocked s"
  "m_scheduled (set_coord k v s) = m_scheduled s" "m_locals (set_coord k v s) = m_locals s"
  "m_pendingContinuations (set_coord k v s) = m_pendingContinuations s" "m_inThunk (set_coord k v s) = m_inThunk s"
  "state_of (set_coord k v s) = state_of s" "ctxs (set_coord k v s) = ctxs s"
  by (simp_all add: set_coord_def state_of_def fun_eq_iff)

lemma set_cd_simps [simp]:
  "coords (set_cd x v s) = coords s" "cds (set_cd x v s) = (cds s)(x := v)"
  "m_signaled (set_cd x v s) = m_signaled s" "m_contexts (set_cd x v s) = m_contexts s"
  "m_yielded (set_cd x v s) = m_yielded s" "m_blocked (set_cd x v s) = m_blocked s"
  "m_scheduled (set_cd x v s) = m_scheduled s" "m_locals (set_cd x v s) = m_locals s"
  "m_pendingContinuations (set_cd x v s) = m_pendingContinuations s" "m_inThunk (set_cd x v s) = m_inThunk s"
  "state_of (set_cd x v s) = state_of s" "ctxs (set_cd x v s) = ctxs s"
  by (simp_all add: set_cd_def state_of_def fun_eq_iff)

lemma same_waits_views:
  assumes "same_waits s s'"
  shows "wl s' = wl s" "conn s' = conn s" "sat s' = sat s" "waiter_of s' = waiter_of s"
  using assms by (auto simp: same_waits_def wl_def conn_def sat_def waiter_of_def fun_eq_iff split: place.splits)

text \<open>
  \<open>sg\<close> tells which coordinators belong to signals. The parts: the scheduler lists; who waits for
  what; a coordinator with waiters is held; a signal is held while armed and, once notified, neither
  held nor waited for; a node of a pending multi-coordination on an armed signal is on its list; no
  continuations.
\<close>

definition coords_ok :: "(addr \<Rightarrow> bool) \<Rightarrow> sched \<Rightarrow> bool" where
  "coords_ok sg s \<longleftrightarrow> (\<forall>k. blocking s k \<noteq> [] \<longrightarrow> held s k) \<and>
     (\<forall>k. sg k \<longrightarrow> (if m_signaled s k then \<not> held s k \<and> blocking s k = [] else held s k))"

definition armed_ok :: "(addr \<Rightarrow> bool) \<Rightarrow> sched \<Rightarrow> (addr \<Rightarrow> mc) \<Rightarrow> bool" where
  "armed_ok sg s F \<longleftrightarrow> (\<forall>c k x. (k, x) \<in> set (F c) \<longrightarrow> sg k \<longrightarrow> \<not> m_signaled s k \<longrightarrow> x \<in> set (blocking s k))"

definition rt_inv :: "(addr \<Rightarrow> bool) \<Rightarrow> sched \<Rightarrow> (addr \<Rightarrow> mc) \<Rightarrow> addr \<Rightarrow> bool" where
  "rt_inv sg s F e \<longleftrightarrow> sched_inv s \<and>
     waits_ok (wl s) (conn s) (sat s) (waiter_of s) (blk s) (set (m_contexts s)) F e \<and>
     coords_ok sg s \<and> armed_ok sg s F \<and> m_pendingContinuations s = [] \<and> \<not> m_inThunk s"

lemma rt_invD:
  assumes "rt_inv sg s F e"
  shows "sched_inv s" "waits_ok (wl s) (conn s) (sat s) (waiter_of s) (blk s) (set (m_contexts s)) F e"
    "coords_ok sg s" "armed_ok sg s F" "m_pendingContinuations s = []" "\<not> m_inThunk s"
  using assms by (simp_all add: rt_inv_def)

text \<open>A switch that changes which contexts are blocked, and nothing the waits depend on.\<close>

lemma rt_inv_moved:
  assumes m: "moved s s' P" and s: "coords_ok sg s" "armed_ok sg s F" "m_pendingContinuations s = []" "\<not> m_inThunk s"
    and w: "waits_ok (wl s) (conn s) (sat s) (waiter_of s) P (set (m_contexts s)) F e"
  shows "rt_inv sg s' F e"
proof -
  have sw: "same_waits s s'" by (rule movedD(2) [OF m])
  have "blk s' = P" using movedD(3) [OF m] by (auto simp: blk_def)
  moreover have "m_contexts s' = m_contexts s" "coords s' = coords s" "m_signaled s' = m_signaled s"
    using sw by (simp_all add: same_waits_def)
  ultimately show ?thesis
    using movedD(1) [OF m] s w sw by (simp add: rt_inv_def same_waits_views [OF sw] coords_ok_def armed_ok_def same_waits_def)
qed

lemma waiter_is_context:
  assumes "waits_ok W C S A B X F e" and "x \<in> set (W p)"
  obtains c where "A x = WaitContext c" "c \<in> X"
  using waits_okD(1,3) [OF assms(1)] placedD(3) assms(2) by blast

text \<open>
  Waking a node just popped from \<open>p\<close>. \<open>W\<close> and \<open>C\<close> are the views before the pop.
\<close>

lemma WakeWaiter_ok:
  assumes w: "waits_ok W C (sat s) (waiter_of s) (blk s) (set (m_contexts s)) F e" and x: "x \<in> set (W p)"
    and s: "wl s = W(p := remove1 x (W p))" "conn s = C(x := False)" "sched_inv s" "coords_ok sg s" "armed_ok sg s F"
      "m_pendingContinuations s = []" "\<not> m_inThunk s"
    and r: "schedule \<Longrightarrow> m_scheduled s \<noteq> null"
  shows "\<exists>s' c. WakeWaiter x schedule s = Some s' \<and> rt_inv sg s' F e \<and> coords s' = coords s \<and>
    m_signaled s' = m_signaled s \<and> m_contexts s' = m_contexts s \<and> m_locals s' = m_locals s \<and>
    waiter_of s x = WaitContext c \<and> m_scheduled s' = (if schedule \<and> blk s c then c else m_scheduled s) \<and>
    \<not> blk s' c \<and> length (m_yielded s) \<le> length (m_yielded s') \<and> waiter_of s' = waiter_of s"
proof -
  obtain c where c: "waiter_of s x = WaitContext c" "c \<in> set (m_contexts s)" by (rule waiter_is_context [OF w x])
  let ?s = "set_cd x ((cds s x)\<lparr>m_satisfied := True\<rparr>) s"
  have inv: "sched_inv ?s" using s(3) by (simp add: sched_inv_def)
  obtain s' where s': "Unblock c schedule ?s = Some s'" "moved ?s s' (\<lambda>d. d \<noteq> c \<and> state_of s d = BLOCKED)"
    "m_scheduled s' = (if schedule \<and> state_of s c = BLOCKED then c else m_scheduled s)"
    "length (m_yielded s) \<le> length (m_yielded s')"
    using Unblock_ok [OF inv, of c schedule] c(2) r by auto
  have v: "waiter_of ?s = waiter_of s" "conn ?s = C(x := False)"
    using s(2) by (auto simp: waiter_of_def conn_def fun_eq_iff)
  have "waits_ok (wl ?s) (conn ?s) (sat ?s) (waiter_of ?s) (\<lambda>d. d \<noteq> c \<and> state_of s d = BLOCKED) (set (m_contexts s)) F e"
    unfolding v using waits_wake [OF w x c(1)] by (simp add: s(1) blk_def)
  moreover have "coords_ok sg ?s" "armed_ok sg ?s F" using s(4,5) by (simp_all add: coords_ok_def armed_ok_def)
  ultimately have "rt_inv sg s' F e" using rt_inv_moved [OF s'(2), of sg F e] s(6,7) by simp
  moreover have "WakeWaiter x schedule s = Some s'" using c(1) s'(1) by (simp add: WakeWaiter_def waiter_of_def)
  moreover have "\<not> blk s' c" using movedD(3) [OF s'(2), of c] by (simp add: blk_def)
  moreover have "waiter_of s' = waiter_of s" using same_waits_views(4) [OF movedD(2) [OF s'(2)]] v(1) by simp
  ultimately show ?thesis
    using s'(3,4) movedD(2) [OF s'(2)] c(1) by (auto simp: same_waits_def blk_def)
qed

section \<open>Releasing and notifying\<close>

text \<open>What releasing, waking and notifying leave alone when they do not switch.\<close>

definition quiet :: "sched \<Rightarrow> sched \<Rightarrow> bool" where
  "quiet s s' \<longleftrightarrow> m_contexts s' = m_contexts s \<and> m_scheduled s' = m_scheduled s \<and>
     length (m_yielded s) \<le> length (m_yielded s')"

lemma quiet_refl [simp]: "quiet s s"
  by (simp add: quiet_def)

lemma quiet_trans: "quiet s s1 \<Longrightarrow> quiet s1 s2 \<Longrightarrow> quiet s s2"
  by (simp add: quiet_def)

lemma Release_ok:
  assumes inv: "rt_inv sg s F e" and k: "sg k \<Longrightarrow> \<not> held s k" and r: "schedule \<Longrightarrow> m_scheduled s \<noteq> null"
  shows "\<exists>s'. Release k schedule s = Some s' \<and> rt_inv sg s' F e \<and> m_contexts s' = m_contexts s \<and>
    m_locals s' = m_locals s \<and> m_signaled s' = m_signaled s \<and> (\<not> schedule \<longrightarrow> quiet s s') \<and>
    (\<forall>k'. k' \<noteq> k \<longrightarrow> coords s' k' = coords s k') \<and> blocking s' k = (if held s k then tl (blocking s k) else blocking s k) \<and>
    (held s' k \<longleftrightarrow> held s k \<and> blocking s k \<noteq> []) \<and> waiter_of s' = waiter_of s \<and>
    (\<forall>x xs c. held s k \<longrightarrow> blocking s k = x # xs \<longrightarrow> waiter_of s x = WaitContext c \<longrightarrow>
       \<not> blk s' c \<and> m_scheduled s' = (if schedule \<and> blk s c then c else m_scheduled s))"
proof -
  note D = rt_invD [OF inv]
  show ?thesis
  proof (cases "held s k")
    case False
    then show ?thesis using inv by (auto simp: Release_def)
  next
    case h: True
    then have ns: "\<not> sg k" using k by blast
    show ?thesis
    proof (cases "blocking s k")
      case Nil
      let ?s = "set_coord k ((coords s k)\<lparr>m_held := False\<rparr>) s"
      have "wl ?s = wl s" by (auto simp: wl_def fun_eq_iff split: place.splits)
      moreover have "coords_ok sg ?s" "armed_ok sg ?s F" "sched_inv ?s"
        using D(1,3,4) Nil ns by (auto simp: coords_ok_def armed_ok_def sched_inv_def)
      ultimately have "rt_inv sg ?s F e" using D(2,5,6) by (simp add: rt_inv_def)
      then show ?thesis using h Nil by (simp add: Release_def quiet_def)
    next
      case (Cons x xs)
      define s0 where "s0 = set_coord k \<lparr>m_held = True, m_blocking = xs\<rparr> (set_cd x ((cds s x)\<lparr>m_connected := False\<rparr>) s)"
      have x: "x \<in> set (wl s (AtCoord k))" using Cons by simp
      obtain c where c: "waiter_of s x = WaitContext c" by (rule waiter_is_context [OF D(2) x])
      have same: "sat s0 = sat s" "waiter_of s0 = waiter_of s" by (auto simp: s0_def sat_def waiter_of_def fun_eq_iff)
      have w: "waits_ok (wl s) (conn s) (sat s0) (waiter_of s0) (blk s0) (set (m_contexts s0)) F e"
        using D(2) unfolding same by (simp add: s0_def)
      have v: "wl s0 = (wl s)(AtCoord k := remove1 x (wl s (AtCoord k)))" "conn s0 = (conn s)(x := False)"
        "sched_inv s0" "coords_ok sg s0" "armed_ok sg s0 F" "m_pendingContinuations s0 = []" "\<not> m_inThunk s0"
        using Cons D(1,3-6) ns by (auto simp: s0_def coords_ok_def armed_ok_def sched_inv_def)
      have r0: "schedule \<Longrightarrow> m_scheduled s0 \<noteq> null" using r by (simp add: s0_def)
      obtain s' c' where s': "WakeWaiter x schedule s0 = Some s'" "rt_inv sg s' F e" "coords s' = coords s0"
        "m_signaled s' = m_signaled s0" "m_contexts s' = m_contexts s0" "m_locals s' = m_locals s0"
        "m_scheduled s' = (if schedule \<and> blk s0 c' then c' else m_scheduled s0)" "length (m_yielded s0) \<le> length (m_yielded s')"
        "waiter_of s' = waiter_of s0" "waiter_of s0 x = WaitContext c'" "\<not> blk s' c'"
        using WakeWaiter_ok [OF w x v r0] by blast
      have "Release k schedule s = Some s'"
        using h Cons c s'(1)
        by (simp add: s0_def Release_def ReleaseToNext_def pop_waiter_def is_continuation_def waiter_of_def set_coord_def set_cd_def)
      moreover have "waiter_of s' = waiter_of s" using s'(9) same(2) by simp
      moreover have "c' = c" using s'(10) c unfolding same(2) by simp
      moreover have "blk s0 = blk s" "m_scheduled s0 = m_scheduled s" by (simp_all add: s0_def)
      moreover have "\<forall>y ys d. held s k \<longrightarrow> blocking s k = y # ys \<longrightarrow> waiter_of s y = WaitContext d \<longrightarrow>
        \<not> blk s' d \<and> m_scheduled s' = (if schedule \<and> blk s d then d else m_scheduled s)"
        using s'(7,11) calculation(3-) Cons c by simp
      ultimately show ?thesis using s'(2-8) Cons h by (intro exI [of _ s']) (simp add: quiet_def s0_def)
    qed
  qed
qed

lemma Poll_ok:
  assumes "rt_inv sg s F e" and "list_all (\<lambda>k. \<not> sg k) ks"
  shows "\<exists>s'. Poll ks s = Some s' \<and> rt_inv sg s' F e \<and> quiet s s' \<and> m_locals s' = m_locals s \<and>
    (\<forall>k. k \<notin> set ks \<longrightarrow> coords s' k = coords s k)"
  using assms
proof (induction ks arbitrary: s)
  case (Cons k ks)
  then obtain s1 where s1: "Release k False s = Some s1" "rt_inv sg s1 F e" "quiet s s1" "m_locals s1 = m_locals s"
    "\<forall>k'. k' \<noteq> k \<longrightarrow> coords s1 k' = coords s k'"
    using Release_ok [of sg s F e k False] by auto
  from Cons.IH [OF s1(2)] Cons.prems(2) obtain s2 where "Poll ks s1 = Some s2" "rt_inv sg s2 F e" "quiet s1 s2"
    "m_locals s2 = m_locals s1" "\<forall>k. k \<notin> set ks \<longrightarrow> coords s2 k = coords s1 k" by auto
  with s1 quiet_trans [OF s1(3)] show ?case by (intro exI [of _ s2]) simp
qed simp

lemma TryAcquire_ok:
  assumes inv: "rt_inv sg s F e" and k: "\<not> sg k"
  shows "rt_inv sg (snd (TryAcquire k s)) F e" and "held (snd (TryAcquire k s)) k"
    and "m_scheduled (snd (TryAcquire k s)) = m_scheduled s" "m_contexts (snd (TryAcquire k s)) = m_contexts s"
    "m_locals (snd (TryAcquire k s)) = m_locals s"
proof -
  let ?s = "set_coord k ((coords s k)\<lparr>m_held := True\<rparr>) s"
  have "wl ?s = wl s" by (auto simp: wl_def fun_eq_iff split: place.splits)
  moreover have "coords_ok sg ?s" "armed_ok sg ?s F" "sched_inv ?s"
    using rt_invD(1,3,4) [OF inv] k by (auto simp: coords_ok_def armed_ok_def sched_inv_def)
  ultimately have "rt_inv sg ?s F e" using rt_invD(2,5,6) [OF inv] by (simp add: rt_inv_def)
  then show "rt_inv sg (snd (TryAcquire k s)) F e" using inv by (simp add: TryAcquire_def)
qed (auto simp: TryAcquire_def)

text \<open>
  The drain loop on \<open>t\<close>: it ends with the local list empty, or with a waiter running in the place of \<open>t\<close>.
\<close>

lemma notify_loop_ok:
  assumes "rt_inv sg s F e" and "length (m_locals s t) \<le> n" and "schedule \<Longrightarrow> m_scheduled s \<noteq> null"
  shows "\<exists>s'. notify_loop n t schedule s = Some s' \<and> rt_inv sg s' F e \<and> m_contexts s' = m_contexts s \<and>
    coords s' = coords s \<and> m_signaled s' = m_signaled s \<and> (\<forall>t'. t' \<noteq> t \<longrightarrow> m_locals s' t' = m_locals s t') \<and>
    (m_scheduled s' = m_scheduled s \<longrightarrow> m_locals s' t = []) \<and> (\<not> schedule \<longrightarrow> quiet s s')"
  using assms
proof (induction n arbitrary: s)
  case (Suc n)
  note D = rt_invD [OF Suc.prems(1)]
  show ?case
  proof (cases "m_locals s t")
    case (Cons x xs)
    define s0 where "s0 = set_cd x ((cds s x)\<lparr>m_connected := False\<rparr>) (s\<lparr>m_locals := (m_locals s)(t := xs)\<rparr>)"
    have x: "x \<in> set (wl s (AtLocal t))" using Cons by simp
    have same: "sat s0 = sat s" "waiter_of s0 = waiter_of s" by (auto simp: s0_def sat_def waiter_of_def fun_eq_iff)
    have w: "waits_ok (wl s) (conn s) (sat s0) (waiter_of s0) (blk s0) (set (m_contexts s0)) F e"
      using D(2) unfolding same by (simp add: s0_def)
    have v: "wl s0 = (wl s)(AtLocal t := remove1 x (wl s (AtLocal t)))" "conn s0 = (conn s)(x := False)"
      "sched_inv s0" "coords_ok sg s0" "armed_ok sg s0 F" "m_pendingContinuations s0 = []" "\<not> m_inThunk s0"
      using Cons D(1,3-6) by (auto simp: s0_def coords_ok_def armed_ok_def sched_inv_def)
    have r0: "schedule \<Longrightarrow> m_scheduled s0 \<noteq> null" using Suc.prems(3) by (simp add: s0_def)
    obtain s1 c where s1': "WakeWaiter x schedule s0 = Some s1" "rt_inv sg s1 F e" "coords s1 = coords s0"
      "m_signaled s1 = m_signaled s0" "m_contexts s1 = m_contexts s0" "m_locals s1 = m_locals s0"
      "m_scheduled s1 = (if schedule \<and> blk s0 c then c else m_scheduled s0)" "length (m_yielded s0) \<le> length (m_yielded s1)"
      using WakeWaiter_ok [OF w x v r0] by blast
    then have s1: "rt_inv sg s1 F e" "coords s1 = coords s" "m_signaled s1 = m_signaled s" "m_contexts s1 = m_contexts s"
      "m_locals s1 = (m_locals s)(t := xs)" "\<not> schedule \<Longrightarrow> m_scheduled s1 = m_scheduled s"
      "length (m_yielded s) \<le> length (m_yielded s1)" by (simp_all add: s0_def)
    have step: "notify_loop (Suc n) t schedule s = (if m_scheduled s1 = m_scheduled s then notify_loop n t schedule s1 else Some s1)"
      using Cons s1'(1) by (simp add: s0_def pop_waiter_def)
    show ?thesis
    proof (cases "m_scheduled s1 = m_scheduled s")
      case True
      have le: "length (m_locals s1 t) \<le> n" using Suc.prems(2) Cons s1(5) by simp
      have r1: "schedule \<Longrightarrow> m_scheduled s1 \<noteq> null" using Suc.prems(3) True by simp
      from Suc.IH [OF s1(1) le r1] obtain s' where s': "notify_loop n t schedule s1 = Some s'" "rt_inv sg s' F e"
        "m_contexts s' = m_contexts s1" "coords s' = coords s1" "m_signaled s' = m_signaled s1"
        "\<forall>t'. t' \<noteq> t \<longrightarrow> m_locals s' t' = m_locals s1 t'" "m_scheduled s' = m_scheduled s1 \<longrightarrow> m_locals s' t = []"
        "\<not> schedule \<longrightarrow> quiet s1 s'" by blast
      have "quiet s s1" using True s1(4,7) by (simp add: quiet_def)
      with s'(8) have "\<not> schedule \<longrightarrow> quiet s s'" using quiet_trans by blast
      then show ?thesis using step True s' s1 by (intro exI [of _ s']) simp
    next
      case False
      then have "schedule" using s1(6) by blast
      with False show ?thesis using step s1 by (intro exI [of _ s1]) simp
    qed
  qed (use Suc.prems in auto)
qed auto

lemma Notify_ok:
  assumes inv: "rt_inv sg s F e" and k: "sg k" and t: "m_locals s t = []" "t \<in> set (m_contexts s)" "\<not> blk s t"
    and r: "schedule \<Longrightarrow> m_scheduled s \<noteq> null"
  shows "\<exists>s'. Notify k t schedule s = Some s' \<and> rt_inv sg s' F e \<and> m_contexts s' = m_contexts s \<and>
    m_signaled s' = (m_signaled s)(k := True) \<and> coords s' = (coords s)(k := \<lparr>m_held = False, m_blocking = []\<rparr>) \<and>
    (\<forall>t'. t' \<noteq> t \<longrightarrow> m_locals s' t' = m_locals s t') \<and>
    (m_scheduled s' = m_scheduled s \<longrightarrow> m_locals s' t = []) \<and> (\<not> schedule \<longrightarrow> quiet s s')"
proof -
  note D = rt_invD [OF inv]
  let ?s = "set_coord k \<lparr>m_held = False, m_blocking = []\<rparr>
     (s\<lparr>m_signaled := (m_signaled s)(k := True), m_locals := (m_locals s)(t := blocking s k)\<rparr>)"
  have wl: "wl ?s = (wl s)(AtLocal t := wl s (AtCoord k), AtCoord k := [])"
    by (auto simp: wl_def fun_eq_iff split: place.splits)
  have "waits_ok (wl ?s) (conn ?s) (sat ?s) (waiter_of ?s) (blk ?s) (set (m_contexts ?s)) F e"
    unfolding wl using waits_steal [OF D(2), of t k] t by simp
  moreover have "coords_ok sg ?s" "armed_ok sg ?s F" "sched_inv ?s"
    using D(1,3,4) by (auto simp: coords_ok_def armed_ok_def sched_inv_def)
  ultimately have "rt_inv sg ?s F e" using D(5,6) by (simp add: rt_inv_def)
  from notify_loop_ok [OF this, of t "length (blocking s k)" schedule] r t(1) show ?thesis
    by (auto simp: Notify_def quiet_def Let_def)
qed

lemma Notify_resume_ok:
  assumes "rt_inv sg s F e" and "schedule \<Longrightarrow> m_scheduled s \<noteq> null"
  shows "\<exists>s'. Notify_resume t schedule s = Some s' \<and> rt_inv sg s' F e \<and>
    (m_scheduled s' = m_scheduled s \<longrightarrow> m_locals s' t = [])"
  using notify_loop_ok [OF assms(1), of t "length (m_locals s t)" schedule] assms(2) unfolding Notify_resume_def by blast

end
