(* ===== verification/Multi_Coordination.thy ===== *)
theory Multi_Coordination
  imports Coordination
begin

text \<open>
  Blocking: \<open>Coordinator::Acquire\<close>, \<open>MultiCoordinator::Acquire\<close>, and \<open>CoordinateWith\<close> and
  \<open>CoordinateWithKill\<close> on top of them (\<open>coop/coordinate_with.h\<close>). A blocking call is two operations,
  up to the switch and behind it; between them the nodes it hooked are the frame of the context.
\<close>

section \<open>CoordinateWith\<close>

text \<open>
  \<open>sg k\<close> says that the argument is a \<open>Signal*\<close> (a compile-time test in the code); the winning signal's
  coordinator is reset.
\<close>

definition maybeReset :: "(addr \<Rightarrow> bool) \<Rightarrow> nat \<Rightarrow> mc \<Rightarrow> sched \<Rightarrow> sched" where
  "maybeReset sg i f s = (if sg (fst (f ! i)) then ResetCoordinator (fst (f ! i)) s else s)"

text \<open>The single-argument case is \<open>Acquire\<close> without a \<open>MultiCoordinator\<close>.\<close>

definition CoordinateWith_begin :: "(addr \<Rightarrow> bool) \<Rightarrow> mc \<Rightarrow> addr \<Rightarrow> sched \<Rightarrow> (nat option \<times> sched) option" where
  "CoordinateWith_begin sg f c s = (case f of
       [(k, x)] \<Rightarrow> if held s k then map_option (Pair None) (Acquire k c x s)
                   else map_option (\<lambda>s1. (Some 0, maybeReset sg 0 f s1)) (Acquire k c x s)
     | _ \<Rightarrow> do {
         (r, s1) \<leftarrow> mc_acquire f c s;
         Some (r, case r of None \<Rightarrow> s1 | Some i \<Rightarrow> maybeReset sg i f s1) })"

text \<open>Behind the switch: the destructor of the single \<open>Coordinated\<close>, or the clean-up.\<close>

definition CoordinateWith_end :: "(addr \<Rightarrow> bool) \<Rightarrow> mc \<Rightarrow> sched \<Rightarrow> (nat \<times> sched) option" where
  "CoordinateWith_end sg f s = (case f of
       [(k, x)] \<Rightarrow> do { assert_that (\<not> m_connected (cds s x)); Some (0, maybeReset sg 0 f s) }
     | _ \<Rightarrow> do { (i, s1) \<leftarrow> mc_complete f s; Some (i, maybeReset sg i f s1) })"

datatype CoordinationResult = Killed | TimedOut | Error | Coordinated_by nat

text \<open>
  \<open>CoordinateWithKill\<close> on one coordinator: the fast path, or \<open>CoordinateWith\<close> with the kill signal first
  (\<open>kx\<close> is its \<open>Coordinated\<close>). \<open>Inl\<close> is a result, \<open>Inr\<close> the frame the context blocked on.
\<close>

definition kill_result :: "nat \<Rightarrow> CoordinationResult" where
  "kill_result i = (if i = 0 then Killed else Coordinated_by (i - 1))"

definition CoordinateWithKill_begin :: "(addr \<Rightarrow> bool) \<Rightarrow> addr \<Rightarrow> addr \<Rightarrow> addr \<Rightarrow> addr \<Rightarrow> sched \<Rightarrow>
    ((CoordinationResult + mc) \<times> sched) option" where
  "CoordinateWithKill_begin sg k x kx c s =
     (let sig = m_killedSignal (ctxs s c); f = [(sig, kx), (k, x)] in
      if m_signaled s sig then Some (Inl Killed, s)
      else case TryAcquire k s of
          (True, s1) \<Rightarrow> Some (Inl (Coordinated_by 0), s1)
        | (False, s1) \<Rightarrow> do {
            (r, s2) \<leftarrow> CoordinateWith_begin sg f c s1;
            Some (case r of None \<Rightarrow> Inr f | Some i \<Rightarrow> Inl (kill_result i), s2) })"

definition CoordinateWithKill_end :: "(addr \<Rightarrow> bool) \<Rightarrow> mc \<Rightarrow> sched \<Rightarrow> (CoordinationResult \<times> sched) option" where
  "CoordinateWithKill_end sg f s = map_option (\<lambda>(i, s1). (kill_result i, s1)) (CoordinateWith_end sg f s)"

section \<open>Hooking and blocking\<close>

abbreviation node_for :: "addr \<Rightarrow> coordinated" where
  "node_for c \<equiv> \<lparr>m_waiter = WaitContext c, m_satisfied = False, m_connected = False\<rparr>"

lemma frame_snoc:
  "(k', y) \<in> set ((F(c := g @ [(k, x)])) d) \<longleftrightarrow> (k', y) \<in> set ((F(c := g)) d) \<or> (d = c \<and> k' = k \<and> y = x)"
  "y \<in> snd ` set ((F(c := g @ [(k, x)])) d) \<longleftrightarrow> y \<in> snd ` set ((F(c := g)) d) \<or> (d = c \<and> y = x)"
  by auto

lemma armed_okD: "armed_ok sg s F \<Longrightarrow> (k, x) \<in> set (F c) \<Longrightarrow> sg k \<Longrightarrow> \<not> m_signaled s k \<Longrightarrow> x \<in> set (blocking s k)"
  by (simp add: armed_ok_def)

lemma hook_ok:
  assumes inv: "rt_inv sg s (F(c := g)) c" and c: "c \<in> set (m_contexts s)" "\<not> blk s c"
    and x: "\<not> conn s x" "\<And>d. x \<notin> snd ` set ((F(c := g)) d)" and k: "held s k"
  shows "\<exists>s'. AddAsBlocked k x (set_cd x (node_for c) s) = Some s' \<and> rt_inv sg s' (F(c := g @ [(k, x)])) c \<and>
    quiet s s' \<and> m_locals s' = m_locals s \<and> blk s' = blk s \<and> (\<forall>k'. held s' k' = held s k') \<and>
    conn s' = (conn s)(x := True) \<and> sat s' = (sat s)(x := False) \<and> (\<forall>k'. k' \<noteq> k \<longrightarrow> coords s' k' = coords s k')"
proof -
  note D = rt_invD [OF inv]
  let ?s1 = "set_cd x (node_for c\<lparr>m_connected := True\<rparr>) s"
  define s' where "s' = set_coord k ((coords s k)\<lparr>m_blocking := blocking s k @ [x]\<rparr>) ?s1"
  have v: "wl s' = (wl s)(AtCoord k := wl s (AtCoord k) @ [x])" "conn s' = (conn s)(x := True)"
    "sat s' = (sat s)(x := False)" "waiter_of s' = (waiter_of s)(x := WaitContext c)" "blk s' = blk s"
    by (simp_all add: s'_def)
  have "waits_ok (wl s') (conn s') (sat s') (waiter_of s') (blk s') (set (m_contexts s')) (F(c := g @ [(k, x)])) c"
    unfolding v using waits_hook [OF D(2) c x, of k] by (simp add: s'_def)
  moreover have "coords_ok sg s'" using D(3) k by (auto simp: s'_def coords_ok_def)
  moreover have "armed_ok sg s' (F(c := g @ [(k, x)]))"
    unfolding armed_ok_def
  proof (intro allI impI)
    fix d k' y assume "(k', y) \<in> set ((F(c := g @ [(k, x)])) d)" and "sg k'" "\<not> m_signaled s' k'"
    then show "y \<in> set (blocking s' k')"
      unfolding frame_snoc using armed_okD [OF D(4), of k' y d] by (auto simp: s'_def simp del: fun_upd_apply) (auto simp: fun_upd_apply)
  qed
  moreover have "sched_inv s'" using D(1) by (simp add: s'_def sched_inv_def)
  ultimately have "rt_inv sg s' (F(c := g @ [(k, x)])) c" using D(5,6) by (simp add: rt_inv_def s'_def)
  moreover have "AddAsBlocked k x (set_cd x (node_for c) s) = Some s'"
    by (simp add: AddAsBlocked_def s'_def set_cd_def set_coord_def Let_def)
  ultimately show ?thesis using v by (intro exI [of _ s']) (simp add: s'_def quiet_def)
qed

lemma mc_hook_ok:
  assumes "rt_inv sg s (F(c := g)) c" and "c \<in> set (m_contexts s)" "\<not> blk s c" and "distinct (map snd f)"
    and "\<And>x. x \<in> snd ` set f \<Longrightarrow> \<not> conn s x \<and> (\<forall>d. x \<notin> snd ` set ((F(c := g)) d))"
    and "\<And>k. k \<in> fst ` set f \<Longrightarrow> held s k"
  shows "\<exists>s'. mc_hook f c s = Some s' \<and> rt_inv sg s' (F(c := g @ f)) c \<and> quiet s s' \<and> m_locals s' = m_locals s \<and>
    blk s' = blk s \<and> (\<forall>x. sat s' x = (sat s x \<and> x \<notin> snd ` set f)) \<and>
    (\<forall>k. k \<notin> fst ` set f \<longrightarrow> coords s' k = coords s k)"
  using assms
proof (induction f arbitrary: s g)
  case (Cons kx f)
  obtain k x where kx: "kx = (k, x)" by (cases kx)
  have fresh: "\<not> conn s x" "x \<notin> snd ` set ((F(c := g)) d)" for d using Cons.prems(5) [of x] by (auto simp: kx)
  obtain s1 where s1: "AddAsBlocked k x (set_cd x (node_for c) s) = Some s1" "rt_inv sg s1 (F(c := g @ [(k, x)])) c"
    "quiet s s1" "m_locals s1 = m_locals s" "blk s1 = blk s" "\<And>k'. held s1 k' = held s k'"
    "conn s1 = (conn s)(x := True)" "sat s1 = (sat s)(x := False)" "\<forall>k'. k' \<noteq> k \<longrightarrow> coords s1 k' = coords s k'"
    using hook_ok [OF Cons.prems(1-3) fresh, of k] Cons.prems(6) [of k] by (auto simp: kx)
  have ctx: "c \<in> set (m_contexts s1)" "\<not> blk s1 c" using Cons.prems(2,3) s1(3,5) by (simp_all add: quiet_def)
  have dis: "distinct (map snd f)" and xf: "x \<notin> snd ` set f" using Cons.prems(4) by (auto simp: kx)
  have fr: "\<not> conn s1 y \<and> (\<forall>d. y \<notin> snd ` set ((F(c := g @ [(k, x)])) d))" if "y \<in> snd ` set f" for y
  proof -
    have "y \<noteq> x" using that xf by blast
    moreover have "\<not> conn s y" "\<And>d. y \<notin> snd ` set ((F(c := g)) d)" using Cons.prems(5) [of y] that by auto
    ultimately show ?thesis unfolding s1(7) frame_snoc by auto
  qed
  have hd: "held s1 k'" if "k' \<in> fst ` set f" for k' using Cons.prems(6) [of k'] that s1(6) by auto
  from Cons.IH [OF s1(2) ctx dis fr hd] obtain s' where
    s': "mc_hook f c s1 = Some s'" "rt_inv sg s' (F(c := (g @ [(k, x)]) @ f)) c" "quiet s1 s'" "m_locals s' = m_locals s1"
      "blk s' = blk s1" "\<forall>y. sat s' y = (sat s1 y \<and> y \<notin> snd ` set f)"
      "\<forall>k. k \<notin> fst ` set f \<longrightarrow> coords s' k = coords s1 k" by blast
  have "(cds s x)\<lparr>m_waiter := WaitContext c, m_satisfied := False\<rparr> = node_for c"
    using fresh(1) by (simp add: conn_def)
  then have "mc_hook (kx # f) c s = Some s'" using s1(1) s'(1) by (simp add: kx)
  moreover have "\<forall>y. sat s' y = (sat s y \<and> y \<notin> snd ` set (kx # f))" using s'(6) s1(8) by (auto simp: kx)
  moreover have "rt_inv sg s' (F(c := g @ kx # f)) c" using s'(2) by (simp only: kx append_assoc append_Cons append_Nil)
  moreover have "m_locals s' = m_locals s" "blk s' = blk s" using s'(4,5) s1(4,5) by simp_all
  moreover have "\<forall>k'. k' \<notin> fst ` set (kx # f) \<longrightarrow> coords s' k' = coords s k'" using s'(7) s1(9) by (auto simp: kx)
  ultimately show ?case using quiet_trans [OF s1(3) s'(3)] by blast
qed auto

lemma block_ok:
  assumes inv: "rt_inv sg s F c" and c: "m_scheduled s = c" "c \<noteq> null" "F c \<noteq> []" "m_locals s c = []"
    and f: "\<And>x. x \<in> snd ` set (F c) \<Longrightarrow> \<not> sat s x"
  shows "\<exists>s'. Context_Block c s = Some s' \<and> rt_inv sg s' F e \<and> m_contexts s' = m_contexts s \<and> blk s' c \<and>
    coords s' = coords s"
proof -
  note D = rt_invD [OF inv]
  obtain s' where s': "Context_Block c s = Some s'" "moved s s' (\<lambda>d. d = c \<or> state_of s d = BLOCKED)"
    using Context_Block_ok [OF D(1) c(1,2) D(6)] by blast
  have "waits_ok (wl s) (conn s) (sat s) (waiter_of s) (\<lambda>d. d = c \<or> state_of s d = BLOCKED) (set (m_contexts s)) F e"
    using waits_block [OF D(2) c(3) f] c(4) by (simp add: blk_def)
  from rt_inv_moved [OF s'(2) D(3-6) this] movedD(2,3) [OF s'(2)] s'(1) show ?thesis
    by (auto simp: blk_def same_waits_def)
qed

text \<open>The running context: neither blocked nor in the middle of a blocking call.\<close>

definition active :: "sched \<Rightarrow> (addr \<Rightarrow> mc) \<Rightarrow> addr \<Rightarrow> bool" where
  "active s F c \<longleftrightarrow> c \<noteq> null \<and> m_scheduled s = c \<and> F c = [] \<and> m_locals s c = []"

definition fresh_nodes :: "sched \<Rightarrow> (addr \<Rightarrow> mc) \<Rightarrow> mc \<Rightarrow> bool" where
  "fresh_nodes s F f \<longleftrightarrow> distinct (map snd f) \<and> (\<forall>x \<in> snd ` set f. \<not> conn s x \<and> (\<forall>d. x \<notin> snd ` set (F d)))"

lemma running_ok:
  assumes "rt_inv sg s F e" and "m_scheduled s = c" "c \<noteq> null"
  shows "c \<in> set (m_contexts s)" "\<not> blk s c"
proof -
  note L = rt_invD(1) [OF assms(1), unfolded sched_inv_def]
  show "c \<in> set (m_contexts s)" "\<not> blk s c" using lists_okD(6,7) [OF L] assms(2,3) by (auto simp: blk_def)
qed

lemma rt_inv_exempt: "rt_inv sg s F e \<Longrightarrow> F e = [] \<Longrightarrow> rt_inv sg s F e'"
  unfolding rt_inv_def using waits_exempt by blast

lemma null_frame: "rt_inv sg s F e \<Longrightarrow> F null = []"
  using waits_okD(6) [OF rt_invD(2), of sg s F e null] rt_invD(1) lists_okD(9) unfolding sched_inv_def by blast

text \<open>Hook all, then block: the slow path of \<open>Acquire\<close> and of \<open>MultiCoordinator::Acquire\<close>.\<close>

lemma hook_block_ok:
  assumes inv: "rt_inv sg s F null" and c: "active s F c" and f: "f \<noteq> []" "fresh_nodes s F f" "\<And>k. k \<in> fst ` set f \<Longrightarrow> held s k"
  shows "\<exists>s1 s'. mc_hook f c s = Some s1 \<and> Context_Block c s1 = Some s' \<and> rt_inv sg s' (F(c := f)) null \<and>
    m_contexts s' = m_contexts s \<and> blk s' c \<and> (\<forall>k. k \<notin> fst ` set f \<longrightarrow> coords s' k = coords s k)"
proof -
  have c': "m_scheduled s = c" "c \<noteq> null" "F c = []" "m_locals s c = []" using c by (simp_all add: active_def)
  have Fc: "F(c := []) = F" using c'(3) by auto
  have inv1: "rt_inv sg s (F(c := [])) c" unfolding Fc by (rule rt_inv_exempt [OF inv null_frame [OF inv]])
  have fr: "\<not> conn s x \<and> (\<forall>d. x \<notin> snd ` set ((F(c := [])) d))" if "x \<in> snd ` set f" for x
    using f(2) that unfolding fresh_nodes_def Fc by blast
  have dis: "distinct (map snd f)" using f(2) by (simp add: fresh_nodes_def)
  from mc_hook_ok [OF inv1 running_ok [OF inv c'(1,2)] dis fr f(3)] obtain s1 where
    s1: "mc_hook f c s = Some s1" "rt_inv sg s1 (F(c := f)) c" "quiet s s1" "m_locals s1 = m_locals s"
      "\<forall>x. sat s1 x = (sat s x \<and> x \<notin> snd ` set f)" "\<forall>k. k \<notin> fst ` set f \<longrightarrow> coords s1 k = coords s k" by auto
  have "m_scheduled s1 = c" "m_locals s1 c = []" using s1(3,4) c' by (simp_all add: quiet_def)
  with block_ok [OF s1(2), of null] c'(2) f(1) s1(5) obtain s' where
    "Context_Block c s1 = Some s'" "rt_inv sg s' (F(c := f)) null" "m_contexts s' = m_contexts s1" "blk s' c"
    "coords s' = coords s1" by auto
  with s1(1,3,6) show ?thesis by (auto simp: quiet_def)
qed

lemma mc_try_None: "mc_try f i s = (None, s') \<Longrightarrow> s' = s \<and> (\<forall>k \<in> fst ` set f. held s k)"
  by (induction f i s rule: mc_try.induct) (auto simp: TryAcquire_def split: if_splits)

lemma mc_try_Some:
  "mc_try f i s = (Some j, s') \<Longrightarrow> \<exists>n < length f. j = i + n \<and> \<not> held s (fst (f ! n)) \<and> (\<forall>m < n. held s (fst (f ! m))) \<and>
    s' = set_coord (fst (f ! n)) ((coords s (fst (f ! n)))\<lparr>m_held := True\<rparr>) s"
proof (induction f i s rule: mc_try.induct)
  case (2 k x f i s)
  show ?case
  proof (cases "held s k")
    case True
    with 2 obtain n where n: "n < length f" "j = Suc i + n" "\<not> held s (fst (f ! n))" "\<forall>m < n. held s (fst (f ! m))"
      "s' = set_coord (fst (f ! n)) ((coords s (fst (f ! n)))\<lparr>m_held := True\<rparr>) s"
      by (auto simp: TryAcquire_def)
    then show ?thesis using True by (intro exI [of _ "Suc n"]) (auto simp: less_Suc_eq_0_disj)
  next
    case False
    with 2(2) show ?thesis by (intro exI [of _ 0]) (auto simp: TryAcquire_def)
  qed
qed simp

text \<open>A coordinator taken on the fast path: an ordinary one is held, a signal is left as it was.\<close>

lemma fast_path_ok:
  assumes inv: "rt_inv sg s F e" and k: "\<not> held s (fst (f ! i))"
  shows "rt_inv sg (maybeReset sg i f (set_coord (fst (f ! i)) ((coords s (fst (f ! i)))\<lparr>m_held := True\<rparr>) s)) F e"
proof (cases "sg (fst (f ! i))")
  case False
  then show ?thesis using TryAcquire_ok(1) [OF inv False] k by (simp add: maybeReset_def TryAcquire_def)
next
  case True
  have "(coords s (fst (f ! i)))\<lparr>m_held := False\<rparr> = coords s (fst (f ! i))" using k by simp
  then have "maybeReset sg i f (set_coord (fst (f ! i)) ((coords s (fst (f ! i)))\<lparr>m_held := True\<rparr>) s) = s"
    using True by (simp add: maybeReset_def ResetCoordinator_def set_coord_def)
  with inv show ?thesis by simp
qed

section \<open>Behind the switch\<close>

lemma RemoveAsBlocked_ok:
  assumes inv: "rt_inv sg s (F(c := (k, x) # f)) c" and b: "\<not> blk s c" and x: "\<not> sat s x"
  shows "\<exists>s'. RemoveAsBlocked k x s = Some s' \<and> rt_inv sg s' (F(c := f)) c \<and> quiet s s' \<and>
    blk s' = blk s \<and> sat s' = sat s \<and> waiter_of s' = waiter_of s \<and> m_signaled s' = m_signaled s \<and>
    (\<forall>k'. k' \<noteq> k \<longrightarrow> coords s' k' = coords s k')"
proof -
  note D = rt_invD [OF inv]
  note W = waits_okD [OF D(2)]
  have cx: "conn s x" using W(11) [of k x c] x by simp
  have out: "y \<noteq> x" if "(k', y) \<in> set ((F(c := f)) d)" for k' y d
    using that W(7) [of c] W(10) [of k' y d] W(10) [of k x c] by (cases "d = c") force+
  have old: "(k', y) \<in> set ((F(c := (k, x) # f)) d)" if "(k', y) \<in> set ((F(c := f)) d)" for k' y d
    using that by (cases "d = c") simp_all
  let ?s1 = "set_cd x ((cds s x)\<lparr>m_connected := False\<rparr>) s"
  have same: "sat ?s1 = sat s" "waiter_of ?s1 = waiter_of s" by (auto simp: sat_def waiter_of_def fun_eq_iff)
  show ?thesis
  proof (cases "x \<in> set (blocking s k)")
    case True
    define s' where "s' = set_coord k ((coords s k)\<lparr>m_blocking := remove1 x (blocking s k)\<rparr>) ?s1"
    have v: "sat s' = sat s" "waiter_of s' = waiter_of s" "blk s' = blk s" unfolding s'_def using same by simp_all
    have "waits_ok (wl s') (conn s') (sat s') (waiter_of s') (blk s') (set (m_contexts s')) (F(c := f)) c"
      using waits_unhook [OF D(2), of "AtCoord k"] True b unfolding v by (simp add: s'_def)
    moreover have "blocking s k \<noteq> []" using True by auto
    then have "coords_ok sg s'" using D(3) by (auto simp: s'_def coords_ok_def)
    moreover have "y \<in> set (blocking s' k') \<longleftrightarrow> y \<in> set (blocking s k')" if "y \<noteq> x" for y k'
      using that by (auto simp: s'_def)
    then have "armed_ok sg s' (F(c := f))"
      unfolding armed_ok_def using armed_okD [OF D(4) old] out by (metis s'_def set_cd_simps(3) set_coord_simps(3))
    moreover have "sched_inv s'" using D(1) by (simp add: s'_def sched_inv_def)
    ultimately have "rt_inv sg s' (F(c := f)) c" using D(5,6) by (simp add: rt_inv_def s'_def)
    moreover have "RemoveAsBlocked k x s = Some s'"
      using cx True by (simp add: RemoveAsBlocked_def conn_def s'_def Let_def)
    moreover have "quiet s s'" "m_signaled s' = m_signaled s" "\<forall>k'. k' \<noteq> k \<longrightarrow> coords s' k' = coords s k'" by (simp_all add: s'_def quiet_def)
    ultimately show ?thesis using v by blast
  next
    case False
    then obtain t where t: "x \<in> set (m_locals s t)" using W(12) [of k x c] cx by auto
    have only: "remove1 x (m_locals s u) = m_locals s u" if "u \<noteq> t" for u
      using placedD(2) [OF W(1), of x "AtLocal t" "AtLocal u"] t that by (intro remove1_idem) auto
    define s' where "s' = ?s1\<lparr>m_locals := (m_locals s)(t := remove1 x (m_locals s t))\<rparr>"
    have v: "sat s' = sat s" "waiter_of s' = waiter_of s" "blk s' = blk s" unfolding s'_def using same by simp_all
    have wl: "wl s' = (wl s)(AtLocal t := remove1 x (wl s (AtLocal t)))" "conn s' = (conn s)(x := False)"
      by (auto simp: s'_def wl_def fun_eq_iff split: place.splits)
    have "waits_ok (wl s') (conn s') (sat s') (waiter_of s') (blk s') (set (m_contexts s')) (F(c := f)) c"
      using waits_unhook [OF D(2), of "AtLocal t"] t b unfolding v wl by (simp add: s'_def)
    moreover have "coords_ok sg s'" using D(3) by (auto simp: s'_def coords_ok_def)
    moreover have "coords s' = coords s" "m_signaled s' = m_signaled s" by (simp_all add: s'_def)
    then have "armed_ok sg s' (F(c := f))"
      unfolding armed_ok_def using armed_okD [OF D(4) old] by metis
    moreover have "sched_inv s'" using D(1) by (simp add: s'_def sched_inv_def)
    ultimately have "rt_inv sg s' (F(c := f)) c" using D(5,6) by (simp add: rt_inv_def s'_def)
    moreover have "(\<lambda>u. remove1 x (m_locals s u)) = (m_locals s)(t := remove1 x (m_locals s t))"
      using only by (auto simp: fun_eq_iff)
    then have "RemoveAsBlocked k x s = Some s'"
      using cx False D(5) by (simp add: RemoveAsBlocked_def conn_def s'_def Let_def)
    moreover have "quiet s s'" "m_signaled s' = m_signaled s" "\<forall>k'. k' \<noteq> k \<longrightarrow> coords s' k' = coords s k'" by (simp_all add: s'_def quiet_def)
    ultimately show ?thesis using v by blast
  qed
qed

lemma drop_ok:
  assumes inv: "rt_inv sg s (F(c := (k, x) # f)) c" and b: "\<not> blk s c" and x: "sat s x"
  shows "rt_inv sg s (F(c := f)) c" and "sg k \<Longrightarrow> \<not> held s k"
proof -
  note D = rt_invD [OF inv]
  have old: "(k', y) \<in> set ((F(c := (k, x) # f)) d)" if "(k', y) \<in> set ((F(c := f)) d)" for k' y d
    using that by (cases "d = c") simp_all
  have "armed_ok sg s (F(c := f))"
    unfolding armed_ok_def using armed_okD [OF D(4) old] by blast
  then show "rt_inv sg s (F(c := f)) c" using waits_drop [OF D(2) x b] D by (simp add: rt_inv_def)
  assume k: "sg k"
  have "\<not> conn s x" using waits_okD(2) [OF D(2)] x by blast
  then have "x \<notin> set (blocking s k)" using placedD(3) [OF waits_okD(1) [OF D(2)], of x "AtCoord k"] by auto
  then have "m_signaled s k" using armed_okD [OF D(4), of k x c] k by auto
  then show "\<not> held s k" using D(3) k by (simp add: coords_ok_def)
qed

lemma mc_rest_ok:
  assumes "rt_inv sg s (F(c := f)) c" and "\<not> blk s c" and "m_scheduled s = c" "c \<noteq> null"
  shows "\<exists>s'. mc_rest f s = Some s' \<and> rt_inv sg s' (F(c := [])) c \<and> quiet s s' \<and> waiter_of s' = waiter_of s \<and>
    m_signaled s' = m_signaled s \<and> (\<forall>k. k \<notin> fst ` set f \<longrightarrow> coords s' k = coords s k)"
  using assms
proof (induction f arbitrary: s)
  case (Cons kx f)
  obtain k x where kx: "kx = (k, x)" by (cases kx)
  have inv: "rt_inv sg s (F(c := (k, x) # f)) c" using Cons.prems(1) unfolding kx .
  have "\<exists>s1. (if m_satisfied (cds s x) then Release k False s else RemoveAsBlocked k x s) = Some s1 \<and>
    rt_inv sg s1 (F(c := f)) c \<and> quiet s s1 \<and> waiter_of s1 = waiter_of s \<and> m_signaled s1 = m_signaled s \<and>
    (\<forall>k'. k' \<noteq> k \<longrightarrow> coords s1 k' = coords s k')"
  proof (cases "sat s x")
    case True
    note d = drop_ok [OF inv Cons.prems(2) True]
    from Release_ok [OF d(1) d(2), of False] True show ?thesis by (auto simp: sat_def)
  next
    case False
    with RemoveAsBlocked_ok [OF inv Cons.prems(2) False] show ?thesis by (auto simp: sat_def)
  qed
  then obtain s1 where s1: "(if m_satisfied (cds s x) then Release k False s else RemoveAsBlocked k x s) = Some s1"
    "rt_inv sg s1 (F(c := f)) c" "quiet s s1" "waiter_of s1 = waiter_of s"
    "m_signaled s1 = m_signaled s" "\<forall>k'. k' \<noteq> k \<longrightarrow> coords s1 k' = coords s k'" by blast
  have sc: "m_scheduled s1 = c" using s1(3) Cons.prems(3) by (simp add: quiet_def)
  from Cons.IH [OF s1(2) running_ok(2) [OF s1(2) sc Cons.prems(4)] sc Cons.prems(4)] obtain s' where
    s': "mc_rest f s1 = Some s'" "rt_inv sg s' (F(c := [])) c" "quiet s1 s'" "waiter_of s' = waiter_of s1"
    "m_signaled s' = m_signaled s1" "\<forall>k. k \<notin> fst ` set f \<longrightarrow> coords s' k = coords s1 k" by blast
  then have "mc_rest (kx # f) s = Some s'" using s1(1) by (simp add: kx)
  moreover have "waiter_of s' = waiter_of s" "m_signaled s' = m_signaled s" using s'(4,5) s1(4,5) by simp_all
  moreover have "\<forall>k'. k' \<notin> fst ` set (kx # f) \<longrightarrow> coords s' k' = coords s k'" using s'(6) s1(6) by (auto simp: kx)
  ultimately show ?case using s'(2) quiet_trans [OF s1(3) s'(3)] by blast
qed simp

lemma mc_finish_ok:
  assumes "rt_inv sg s (F(c := f)) c" and "m_scheduled s = c" "c \<noteq> null" and "\<exists>x \<in> snd ` set f. sat s x"
  shows "\<exists>i s'. mc_finish f n s = Some (n + i, s') \<and> i < length f \<and> sat s (snd (f ! i)) \<and> (\<forall>j < i. \<not> sat s (snd (f ! j))) \<and>
    rt_inv sg s' (F(c := [])) c \<and> quiet s s' \<and> waiter_of s' = waiter_of s \<and>
    m_signaled s' = m_signaled s \<and> (\<forall>k. k \<notin> fst ` set f \<longrightarrow> coords s' k = coords s k)"
  using assms
proof (induction f arbitrary: s n)
  case (Cons kx f)
  obtain k x where kx: "kx = (k, x)" by (cases kx)
  have inv: "rt_inv sg s (F(c := (k, x) # f)) c" using Cons.prems(1) unfolding kx .
  have b: "\<not> blk s c" by (rule running_ok(2) [OF inv Cons.prems(2,3)])
  show ?case
  proof (cases "sat s x")
    case True
    from mc_rest_ok [OF drop_ok(1) [OF inv b True] b Cons.prems(2,3)] obtain s' where
      "mc_rest f s = Some s'" "rt_inv sg s' (F(c := [])) c" "quiet s s'" "waiter_of s' = waiter_of s"
      "m_signaled s' = m_signaled s" and cr: "\<forall>k. k \<notin> fst ` set f \<longrightarrow> coords s' k = coords s k" by blast
    moreover have "\<forall>k'. k' \<notin> fst ` set (kx # f) \<longrightarrow> coords s' k' = coords s k'" using cr by simp
    moreover have "mc_finish (kx # f) n s = Some (n + 0, s')" using \<open>mc_rest f s = Some s'\<close> True by (simp add: kx sat_def)
    moreover have "0 < length (kx # f)" "sat s (snd ((kx # f) ! 0))" "\<forall>j < (0::nat). \<not> sat s (snd ((kx # f) ! j))"
      using True by (simp_all add: kx)
    ultimately show ?thesis by blast
  next
    case False
    from RemoveAsBlocked_ok [OF inv b False] obtain s1 where
      s1: "RemoveAsBlocked k x s = Some s1" "rt_inv sg s1 (F(c := f)) c" "quiet s s1" "sat s1 = sat s" "waiter_of s1 = waiter_of s"
        "m_signaled s1 = m_signaled s" "\<forall>k'. k' \<noteq> k \<longrightarrow> coords s1 k' = coords s k'" by blast
    have sc: "m_scheduled s1 = c" using s1(3) Cons.prems(2) by (simp add: quiet_def)
    have "\<exists>x \<in> snd ` set f. sat s1 x" using Cons.prems(4) False by (auto simp: kx s1(4))
    from Cons.IH [OF s1(2) sc Cons.prems(3) this, of "Suc n"] obtain i s' where
      i: "mc_finish f (Suc n) s1 = Some (Suc n + i, s')" "i < length f" "sat s (snd (f ! i))" "\<forall>j < i. \<not> sat s (snd (f ! j))"
        "rt_inv sg s' (F(c := [])) c" "quiet s1 s'" "waiter_of s' = waiter_of s"
        "m_signaled s' = m_signaled s" "\<forall>k. k \<notin> fst ` set f \<longrightarrow> coords s' k = coords s1 k" unfolding s1(4,5,6) by blast
    have "mc_finish (kx # f) n s = Some (n + Suc i, s')" using False s1(1) i(1) by (simp add: kx sat_def)
    moreover have "\<forall>j < Suc i. \<not> sat s (snd ((kx # f) ! j))" using i(4) False by (auto simp: kx less_Suc_eq_0_disj)
    moreover have "\<forall>k'. k' \<notin> fst ` set (kx # f) \<longrightarrow> coords s' k' = coords s k'" using i(9) s1(7) by (auto simp: kx)
    moreover have "Suc i < length (kx # f)" "sat s (snd ((kx # f) ! Suc i))" using i(2,3) by simp_all
    ultimately show ?thesis using i(5,7,8) quiet_trans [OF s1(3) i(6)] by blast
  qed
qed simp

section \<open>Whole calls\<close>

lemma Acquire_held:
  assumes inv: "rt_inv sg s F null" and c: "active s F c" and x: "fresh_nodes s F [(k, x)]" and k: "held s k"
  shows "\<exists>s'. Acquire k c x s = Some s' \<and> rt_inv sg s' (F(c := [(k, x)])) null \<and> m_contexts s' = m_contexts s \<and> blk s' c \<and>
    (\<forall>k'. k' \<noteq> k \<longrightarrow> coords s' k' = coords s k')"
proof -
  obtain s1 s' where s1: "mc_hook [(k, x)] c s = Some s1" "Context_Block c s1 = Some s'"
    "rt_inv sg s' (F(c := [(k, x)])) null" "m_contexts s' = m_contexts s" "blk s' c" "\<forall>k'. k' \<noteq> k \<longrightarrow> coords s' k' = coords s k'"
    using hook_block_ok [OF inv c _ x] k by auto
  have "(cds s x)\<lparr>m_waiter := WaitContext c, m_satisfied := False\<rparr> = node_for c"
    using x by (simp add: fresh_nodes_def conn_def)
  then have "Acquire k c x s = Some s'" using s1(1,2) k by (cases "AddAsBlocked k x (set_cd x (node_for c) s)") (simp_all add: Acquire_def)
  with s1 show ?thesis by blast
qed

lemma Acquire_free: "\<not> held s k \<Longrightarrow> Acquire k c x s = Some (set_coord k ((coords s k)\<lparr>m_held := True\<rparr>) s)"
  by (simp add: Acquire_def)

lemma maybeReset_simps [simp]:
  "m_scheduled (maybeReset sg i f s) = m_scheduled s" "m_contexts (maybeReset sg i f s) = m_contexts s"
  "conn (maybeReset sg i f s) = conn s" "m_locals (maybeReset sg i f s) = m_locals s" "m_yielded (maybeReset sg i f s) = m_yielded s"
  by (simp_all add: maybeReset_def ResetCoordinator_def)

text \<open>The fast path takes the leftmost free coordinator; otherwise the context blocks on all of them.\<close>

lemma CoordinateWith_begin_ok:
  assumes inv: "rt_inv sg s F null" and c: "active s F c" and f: "f \<noteq> []" "fresh_nodes s F f"
  shows "\<exists>r s'. CoordinateWith_begin sg f c s = Some (r, s') \<and> m_contexts s' = m_contexts s \<and>
    (\<forall>k. k \<notin> fst ` set f \<longrightarrow> coords s' k = coords s k) \<and>
    (case r of
       None \<Rightarrow> (\<forall>k \<in> fst ` set f. held s k) \<and> rt_inv sg s' (F(c := f)) null \<and> blk s' c
     | Some i \<Rightarrow> i < length f \<and> \<not> held s (fst (f ! i)) \<and> (\<forall>j < i. held s (fst (f ! j))) \<and> rt_inv sg s' F null \<and>
         m_scheduled s' = c \<and> m_locals s' = m_locals s)"
proof -
  have sc: "m_scheduled s = c" using c by (simp add: active_def)
  consider (one) k x where "f = [(k, x)]" | (many) "\<nexists>k x. f = [(k, x)]" by blast
  then show ?thesis
  proof cases
    case one
    show ?thesis
    proof (cases "held s k")
      case True
      from Acquire_held [OF inv c f(2) [unfolded one] True] True one show ?thesis
        by (auto simp: CoordinateWith_begin_def simp del: fun_upd_apply)
    next
      case False
      then show ?thesis using fast_path_ok [OF inv, of f 0] one sc by (auto simp: CoordinateWith_begin_def Acquire_free maybeReset_def ResetCoordinator_def)
    qed
  next
    case many
    then have cw: "CoordinateWith_begin sg f c s = do {
      (r, s1) \<leftarrow> mc_acquire f c s; Some (r, case r of None \<Rightarrow> s1 | Some i \<Rightarrow> maybeReset sg i f s1) }"
      using f(1) by (auto simp: CoordinateWith_begin_def split: list.splits prod.splits)
    show ?thesis
    proof (cases "mc_try f 0 s")
      case (Pair r s1)
      show ?thesis
      proof (cases r)
        case None
        with Pair have h: "s1 = s" "\<And>k. k \<in> fst ` set f \<Longrightarrow> held s k" using mc_try_None by blast+
        from hook_block_ok [OF inv c f h(2)] obtain s2 s3 where
          "mc_hook f c s = Some s2" "Context_Block c s2 = Some s3" "rt_inv sg s3 (F(c := f)) null"
          "m_contexts s3 = m_contexts s" "blk s3 c" and cr: "\<forall>k. k \<notin> fst ` set f \<longrightarrow> coords s3 k = coords s k" by blast
        then have "CoordinateWith_begin sg f c s = Some (None, s3)"
          unfolding cw using Pair None h(1) by (simp add: mc_acquire_def)
        then show ?thesis using \<open>rt_inv sg s3 (F(c := f)) null\<close> \<open>m_contexts s3 = m_contexts s\<close> \<open>blk s3 c\<close> cr h(2)
          by (intro exI conjI) (assumption | simp)+
      next
        case (Some i)
        with Pair mc_try_Some [of f 0 s i s1] have i: "i < length f" "\<not> held s (fst (f ! i))" "\<forall>j < i. held s (fst (f ! j))"
          "s1 = set_coord (fst (f ! i)) ((coords s (fst (f ! i)))\<lparr>m_held := True\<rparr>) s" by auto
        have "CoordinateWith_begin sg f c s = Some (Some i, maybeReset sg i f s1)"
          unfolding cw using Pair Some by (simp add: mc_acquire_def)
        moreover have "\<forall>k. k \<notin> fst ` set f \<longrightarrow> coords (maybeReset sg i f s1) k = coords s k"
          using i(1,4) by (auto simp: maybeReset_def ResetCoordinator_def)
        ultimately show ?thesis using fast_path_ok [OF inv i(2)] i sc by simp
      qed
    qed
  qed
qed

text \<open>Waking up: the leftmost satisfied coordinator wins, and no node stays queued anywhere.\<close>

lemma CoordinateWith_end_ok:
  assumes inv: "rt_inv sg s F null" and c: "m_scheduled s = c" "c \<noteq> null" "F c = f" "f \<noteq> []"
  shows "\<exists>i s'. CoordinateWith_end sg f s = Some (i, s') \<and> i < length f \<and> sat s (snd (f ! i)) \<and>
    (\<forall>j < i. \<not> sat s (snd (f ! j))) \<and> rt_inv sg s' (F(c := [])) null \<and> quiet s s' \<and> (\<forall>x \<in> snd ` set f. \<not> conn s' x) \<and>
    m_signaled s' = m_signaled s \<and> (\<forall>k. k \<notin> fst ` set f \<longrightarrow> coords s' k = coords s k)"
proof -
  note D = rt_invD [OF inv]
  note W = waits_okD [OF D(2)]
  have Fc: "F(c := f) = F" using c(3) by auto
  have e: "\<exists>x \<in> snd ` set f. sat s x" using W(9) [of c] running_ok(2) [OF inv c(1,2)] c(2-4) by auto
  have inv1: "rt_inv sg s (F(c := f)) c" unfolding Fc by (rule rt_inv_exempt [OF inv null_frame [OF inv]])
  have b: "\<not> blk s c" by (rule running_ok(2) [OF inv c(1,2)])
  have won: "maybeReset sg i f s' = s'" if "coords_ok sg s'" "m_signaled s' = m_signaled s" "i < length f" "sat s (snd (f ! i))" for i s'
  proof (cases "sg (fst (f ! i))")
    case True
    have "(fst (f ! i), snd (f ! i)) \<in> set (F c)" using that(3) c(3) by simp
    then have "\<not> conn s (snd (f ! i))" using W(2) that(4) by blast
    then have "snd (f ! i) \<notin> set (blocking s (fst (f ! i)))"
      using placedD(3) [OF W(1), of "snd (f ! i)" "AtCoord (fst (f ! i))"] by auto
    then have "m_signaled s' (fst (f ! i))" using armed_okD [OF D(4)] \<open>(fst (f ! i), snd (f ! i)) \<in> set (F c)\<close> True that(2) by metis
    then have "\<not> held s' (fst (f ! i))" using that(1) True by (simp add: coords_ok_def)
    then have "(coords s' (fst (f ! i)))\<lparr>m_held := False\<rparr> = coords s' (fst (f ! i))" by simp
    then show ?thesis by (simp add: maybeReset_def ResetCoordinator_def set_coord_def)
  qed (simp add: maybeReset_def)
  consider (one) k x where "f = [(k, x)]" | (many) "\<nexists>k x. f = [(k, x)]" by blast
  then show ?thesis
  proof cases
    case one
    then have x: "sat s x" using e by simp
    then have cx: "\<not> conn s x" using W(2) by blast
    have "rt_inv sg s (F(c := [])) c" using drop_ok(1) [OF inv1 [unfolded one] b x] .
    then have "rt_inv sg s (F(c := [])) null" by (rule rt_inv_exempt) simp
    moreover have "CoordinateWith_end sg f s = Some (0, s)"
      using one cx won [OF D(3) refl, of 0] x by (simp add: CoordinateWith_end_def conn_def)
    moreover have "0 < length f" "sat s (snd (f ! 0))" "\<forall>x \<in> snd ` set f. \<not> conn s x" using one x cx by simp_all
    ultimately show ?thesis by (metis less_nat_zero_code quiet_refl)
  next
    case many
    from mc_finish_ok [OF inv1 c(1,2) e, of 0] obtain i s' where
      i: "mc_finish f 0 s = Some (i, s')" "i < length f" "sat s (snd (f ! i))" "\<forall>j < i. \<not> sat s (snd (f ! j))"
        "rt_inv sg s' (F(c := [])) c" "quiet s s'" "waiter_of s' = waiter_of s" "m_signaled s' = m_signaled s"
        "\<forall>k. k \<notin> fst ` set f \<longrightarrow> coords s' k = coords s k" by auto
    have dc: "\<not> conn s' x" if "x \<in> snd ` set f" for x
    proof
      assume "conn s' x"
      moreover have "waiter_of s' x = WaitContext c" using that W(10) c(3) i(7) by auto
      ultimately show False using waits_okD(5) [OF rt_invD(2) [OF i(5)], of x c] by simp
    qed
    then have sc: "mc_SanityCheck f s'" by (force simp: mc_SanityCheck_def list_all_iff conn_def)
    have "CoordinateWith_end sg f s = do { (i, s1) \<leftarrow> mc_complete f s; Some (i, maybeReset sg i f s1) }"
      using many c(4) by (auto simp: CoordinateWith_end_def split: list.splits prod.splits)
    also have "\<dots> = Some (i, s')"
      using i(1) sc won [OF rt_invD(3) [OF i(5)] i(8,2,3)] by (simp add: mc_complete_def)
    finally have "CoordinateWith_end sg f s = Some (i, s')" .
    moreover have "rt_inv sg s' (F(c := [])) null" by (rule rt_inv_exempt [OF i(5)]) simp
    ultimately show ?thesis using i(2-4,6,8,9) dc by blast
  qed
qed

section \<open>Yielding\<close>

lemma rt_inv_switch:
  assumes "rt_inv sg s F e" and "moved s s' (\<lambda>c. state_of s c = BLOCKED)"
  shows "rt_inv sg s' F e" "m_contexts s' = m_contexts s" "m_locals s' = m_locals s" "coords s' = coords s"
proof -
  note D = rt_invD [OF assms(1)]
  have "waits_ok (wl s) (conn s) (sat s) (waiter_of s) (\<lambda>c. state_of s c = BLOCKED) (set (m_contexts s)) F e"
    using D(2) by (simp add: blk_def [abs_def])
  from rt_inv_moved [OF assms(2) D(3-6) this] show "rt_inv sg s' F e" .
qed (use movedD(2) [OF assms(2)] in \<open>simp_all add: same_waits_def\<close>)

lemma rt_inv_budget [simp]: "rt_inv sg (s\<lparr>m_directYieldsRemaining := i\<rparr>) F e = rt_inv sg s F e"
proof -
  have "wl (s\<lparr>m_directYieldsRemaining := i\<rparr>) = wl s" "conn (s\<lparr>m_directYieldsRemaining := i\<rparr>) = conn s"
    "sat (s\<lparr>m_directYieldsRemaining := i\<rparr>) = sat s" "waiter_of (s\<lparr>m_directYieldsRemaining := i\<rparr>) = waiter_of s"
    "blk (s\<lparr>m_directYieldsRemaining := i\<rparr>) = blk s"
    by (auto simp: wl_def conn_def sat_def waiter_of_def blk_def fun_eq_iff split: place.splits)
  then show ?thesis by (simp add: rt_inv_def sched_inv_def coords_ok_def armed_ok_def)
qed

lemma YieldFrom_ok:
  assumes inv: "rt_inv sg s F e" and c: "m_scheduled s = c" "c \<noteq> null" and ks: "list_all (\<lambda>k. \<not> sg k) ks"
  shows "\<exists>s'. YieldFrom c rv ks s = Some s' \<and> rt_inv sg s' F e \<and> m_contexts s' = m_contexts s \<and> m_locals s' = m_locals s \<and>
    (\<forall>k. k \<notin> set ks \<longrightarrow> coords s' k = coords s k)"
proof -
  have slow: "\<exists>s'. HandleCooperatorResumption JUMP_YIELDED s1 = Some s' \<and> rt_inv sg s' F e \<and> m_contexts s' = m_contexts s1 \<and>
    m_locals s' = m_locals s1 \<and> coords s' = coords s1" if "rt_inv sg s1 F e" "m_scheduled s1 = c" for s1
    using resume_yielded [OF rt_invD(1) [OF that(1)]] that(2) c(2) rt_inv_switch [OF that(1)] by blast
  show ?thesis
  proof (cases "direct_ok s")
    case False
    then have "YieldFrom c rv ks s = HandleCooperatorResumption JUMP_YIELDED s" by (simp add: YieldFrom_def)
    with slow [OF inv c(1)] show ?thesis by metis
  next
    case True
    define io where "io \<longleftrightarrow> ioPresentLimit (m_config s) > 0 \<and> (HasPendingSubmissions rv \<or>
      (m_directYieldsRemaining s AND 3 = 0 \<and> (HasPendingCompletions rv \<or> m_hasSubmissions rv)))"
    define clamp :: "sched \<Rightarrow> sched" where "clamp s0 = (if m_directYieldsRemaining s0 > ioPresentLimit (m_config s)
      then s0\<lparr>m_directYieldsRemaining := ioPresentLimit (m_config s)\<rparr> else s0)" for s0
    obtain s0 where s0: "Poll ks s = Some s0" "rt_inv sg s0 F e" "quiet s s0" "m_locals s0 = m_locals s"
      "\<forall>k. k \<notin> set ks \<longrightarrow> coords s0 k = coords s k"
      using Poll_ok [OF inv ks] by blast
    define s1 where "s1 = (if io then clamp s0 else s)"
    have s1: "rt_inv sg s1 F e" "m_scheduled s1 = c" "m_contexts s1 = m_contexts s" "m_locals s1 = m_locals s" "m_yielded s1 \<noteq> []"
      "\<forall>k. k \<notin> set ks \<longrightarrow> coords s1 k = coords s k"
      using s0(2-5) inv c(1) True by (auto simp: s1_def clamp_def quiet_def direct_ok_def)
    have P: "(if io then do { s0 \<leftarrow> Poll ks s; Some (clamp s0) } else Some s) = Some s1"
      using s0(1) by (simp add: s1_def)
    have Y: "YieldFrom c rv ks s = (if m_directYieldsRemaining s1 = 0 then HandleCooperatorResumption JUMP_YIELDED s1
        else (case m_yielded s1 of [] \<Rightarrow> None
          | next # rest \<Rightarrow> do {
              s2 \<leftarrow> push_yielded c (set_state c YIELDED
                (s1\<lparr>m_directYieldsRemaining := m_directYieldsRemaining s1 - 1, m_yielded := rest\<rparr>));
              Some (switch_next next s2) }))"
      using True P [unfolded io_def clamp_def] by (simp only: YieldFrom_def if_True bind.bind_lunit)
    show ?thesis
    proof (cases "m_directYieldsRemaining s1 = 0")
      case True
      then have "YieldFrom c rv ks s = HandleCooperatorResumption JUMP_YIELDED s1" unfolding Y by simp
      with slow [OF s1(1,2)] s1(3,4,6) show ?thesis by metis
    next
      case False
      obtain n ys where ny: "m_yielded s1 = n # ys" using s1(5) by (cases "m_yielded s1") auto
      from direct_yield [OF rt_invD(1) [OF s1(1)] s1(2) c(2) ny, of "m_directYieldsRemaining s1 - 1"] obtain s2 where
        s2: "push_yielded c (set_state c YIELDED (s1\<lparr>m_directYieldsRemaining := m_directYieldsRemaining s1 - 1, m_yielded := ys\<rparr>)) = Some s2"
          "moved s1 (switch_next n s2) (\<lambda>d. state_of s1 d = BLOCKED)" by blast
      with rt_inv_switch [OF s1(1) s2(2)] s1(3,4,6) False ny show ?thesis unfolding Y by simp
    qed
  qed
qed

lemma rt_inv_ctxs:
  assumes "rt_inv sg s F e" and "\<And>c. m_state (h c) = m_state (ctxs s c)"
  shows "rt_inv sg (s\<lparr>ctxs := h\<rparr>) F e"
proof -
  have st: "state_of (s\<lparr>ctxs := h\<rparr>) = state_of s" using assms(2) by (auto simp: state_of_def fun_eq_iff)
  then have "blk (s\<lparr>ctxs := h\<rparr>) = blk s" by (auto simp: blk_def fun_eq_iff)
  with assms(1) st show ?thesis by (simp add: rt_inv_def sched_inv_def coords_ok_def armed_ok_def)
qed

lemma Yield_ok:
  assumes inv: "rt_inv sg s F e" and c: "m_scheduled s = c" "c \<noteq> null" and ks: "list_all (\<lambda>k. \<not> sg k) ks"
  shows "\<exists>b s'. Yield c force True rv ks s = Some (b, s') \<and> rt_inv sg s' F e \<and> m_contexts s' = m_contexts s \<and>
    m_locals s' = m_locals s \<and> (\<forall>k. k \<notin> set ks \<longrightarrow> coords s' k = coords s k) \<and> (b \<longleftrightarrow> force \<or> m_currentPriority (ctxs s c) \<noteq> 1)"
proof -
  define s1 where "s1 = s\<lparr>ctxs := (ctxs s)(c := (ctxs s c)\<lparr>m_currentPriority :=
    (if force then m_currentPriority (ctxs s c) else m_currentPriority (ctxs s c) - 1)\<rparr>)\<rparr>"
  define s2 where "s2 = s1\<lparr>ctxs := (ctxs s1)(c := (ctxs s1 c)\<lparr>m_yields := m_yields (ctxs s1 c) + 1,
     m_currentPriority := m_priority (ctxs s1 c)\<rparr>)\<rparr>"
  have i1: "rt_inv sg s1 F e" unfolding s1_def by (rule rt_inv_ctxs [OF inv]) simp
  have i2: "rt_inv sg s2 F e" unfolding s2_def by (rule rt_inv_ctxs [OF i1]) simp
  have eq: "m_contexts s2 = m_contexts s" "m_locals s2 = m_locals s" "m_scheduled s2 = c" "m_contexts s1 = m_contexts s"
    "m_locals s1 = m_locals s" "coords s1 = coords s" "coords s2 = coords s" using c by (simp_all add: s1_def s2_def)
  from YieldFrom_ok [OF i2 eq(3) c(2) ks, of rv] obtain s' where
    s': "YieldFrom c rv ks s2 = Some s'" "rt_inv sg s' F e" "m_contexts s' = m_contexts s2" "m_locals s' = m_locals s2"
      "\<forall>k. k \<notin> set ks \<longrightarrow> coords s' k = coords s2 k" by blast
  show ?thesis
  proof (cases "\<not> force \<and> m_currentPriority (ctxs s c) = 1")
    case True
    then have "Yield c force True rv ks s = Some (False, s1)" by (simp add: Yield_def s1_def)
    with True i1 eq show ?thesis by auto
  next
    case False
    then have "Yield c force True rv ks s = Some (True, s')"
      using s'(1) rt_invD(6) [OF inv] by (auto simp: Yield_def s2_def s1_def Let_def)
    with False s' eq show ?thesis by auto
  qed
qed

end
