(* ===== verification/Context_Life.thy ===== *)
theory Context_Life
  imports Multi_Coordination
begin

text \<open>
  The life of a context (\<open>coop/context.cpp\<close>, \<open>coop/cooperator.hpp\<close>): construction under a parent,
  \<open>Spawn\<close>, \<open>Detach\<close>, the iterative post-order \<open>Kill\<close>, and the destructor up to the jump back to
  the cooperator. The child lists form a forest; \<open>Kill\<close> is shown to notify exactly the descendants,
  children first.
\<close>

section \<open>Operations\<close>

definition IsKilled :: "sched \<Rightarrow> addr \<Rightarrow> bool" where
  "IsKilled s c = m_signaled s (m_killedSignal (ctxs s c))"

text \<open>
  The constructor of the context at \<open>c\<close>; \<open>sig\<close> and \<open>lc\<close> are the addresses of its kill signal (armed) and
  its last-child coordinator (free).
\<close>

definition Context_new :: "addr \<Rightarrow> addr \<Rightarrow> int \<Rightarrow> addr \<Rightarrow> addr \<Rightarrow> sched \<Rightarrow> sched option" where
  "Context_new c parent prio sig lc s =
     (let s1 = s\<lparr>ctxs := (ctxs s)(c := \<lparr>m_state = YIELDED, m_priority = prio, m_currentPriority = prio, m_parent = parent,
                   m_children = [], m_lastChild = lc, m_killedSignal = sig, m_yields = 0, m_blocks = 0\<rparr>),
                 m_signaled := (m_signaled s)(sig := False)\<rparr>;
          s2 = set_coord sig \<lparr>m_held = True, m_blocking = []\<rparr> (set_coord lc \<lparr>m_held = False, m_blocking = []\<rparr> s1)
      in if parent \<noteq> null then do {
           assert_that (\<not> IsKilled s2 parent);
           assert_that (c \<notin> set (m_children (ctxs s2 parent)));
           Some (snd (TryAcquire (m_lastChild (ctxs s2 parent))
             (s2\<lparr>ctxs := (ctxs s2)(parent := (ctxs s2 parent)\<lparr>m_children := m_children (ctxs s2 parent) @ [c]\<rparr>)\<rparr>))) }
         else Some s2)"

text \<open>\<open>Spawn\<close>: refused in a killed context or when the stack pool is exhausted (\<open>alloc\<close>).\<close>

definition Spawn :: "addr \<Rightarrow> int \<Rightarrow> addr \<Rightarrow> addr \<Rightarrow> bool \<Rightarrow> sched \<Rightarrow> (bool \<times> sched) option" where
  "Spawn c prio sig lc alloc s =
     (if m_scheduled s \<noteq> null \<and> IsKilled s (m_scheduled s) then Some (False, s)
      else if \<not> alloc then Some (False, s)
      else do {
        s1 \<leftarrow> Context_new c (m_scheduled s) prio sig lc s;
        assert_that (c \<notin> set (m_contexts s1));
        s2 \<leftarrow> EnterContext c (s1\<lparr>m_contexts := m_contexts s1 @ [c]\<rparr>);
        Some (True, s2) })"

definition Detach :: "addr \<Rightarrow> sched \<Rightarrow> sched option" where
  "Detach c s = do {
     let p = m_parent (ctxs s c);
     assert_that (p \<noteq> null);
     assert_that (c \<in> set (m_children (ctxs s p)));
     let s1 = s\<lparr>ctxs := (ctxs s)(p := (ctxs s p)\<lparr>m_children := remove1 c (m_children (ctxs s p))\<rparr>)\<rparr>;
     s2 \<leftarrow> (if m_children (ctxs s1 p) = [] then Release (m_lastChild (ctxs s1 p)) False s1 else Some s1);
     Some (s2\<lparr>ctxs := (ctxs s2)(c := (ctxs s2 c)\<lparr>m_parent := null\<rparr>)\<rparr>) }"

text \<open>Down to the leftmost leaf.\<close>

partial_function (option) leftmost :: "(addr \<Rightarrow> addr list) \<Rightarrow> addr \<Rightarrow> addr option" where
  "leftmost ch c = (case ch c of [] \<Rightarrow> Some c | d # ds \<Rightarrow> leftmost ch d)"

text \<open>The sibling after \<open>c\<close> in a child list, null at the end.\<close>

fun next_sibling :: "addr \<Rightarrow> addr list \<Rightarrow> addr" where
  "next_sibling c [] = null"
| "next_sibling c (d # ds) = (if d = c then (case ds of [] \<Rightarrow> null | e # es \<Rightarrow> e) else next_sibling c ds)"

text \<open>The loop of \<open>Kill\<close>, run by context \<open>t\<close> on the descendants of \<open>other\<close>.\<close>

partial_function (option) kill_loop :: "addr \<Rightarrow> addr \<Rightarrow> addr \<Rightarrow> sched \<Rightarrow> sched option" where
  "kill_loop t other c s =
     (if c = other then Some s
      else do {
        s1 \<leftarrow> Notify (m_killedSignal (ctxs s c)) t False s;
        let p = m_parent (ctxs s1 c);
        let n = next_sibling c (m_children (ctxs s1 p));
        c' \<leftarrow> (if n \<noteq> null then leftmost (\<lambda>d. m_children (ctxs s1 d)) n else Some p);
        kill_loop t other c' s1 })"

definition Kill :: "addr \<Rightarrow> addr \<Rightarrow> bool \<Rightarrow> sched \<Rightarrow> sched option" where
  "Kill t other schedule s = do {
     c \<leftarrow> leftmost (\<lambda>d. m_children (ctxs s d)) other;
     s1 \<leftarrow> kill_loop t other c s;
     Notify (m_killedSignal (ctxs s1 other)) t schedule s1 }"

text \<open>
  The destructor: detach and kill; then wait for the last child (\<open>x\<close>: the \<open>Coordinated\<close> of the
  \<open>Acquire\<close>); then leave the context list and jump back to the cooperator.
\<close>

definition exit_begin :: "addr \<Rightarrow> sched \<Rightarrow> sched option" where
  "exit_begin c s = do {
     s1 \<leftarrow> (if m_parent (ctxs s c) \<noteq> null then Detach c s else Some s);
     if \<not> IsKilled s1 c then Kill c c True s1 else Some s1 }"

definition exit_wait :: "addr \<Rightarrow> addr \<Rightarrow> sched \<Rightarrow> sched option" where
  "exit_wait c x s = Acquire (m_lastChild (ctxs s c)) c x s"

definition exit_end :: "addr \<Rightarrow> sched \<Rightarrow> sched option" where
  "exit_end c s = do {
     assert_that (c \<in> set (m_contexts s));
     HandleCooperatorResumption EXITED (s\<lparr>m_contexts := remove1 c (m_contexts s)\<rparr>) }"

section \<open>The post-order walk\<close>

datatype ctree = CNode (root: addr) (kids: "ctree list")

fun postorder :: "ctree \<Rightarrow> addr list" where
  "postorder (CNode c ts) = concat (map postorder ts) @ [c]"

text \<open>The child lists and parent pointers below a context have the shape of a tree.\<close>

fun tree_of :: "(addr \<Rightarrow> addr list) \<Rightarrow> (addr \<Rightarrow> addr) \<Rightarrow> ctree \<Rightarrow> bool" where
  "tree_of ch pa (CNode c ts) \<longleftrightarrow> ch c = map root ts \<and> (\<forall>t \<in> set ts. pa (root t) = c \<and> tree_of ch pa t)"

fun first_post :: "ctree \<Rightarrow> addr" where
  "first_post (CNode c []) = c"
| "first_post (CNode c (t # ts)) = first_post t"

lemma leftmost_first: "tree_of ch pa t \<Longrightarrow> leftmost ch (root t) = Some (first_post t)"
  by (induction t rule: first_post.induct) (auto simp: leftmost.simps)

text \<open>What notifying leaves of the contexts.\<close>

definition same_shape :: "sched \<Rightarrow> sched \<Rightarrow> bool" where
  "same_shape s s' \<longleftrightarrow> (\<forall>c. m_parent (ctxs s' c) = m_parent (ctxs s c) \<and> m_children (ctxs s' c) = m_children (ctxs s c) \<and>
     m_lastChild (ctxs s' c) = m_lastChild (ctxs s c) \<and> m_killedSignal (ctxs s' c) = m_killedSignal (ctxs s c))"

lemma same_shape_refl [simp]: "same_shape s s"
  by (simp add: same_shape_def)

lemma same_shape_trans: "same_shape s s1 \<Longrightarrow> same_shape s1 s2 \<Longrightarrow> same_shape s s2"
  by (simp add: same_shape_def)

lemma same_shape_update [simp]:
  "same_shape s (set_state c v s') = same_shape s s'" "same_shape s (set_cd x w s') = same_shape s s'"
  "same_shape s (set_coord k u s') = same_shape s s'" "same_shape s (s'\<lparr>m_yielded := ys\<rparr>) = same_shape s s'"
  "same_shape s (s'\<lparr>m_blocked := ys\<rparr>) = same_shape s s'" "same_shape s (s'\<lparr>m_scheduled := d\<rparr>) = same_shape s s'"
  "same_shape s (s'\<lparr>m_pendingContinuations := ys\<rparr>) = same_shape s s'" "same_shape s (s'\<lparr>m_locals := l\<rparr>) = same_shape s s'"
  "same_shape s (s'\<lparr>m_signaled := g\<rparr>) = same_shape s s'" "same_shape s (s'\<lparr>m_directYieldsRemaining := i\<rparr>) = same_shape s s'"
  by (auto simp: same_shape_def set_state_def set_cd_def set_coord_def)

lemma Unblock_shape: "Unblock c b s = Some s' \<Longrightarrow> same_shape s s'"
  by (auto simp: Unblock_def remove_blocked_def push_yielded_def switch_next_def Let_def split: if_splits)

lemma WakeWaiter_shape: "WakeWaiter x b s = Some s' \<Longrightarrow> same_shape s s'"
  using Unblock_shape [of _ b "set_cd x ((cds s x)\<lparr>m_satisfied := True\<rparr>) s" s']
  by (auto simp: WakeWaiter_def Let_def same_shape_def split: waiter.splits)

lemma notify_loop_shape: "notify_loop n t b s = Some s' \<Longrightarrow> same_shape s s'"
proof (induction n arbitrary: s)
  case (Suc n)
  show ?case
  proof (cases "m_locals s t")
    case (Cons x xs)
    let ?s = "pop_waiter x (s\<lparr>m_locals := (m_locals s)(t := xs)\<rparr>)"
    from Suc.prems Cons obtain s1 where s1: "WakeWaiter x b ?s = Some s1"
      "(if m_scheduled s1 = m_scheduled s then notify_loop n t b s1 else Some s1) = Some s'"
      by (auto simp: bind_eq_Some_conv)
    have "same_shape s s1" using WakeWaiter_shape [OF s1(1)] by (simp add: pop_waiter_def same_shape_def)
    then show ?thesis using s1(2) Suc.IH [of s1] same_shape_trans by (auto split: if_splits)
  qed (use Suc.prems in simp)
qed simp

lemma Notify_shape: "Notify k t b s = Some s' \<Longrightarrow> same_shape s s'"
  using notify_loop_shape [of "length (blocking s k)" t b _ s']
  by (auto simp: Notify_def Let_def same_shape_def)

lemma Release_shape: "Release k b s = Some s' \<Longrightarrow> same_shape s s'"
  by (auto simp: Release_def ReleaseToNext_def pop_waiter_def Let_def same_shape_def
      dest!: WakeWaiter_shape split: if_splits list.splits)

text \<open>Notifying a list of contexts, one by one.\<close>

fun notify_all :: "addr \<Rightarrow> addr list \<Rightarrow> sched \<Rightarrow> sched option" where
  "notify_all t [] s = Some s"
| "notify_all t (c # cs) s = do { s1 \<leftarrow> Notify (m_killedSignal (ctxs s c)) t False s; notify_all t cs s1 }"

lemma notify_all_append: "notify_all t (cs @ ds) s = do { s1 \<leftarrow> notify_all t cs s; notify_all t ds s1 }"
  by (induction cs arbitrary: s) (auto split: Option.bind_splits)

lemma notify_all_shape: "notify_all t cs s = Some s' \<Longrightarrow> same_shape s s'"
proof (induction cs arbitrary: s)
  case (Cons c cs)
  from Cons.prems obtain s1 where "Notify (m_killedSignal (ctxs s c)) t False s = Some s1" "notify_all t cs s1 = Some s'"
    by (auto simp: bind_eq_Some_conv)
  with Cons.IH [of s1] Notify_shape same_shape_trans show ?case by blast
qed simp

abbreviation kids_of :: "sched \<Rightarrow> addr \<Rightarrow> addr list" where
  "kids_of s \<equiv> (\<lambda>d. m_children (ctxs s d))"

abbreviation parent_of :: "sched \<Rightarrow> addr \<Rightarrow> addr" where
  "parent_of s \<equiv> (\<lambda>d. m_parent (ctxs s d))"

lemma shape_fun: "same_shape s s' \<Longrightarrow> kids_of s' = kids_of s" "same_shape s s' \<Longrightarrow> parent_of s' = parent_of s"
  by (auto simp: same_shape_def)

text \<open>Where the loop goes after context \<open>c\<close>.\<close>

definition after :: "addr \<Rightarrow> addr \<Rightarrow> addr \<Rightarrow> sched \<Rightarrow> sched option" where
  "after t other c s = do {
     let p = m_parent (ctxs s c);
     let n = next_sibling c (m_children (ctxs s p));
     c' \<leftarrow> (if n \<noteq> null then leftmost (kids_of s) n else Some p);
     kill_loop t other c' s }"

lemma kill_loop_step:
  "c \<noteq> other \<Longrightarrow> kill_loop t other c s = do { s1 \<leftarrow> notify_all t [c] s; after t other c s1 }"
  by (subst kill_loop.simps) (simp add: after_def)

lemma next_sibling_in: "distinct (xs @ c # ys) \<Longrightarrow> next_sibling c (xs @ c # ys) = (case ys of [] \<Rightarrow> null | d # ds \<Rightarrow> d)"
  by (induction xs) auto

text \<open>The loop through the siblings \<open>ts\<close>, given that it walks each of them.\<close>

lemma siblings_walk:
  assumes "\<And>u s. u \<in> set ts \<Longrightarrow> tree_of (kids_of s) (parent_of s) u \<Longrightarrow>
      kill_loop t other (first_post u) s = do { s1 \<leftarrow> notify_all t (postorder u) s; after t other (root u) s1 }"
    and "kids_of s p = xs @ map root ts" "distinct (xs @ map root ts)" "null \<notin> root ` set ts" "ts \<noteq> []"
    and "\<And>u. u \<in> set ts \<Longrightarrow> tree_of (kids_of s) (parent_of s) u \<and> parent_of s (root u) = p"
  shows "kill_loop t other (first_post (hd ts)) s =
    do { s1 \<leftarrow> notify_all t (concat (map postorder ts)) s; kill_loop t other p s1 }"
  using assms
proof (induction ts arbitrary: s xs)
  case (Cons u us)
  have u: "tree_of (kids_of s) (parent_of s) u" "parent_of s (root u) = p" using Cons.prems(6) by auto
  have step: "kill_loop t other (first_post u) s = do { s1 \<leftarrow> notify_all t (postorder u) s; after t other (root u) s1 }"
    using Cons.prems(1) u(1) by simp
  show ?case
  proof (cases "notify_all t (postorder u) s")
    case None
    then show ?thesis using step by (simp add: notify_all_append)
  next
    case (Some s1)
    note sh = shape_fun [OF notify_all_shape [OF Some]]
    have eq: "m_parent (ctxs s1 c) = m_parent (ctxs s c)" "m_children (ctxs s1 c) = m_children (ctxs s c)" for c
      using notify_all_shape [OF Some] by (simp_all add: same_shape_def)
    have nx: "next_sibling (root u) (m_children (ctxs s1 p)) = (case map root us of [] \<Rightarrow> null | d # ds \<Rightarrow> d)"
      using next_sibling_in [of xs "root u" "map root us"] Cons.prems(2,3) eq by simp
    show ?thesis
    proof (cases us)
      case Nil
      then have "after t other (root u) s1 = kill_loop t other p s1" using nx u(2) eq by (simp add: after_def)
      then show ?thesis using step Some Nil by simp
    next
      case (Cons v vs)
      have "root v \<noteq> null" using Cons.prems(4) Cons by auto
      moreover have v: "tree_of (kids_of s1) (parent_of s1) w \<and> parent_of s1 (root w) = p" if "w \<in> set us" for w
        using Cons.prems(6) [of w] that unfolding sh by (simp add: eq)
      moreover have "leftmost (kids_of s1) (root v) = Some (first_post v)"
        by (rule leftmost_first [of _ "parent_of s1"]) (use v Cons in auto)
      ultimately have af: "after t other (root u) s1 = kill_loop t other (first_post (hd us)) s1"
        using nx u(2) eq Cons by (simp add: after_def)
      have "kill_loop t other (first_post (hd us)) s1 =
        do { s2 \<leftarrow> notify_all t (concat (map postorder us)) s1; kill_loop t other p s2 }"
      proof (rule Cons.IH [where xs = "xs @ [root u]"])
        show "kids_of s1 p = (xs @ [root u]) @ map root us" using Cons.prems(2) eq by simp
        show "distinct ((xs @ [root u]) @ map root us)" using Cons.prems(3) by simp
        show "null \<notin> root ` set us" using Cons.prems(4) by auto
        show "us \<noteq> []" using Cons by simp
      qed (use Cons.prems(1) v in auto)
      then show ?thesis using step Some af by (simp add: notify_all_append)
    qed
  qed
qed simp

text \<open>All contexts of a tree have distinct, non-null children, and \<open>other\<close> is outside.\<close>

fun clean :: "addr \<Rightarrow> ctree \<Rightarrow> bool" where
  "clean other (CNode c ts) \<longleftrightarrow> c \<noteq> other \<and> distinct (map root ts) \<and> null \<notin> root ` set ts \<and> (\<forall>t \<in> set ts. clean other t)"

lemma tree_walk:
  assumes "tree_of (kids_of s) (parent_of s) u" and "clean other u"
  shows "kill_loop t other (first_post u) s = do { s1 \<leftarrow> notify_all t (postorder u) s; after t other (root u) s1 }"
  using assms
proof (induction u arbitrary: s)
  case (CNode c ts)
  have c: "c \<noteq> other" using CNode.prems(2) by simp
  show ?case
  proof (cases "ts = []")
    case True
    then show ?thesis using kill_loop_step [OF c, of t s] by simp
  next
    case False
    have "kill_loop t other (first_post (hd ts)) s = do { s1 \<leftarrow> notify_all t (concat (map postorder ts)) s; kill_loop t other c s1 }"
    proof (rule siblings_walk [where xs = "[]"])
      show "kill_loop t other (first_post u) s' = do { s1 \<leftarrow> notify_all t (postorder u) s'; after t other (root u) s1 }"
        if "u \<in> set ts" "tree_of (kids_of s') (parent_of s') u" for u s'
        using CNode.IH [OF that] CNode.prems(2) that(1) by simp
    qed (use CNode.prems False in auto)
    moreover have "first_post (CNode c ts) = first_post (hd ts)" using False by (cases ts) auto
    ultimately show ?thesis using kill_loop_step [OF c, of t] by (simp add: notify_all_append)
  qed
qed

text \<open>\<open>Kill\<close> notifies the descendants in post-order, without scheduling, and then the target.\<close>

lemma Kill_postorder:
  assumes t: "tree_of (kids_of s) (parent_of s) (CNode other ts)"
    and ok: "distinct (map root ts)" "null \<notin> root ` set ts" "\<And>u. u \<in> set ts \<Longrightarrow> clean other u"
  shows "Kill t other schedule s =
    do { s1 \<leftarrow> notify_all t (concat (map postorder ts)) s; Notify (m_killedSignal (ctxs s1 other)) t schedule s1 }"
proof (cases "ts = []")
  case True
  then show ?thesis using leftmost_first [OF t] by (simp add: Kill_def kill_loop.simps)
next
  case False
  have "kill_loop t other (first_post (hd ts)) s = do { s1 \<leftarrow> notify_all t (concat (map postorder ts)) s; kill_loop t other other s1 }"
    by (rule siblings_walk [where xs = "[]"]) (use tree_walk ok t False in auto)
  moreover have "leftmost (kids_of s) other = Some (first_post (hd ts))"
    using leftmost_first [OF t] False by (cases ts) auto
  moreover have "kill_loop t other other s1 = Some s1" for s1 by (simp add: kill_loop.simps)
  ultimately show ?thesis by (simp add: Kill_def)
qed

end
