(* ===== verification/Context_Tree.thy ===== *)
theory Context_Tree
  imports Context_Life
begin

text \<open>
  The context tree: what the operations of \<open>Scheduler\<close>, \<open>Multi_Coordination\<close> and \<open>Context_Life\<close> leave of
  it, the invariant that the child lists and parent pointers form a forest, and that creating,
  detaching, killing and destroying a context keep it together with the runtime invariant.
\<close>

section \<open>Operations that leave the tree alone\<close>

definition kept :: "sched \<Rightarrow> sched \<Rightarrow> bool" where
  "kept s s' \<longleftrightarrow> same_shape s s' \<and> m_signaled s' = m_signaled s"

lemma kept_refl [simp]: "kept s s"
  by (simp add: kept_def)

lemma kept_trans: "kept s s1 \<Longrightarrow> kept s1 s2 \<Longrightarrow> kept s s2"
  by (auto simp: kept_def intro: same_shape_trans)

lemma kept_update [simp]:
  "kept s (set_state c v s') = kept s s'" "kept s (set_cd x w s') = kept s s'"
  "kept s (set_coord k u s') = kept s s'" "kept s (s'\<lparr>m_yielded := ys\<rparr>) = kept s s'"
  "kept s (s'\<lparr>m_blocked := ys\<rparr>) = kept s s'" "kept s (s'\<lparr>m_scheduled := d\<rparr>) = kept s s'"
  "kept s (s'\<lparr>m_pendingContinuations := ys\<rparr>) = kept s s'" "kept s (s'\<lparr>m_locals := l\<rparr>) = kept s s'"
  "kept s (s'\<lparr>m_directYieldsRemaining := i\<rparr>) = kept s s'" "kept s (s'\<lparr>m_freed := ys\<rparr>) = kept s s'"
  "kept s (s'\<lparr>m_contexts := ys\<rparr>) = kept s s'"
  by (auto simp: kept_def same_shape_def set_state_def set_cd_def set_coord_def)

lemma kept_source [simp]:
  "kept (set_cd x w s) s' = kept s s'" "kept (set_coord k u s) s' = kept s s'"
  "kept (s\<lparr>m_yielded := ys\<rparr>) s' = kept s s'" "kept (set_state c v s) s' = kept s s'"
  "kept (s\<lparr>m_directYieldsRemaining := i\<rparr>) s' = kept s s'"
  by (auto simp: kept_def same_shape_def set_state_def set_cd_def set_coord_def)

lemma kept_counters [simp]:
  "kept s (s\<lparr>ctxs := (ctxs s)(c := (ctxs s c)\<lparr>m_blocks := n\<rparr>)\<rparr>)"
  "kept s (s\<lparr>ctxs := (ctxs s)(c := (ctxs s c)\<lparr>m_currentPriority := i\<rparr>)\<rparr>)"
  "kept s (s\<lparr>ctxs := (ctxs s)(c := (ctxs s c)\<lparr>m_yields := n, m_currentPriority := i\<rparr>)\<rparr>)"
  by (auto simp: kept_def same_shape_def)

lemma Unblock_kept: "Unblock c b s = Some s' \<Longrightarrow> kept s s'"
  by (auto simp: Unblock_def remove_blocked_def push_yielded_def switch_next_def Let_def split: if_splits)

lemma WakeWaiter_kept: "WakeWaiter x b s = Some s' \<Longrightarrow> kept s s'"
  using Unblock_kept [of _ b "set_cd x ((cds s x)\<lparr>m_satisfied := True\<rparr>) s" s']
  by (auto simp: WakeWaiter_def Let_def split: waiter.splits)

lemma Release_kept: "Release k b s = Some s' \<Longrightarrow> kept s s'"
  by (auto simp: Release_def ReleaseToNext_def pop_waiter_def Let_def dest!: WakeWaiter_kept split: if_splits list.splits)

lemma Poll_kept: "Poll ks s = Some s' \<Longrightarrow> kept s s'"
proof (induction ks arbitrary: s)
  case (Cons k ks)
  then obtain s1 where "Release k False s = Some s1" "Poll ks s1 = Some s'" by (auto simp: bind_eq_Some_conv)
  with Cons.IH [of s1] Release_kept kept_trans show ?case by blast
qed simp

lemma HandleCooperatorResumption_kept: "HandleCooperatorResumption j s = Some s' \<Longrightarrow> kept s s'"
  by (cases j) (auto simp: push_yielded_def push_blocked_def split: if_splits)

lemma loop_resume_kept: "loop_resume s = Some s' \<Longrightarrow> kept s s'"
  by (auto simp: loop_resume_def Resume_def split: list.splits if_splits)

lemma Block_kept: "Block c s = Some s' \<Longrightarrow> kept s s'"
  by (auto simp: Block_def remove_yielded_def push_blocked_def switch_next_def
      dest: HandleCooperatorResumption_kept split: if_splits list.splits)

lemma Context_Block_kept: "Context_Block c s = Some s' \<Longrightarrow> kept s s'"
  by (auto simp: Context_Block_def dest!: Block_kept intro: kept_trans [OF kept_counters(1)])

lemma YieldFrom_kept:
  assumes "YieldFrom c rv ks s = Some s'"
  shows "kept s s'"
proof (cases "direct_ok s")
  case True
  let ?poll = "if ioPresentLimit (m_config s) > 0 \<and> (HasPendingSubmissions rv \<or>
      (m_directYieldsRemaining s AND 3 = 0 \<and> (HasPendingCompletions rv \<or> m_hasSubmissions rv)))
    then do { s0 \<leftarrow> Poll ks s; Some (if m_directYieldsRemaining s0 > ioPresentLimit (m_config s)
      then s0\<lparr>m_directYieldsRemaining := ioPresentLimit (m_config s)\<rparr> else s0) } else Some s"
  from True assms obtain s1 where s1: "?poll = Some s1" and "(if m_directYieldsRemaining s1 = 0 then HandleCooperatorResumption JUMP_YIELDED s1
      else (case m_yielded s1 of [] \<Rightarrow> None
        | next # rest \<Rightarrow> do {
            s2 \<leftarrow> push_yielded c (set_state c YIELDED
              (s1\<lparr>m_directYieldsRemaining := m_directYieldsRemaining s1 - 1, m_yielded := rest\<rparr>));
            Some (switch_next next s2) })) = Some s'" (is "?rest = _")
    unfolding YieldFrom_def by (simp only: if_True bind_eq_Some_conv) blast
  moreover have "kept s s1" using s1 by (auto simp: bind_eq_Some_conv dest!: Poll_kept split: if_splits)
  moreover have "?rest = Some s' \<Longrightarrow> kept s1 s'"
    by (auto simp: push_yielded_def switch_next_def dest: HandleCooperatorResumption_kept split: if_splits list.splits)
  ultimately show ?thesis using kept_trans by blast
qed (use assms in \<open>auto simp only: YieldFrom_def if_False dest: HandleCooperatorResumption_kept\<close>)

lemma Yield_kept:
  assumes "Yield c force u rv ks s = Some (b, s')"
  shows "kept s s'"
proof -
  define i where "i = (if force then m_currentPriority (ctxs s c) else m_currentPriority (ctxs s c) - 1)"
  define s1 where "s1 = s\<lparr>ctxs := (ctxs s)(c := (ctxs s c)\<lparr>m_currentPriority := i\<rparr>)\<rparr>"
  define s2 where "s2 = s1\<lparr>ctxs := (ctxs s1)(c := (ctxs s1 c)\<lparr>m_yields := m_yields (ctxs s1 c) + 1,
    m_currentPriority := m_priority (ctxs s1 c)\<rparr>)\<rparr>"
  have k: "kept s s1" "kept s s2" by (auto simp: s1_def s2_def kept_def same_shape_def)
  have "s' = s1 \<or> YieldFrom c rv ks s2 = Some s'"
    using assms unfolding Yield_def i_def [symmetric] Let_def s1_def [symmetric] s2_def [symmetric]
    by (auto simp: bind_eq_Some_conv split: if_splits)
  then show ?thesis using k YieldFrom_kept kept_trans by blast
qed

lemma TryAcquire_kept: "kept s (snd (TryAcquire k s))"
  by (simp add: TryAcquire_def)

lemma AddAsBlocked_kept: "AddAsBlocked k x s = Some s' \<Longrightarrow> kept s s'"
  by (auto simp: AddAsBlocked_def Let_def split: if_splits)

lemma RemoveAsBlocked_kept: "RemoveAsBlocked k x s = Some s' \<Longrightarrow> kept s s'"
  by (auto simp: RemoveAsBlocked_def Let_def split: if_splits)

lemma Acquire_kept: "Acquire k c x s = Some s' \<Longrightarrow> kept s s'"
  by (auto simp: Acquire_def bind_eq_Some_conv dest!: AddAsBlocked_kept Context_Block_kept
      dest: kept_trans split: if_splits)

lemma mc_try_kept: "mc_try f i s = (r, s') \<Longrightarrow> kept s s'"
  by (induction f i s rule: mc_try.induct) (auto simp: TryAcquire_def split: if_splits)

lemma mc_hook_kept: "mc_hook f c s = Some s' \<Longrightarrow> kept s s'"
proof (induction f c s rule: mc_hook.induct)
  case (2 k x f c s)
  let ?s = "set_cd x ((cds s x)\<lparr>m_waiter := WaitContext c, m_satisfied := False\<rparr>) s"
  from "2.prems" obtain s1 where s1: "AddAsBlocked k x ?s = Some s1" "mc_hook f c s1 = Some s'"
    by (auto simp: bind_eq_Some_conv)
  have "kept s s1" using AddAsBlocked_kept [OF s1(1)] by simp
  with "2.IH" [OF s1] show ?case by (blast intro: kept_trans)
qed simp

lemma mc_acquire_kept: "mc_acquire f c s = Some (r, s') \<Longrightarrow> kept s s'"
  by (auto simp: mc_acquire_def bind_eq_Some_conv dest!: mc_hook_kept Context_Block_kept mc_try_kept
      dest: kept_trans split: prod.splits option.splits)

lemma mc_rest_kept: "mc_rest f s = Some s' \<Longrightarrow> kept s s'"
proof (induction f s rule: mc_rest.induct)
  case (2 k x f s)
  from "2.prems" obtain s1 where s1: "(if m_satisfied (cds s x) then Release k False s else RemoveAsBlocked k x s) = Some s1"
    "mc_rest f s1 = Some s'" by (auto simp: bind_eq_Some_conv)
  have "kept s s1" using s1(1) Release_kept RemoveAsBlocked_kept by (simp split: if_splits)
  with "2.IH" [OF s1] show ?case by (blast intro: kept_trans)
qed simp

lemma mc_finish_kept: "mc_finish f n s = Some (i, s') \<Longrightarrow> kept s s'"
proof (induction f n s rule: mc_finish.induct)
  case (2 k x f n s)
  show ?case
  proof (cases "m_satisfied (cds s x)")
    case True
    with "2.prems" mc_rest_kept show ?thesis by auto
  next
    case False
    with "2.prems" obtain s1 where s1: "RemoveAsBlocked k x s = Some s1" "mc_finish f (Suc n) s1 = Some (i, s')"
      by (auto simp: bind_eq_Some_conv)
    with "2.IH" [OF False s1] show ?thesis using RemoveAsBlocked_kept kept_trans by blast
  qed
qed simp

lemma maybeReset_kept [simp]: "kept s (maybeReset sg i f s') = kept s s'"
  by (simp add: maybeReset_def ResetCoordinator_def)

lemma CoordinateWith_begin_kept: "CoordinateWith_begin sg f c s = Some (r, s') \<Longrightarrow> kept s s'"
  by (auto simp: CoordinateWith_begin_def bind_eq_Some_conv dest!: mc_acquire_kept Acquire_kept
      split: list.splits prod.splits option.splits if_splits)

lemma mc_complete_kept: "mc_complete f s = Some (i, s') \<Longrightarrow> kept s s'"
  using mc_finish_kept [of f 0 s i s'] by (auto simp only: mc_complete_def bind_eq_Some_conv assert_that_def split: if_splits prod.splits)

lemma CoordinateWith_end_kept: "CoordinateWith_end sg f s = Some (i, s') \<Longrightarrow> kept s s'"
  by (auto simp: CoordinateWith_end_def bind_eq_Some_conv dest!: mc_complete_kept split: list.splits prod.splits if_splits)

section \<open>The forest\<close>

text \<open>
  \<open>sg\<close>, \<open>lcp\<close>: which coordinators belong to signals, and which are last-child coordinators. Every context
  owns one of each; children and parents agree; a rank that grows towards the leaves excludes cycles.
\<close>

definition links_ok :: "addr set \<Rightarrow> (addr \<Rightarrow> addr list) \<Rightarrow> (addr \<Rightarrow> addr) \<Rightarrow> bool" where
  "links_ok X ch pa \<longleftrightarrow> null \<notin> X \<and>
     (\<forall>c \<in> X. distinct (ch c)) \<and> (\<forall>c \<in> X. \<forall>d \<in> set (ch c). d \<in> X \<and> pa d = c) \<and>
     (\<forall>d \<in> X. pa d \<noteq> null \<longrightarrow> pa d \<in> X \<and> d \<in> set (ch (pa d))) \<and>
     (\<exists>r::addr \<Rightarrow> nat. \<forall>d \<in> X. pa d \<noteq> null \<longrightarrow> r (pa d) < r d)"

definition owned_ok :: "(addr \<Rightarrow> bool) \<Rightarrow> (addr \<Rightarrow> bool) \<Rightarrow> sched \<Rightarrow> bool" where
  "owned_ok sg lcp s \<longleftrightarrow> (\<forall>k. lcp k \<longrightarrow> \<not> sg k) \<and>
     (\<forall>c \<in> set (m_contexts s). sg (m_killedSignal (ctxs s c)) \<and> lcp (m_lastChild (ctxs s c))) \<and>
     inj_on (\<lambda>c. m_killedSignal (ctxs s c)) (set (m_contexts s)) \<and> inj_on (\<lambda>c. m_lastChild (ctxs s c)) (set (m_contexts s))"

definition tree_ok :: "(addr \<Rightarrow> bool) \<Rightarrow> (addr \<Rightarrow> bool) \<Rightarrow> sched \<Rightarrow> bool" where
  "tree_ok sg lcp s \<longleftrightarrow> links_ok (set (m_contexts s)) (kids_of s) (parent_of s) \<and> owned_ok sg lcp s"

lemma links_okD:
  assumes "links_ok X ch pa"
  shows "null \<notin> X" "c \<in> X \<Longrightarrow> distinct (ch c)" "c \<in> X \<Longrightarrow> d \<in> set (ch c) \<Longrightarrow> d \<in> X" "c \<in> X \<Longrightarrow> d \<in> set (ch c) \<Longrightarrow> pa d = c"
    "d \<in> X \<Longrightarrow> pa d \<noteq> null \<Longrightarrow> pa d \<in> X" "d \<in> X \<Longrightarrow> pa d \<noteq> null \<Longrightarrow> d \<in> set (ch (pa d))"
  using assms unfolding links_ok_def by blast+

text \<open>The tree below a context: it exists, is clean, and holds the context's descendants.\<close>

inductive descends :: "(addr \<Rightarrow> addr list) \<Rightarrow> addr \<Rightarrow> addr \<Rightarrow> bool" for ch where
  self: "descends ch c c"
| child: "d \<in> set (ch c) \<Longrightarrow> descends ch d e \<Longrightarrow> descends ch c e"

lemma tree_exists:
  assumes L: "links_ok X ch pa" and c: "c \<in> X" and fin: "finite X"
  shows "\<exists>ts. tree_of ch pa (CNode c ts) \<and> distinct (map root ts) \<and> null \<notin> root ` set ts \<and>
    (\<forall>e. e \<in> set (postorder (CNode c ts)) \<longleftrightarrow> descends ch c e) \<and>
    (\<forall>o' \<in> X. \<not> descends ch c o' \<longrightarrow> clean o' (CNode c ts)) \<and> (\<forall>u \<in> set ts. clean c u)"
proof -
  note D = links_okD [OF L]
  obtain r :: "addr \<Rightarrow> nat" where r: "\<And>d. d \<in> X \<Longrightarrow> pa d \<noteq> null \<Longrightarrow> r (pa d) < r d"
    using L unfolding links_ok_def by blast
  have up: "r c < r d" if "c \<in> X" "d \<in> set (ch c)" for c d
    using r [of d] D(1,3,4) that by metis
  have "descends ch d e \<Longrightarrow> d \<in> X \<Longrightarrow> r d \<le> r e" for d e
    by (induction rule: descends.induct) (use up D(3) in \<open>fastforce+\<close>)
  then have above: "\<not> descends ch d c" if "c \<in> X" "d \<in> set (ch c)" for c d using up D(3) that by (meson leD)
  have bnd: "r d \<le> Max (r ` X)" if "d \<in> X" for d using that fin by simp
  from c show ?thesis
  proof (induction "Max (r ` X) - r c" arbitrary: c rule: less_induct)
    case less
    note c = less.prems
    have "\<exists>ts. tree_of ch pa (CNode d ts) \<and> distinct (map root ts) \<and> null \<notin> root ` set ts \<and>
      (\<forall>e. e \<in> set (postorder (CNode d ts)) \<longleftrightarrow> descends ch d e) \<and>
      (\<forall>o' \<in> X. \<not> descends ch d o' \<longrightarrow> clean o' (CNode d ts)) \<and> (\<forall>u \<in> set ts. clean d u)" if "d \<in> set (ch c)" for d
    proof (rule less.hyps)
      show "d \<in> X" using D(3) c that by blast
      then show "Max (r ` X) - r d < Max (r ` X) - r c" using up [OF c that] bnd [of d] by linarith
    qed
    then obtain g where g: "\<And>d. d \<in> set (ch c) \<Longrightarrow> tree_of ch pa (CNode d (g d)) \<and>
      (\<forall>e. e \<in> set (postorder (CNode d (g d))) \<longleftrightarrow> descends ch d e) \<and>
      (\<forall>o' \<in> X. \<not> descends ch d o' \<longrightarrow> clean o' (CNode d (g d)))" by metis
    let ?ts = "map (\<lambda>d. CNode d (g d)) (ch c)"
    have rt: "map root ?ts = ch c" by (simp add: comp_def)
    have kids: "pa d = c" "d \<in> X" "d \<noteq> null" if "d \<in> set (ch c)" for d using D(1,3,4) c that by metis+
    have nn: "null \<notin> root ` set ?ts" using kids(3) [of null] by auto
    have post: "e \<in> set (postorder (CNode c ?ts)) \<longleftrightarrow> descends ch c e" for e
      using g by (subst descends.simps) auto
    have cl: "clean o' (CNode c ?ts)" if "o' \<in> X" "\<not> descends ch c o'" for o'
    proof -
      have "c \<noteq> o'" using that(2) descends.self by metis
      moreover have "\<not> descends ch d o'" if "d \<in> set (ch c)" for d using \<open>\<not> descends ch c o'\<close> that descends.child by metis
      ultimately show ?thesis using g that(1) nn D(2) [OF c] by (auto simp: comp_def)
    qed
    have "tree_of ch pa (CNode c ?ts)" using g kids(1) by (auto simp: comp_def)
    moreover have "distinct (map root ?ts)" unfolding rt using D(2) [OF c] .
    moreover have "\<forall>u \<in> set ?ts. clean c u" using g above [OF c] c by auto
    ultimately show ?case using nn post cl by blast
  qed
qed

section \<open>Kill\<close>

lemma notify_all_ok:
  assumes "rt_inv sg s F e" and "m_scheduled s = t" "t \<noteq> null" "m_locals s t = []"
    and "\<forall>c \<in> set cs. sg (m_killedSignal (ctxs s c))"
  shows "\<exists>s'. notify_all t cs s = Some s' \<and> rt_inv sg s' F e \<and> quiet s s' \<and> m_locals s' = m_locals s \<and>
    (\<forall>k. m_signaled s' k \<longleftrightarrow> m_signaled s k \<or> k \<in> (\<lambda>c. m_killedSignal (ctxs s c)) ` set cs) \<and>
    (\<forall>k. \<not> sg k \<longrightarrow> coords s' k = coords s k)"
  using assms
proof (induction cs arbitrary: s)
  case (Cons c cs)
  let ?k = "m_killedSignal (ctxs s c)"
  have k: "sg ?k" using Cons.prems(5) by simp
  from Notify_ok [OF Cons.prems(1) k Cons.prems(4) running_ok [OF Cons.prems(1-3)], of False]
  obtain s1 where s1: "Notify ?k t False s = Some s1" "rt_inv sg s1 F e" "m_signaled s1 = (m_signaled s)(?k := True)"
    "coords s1 = (coords s)(?k := \<lparr>m_held = False, m_blocking = []\<rparr>)" "\<forall>t'. t' \<noteq> t \<longrightarrow> m_locals s1 t' = m_locals s t'"
    "m_scheduled s1 = m_scheduled s \<longrightarrow> m_locals s1 t = []" "quiet s s1" by blast
  have l: "m_locals s1 = m_locals s" using s1(5-7) Cons.prems(4) by (metis ext quiet_def)
  have sh: "m_killedSignal (ctxs s1 d) = m_killedSignal (ctxs s d)" for d
    using Notify_shape [OF s1(1)] by (simp add: same_shape_def)
  have "\<exists>s'. notify_all t cs s1 = Some s' \<and> rt_inv sg s' F e \<and> quiet s1 s' \<and> m_locals s' = m_locals s1 \<and>
    (\<forall>k. m_signaled s' k \<longleftrightarrow> m_signaled s1 k \<or> k \<in> (\<lambda>c. m_killedSignal (ctxs s1 c)) ` set cs) \<and>
    (\<forall>k. \<not> sg k \<longrightarrow> coords s' k = coords s1 k)"
    by (rule Cons.IH) (use s1(2,7) Cons.prems l sh in \<open>simp_all add: quiet_def\<close>)
  then obtain s' where s': "notify_all t cs s1 = Some s'" "rt_inv sg s' F e" "quiet s1 s'" "m_locals s' = m_locals s1"
    "\<forall>k. m_signaled s' k \<longleftrightarrow> m_signaled s1 k \<or> k \<in> (\<lambda>c. m_killedSignal (ctxs s1 c)) ` set cs"
    "\<forall>k. \<not> sg k \<longrightarrow> coords s' k = coords s1 k" by blast
  have "notify_all t (c # cs) s = Some s'" using s1(1) s'(1) by simp
  moreover have "\<forall>k. m_signaled s' k \<longleftrightarrow> m_signaled s k \<or> k \<in> (\<lambda>c. m_killedSignal (ctxs s c)) ` set (c # cs)"
    using s'(5) s1(3) sh by auto
  moreover have "\<forall>k'. \<not> sg k' \<longrightarrow> coords s' k' = coords s k'" using s'(6) s1(4) k by auto
  ultimately show ?case using s'(2,4) l quiet_trans [OF s1(7) s'(3)] by metis
qed simp

lemma tree_ok_kept:
  assumes "tree_ok sg lcp s" and "same_shape s s'" and "m_contexts s' = m_contexts s"
  shows "tree_ok sg lcp s'"
proof -
  have [simp]: "m_killedSignal (ctxs s' c) = m_killedSignal (ctxs s c)" "m_lastChild (ctxs s' c) = m_lastChild (ctxs s c)" for c
    using assms(2) by (simp_all add: same_shape_def)
  show ?thesis using assms(1) unfolding tree_ok_def owned_ok_def shape_fun [OF assms(2)] assms(3) by simp
qed

lemma Kill_is_notify_all:
  assumes "tree_ok sg lcp s" and "other \<in> set (m_contexts s)"
  shows "\<exists>ts. tree_of (kids_of s) (parent_of s) (CNode other ts) \<and>
    (\<forall>d. d \<in> set (postorder (CNode other ts)) \<longleftrightarrow> descends (kids_of s) other d) \<and>
    (\<forall>t schedule. Kill t other schedule s = do {
       s1 \<leftarrow> notify_all t (concat (map postorder ts)) s; Notify (m_killedSignal (ctxs s other)) t schedule s1 })"
proof -
  have L: "links_ok (set (m_contexts s)) (kids_of s) (parent_of s)" using assms(1) by (simp add: tree_ok_def)
  from tree_exists [OF L assms(2)] obtain ts where ts: "tree_of (kids_of s) (parent_of s) (CNode other ts)"
    "distinct (map root ts)" "null \<notin> root ` set ts" "\<forall>e. e \<in> set (postorder (CNode other ts)) \<longleftrightarrow> descends (kids_of s) other e"
    "\<forall>u \<in> set ts. clean other u" by blast
  have "Kill t other schedule s = do {
       s1 \<leftarrow> notify_all t (concat (map postorder ts)) s; Notify (m_killedSignal (ctxs s1 other)) t schedule s1 }" for t schedule
    by (rule Kill_postorder) (use ts in auto)
  moreover have "m_killedSignal (ctxs s1 other) = m_killedSignal (ctxs s other)"
    if "notify_all t (concat (map postorder ts)) s = Some s1" for s1 t
    using notify_all_shape [OF that] by (simp add: same_shape_def)
  ultimately have "\<forall>t schedule. Kill t other schedule s = do {
       s1 \<leftarrow> notify_all t (concat (map postorder ts)) s; Notify (m_killedSignal (ctxs s other)) t schedule s1 }"
    by (auto split: Option.bind_splits)
  then show ?thesis using ts(1,4) by blast
qed

lemma descends_closed: "descends ch c e \<Longrightarrow> links_ok X ch pa \<Longrightarrow> c \<in> X \<Longrightarrow> e \<in> X"
  by (induction rule: descends.induct) (auto dest: links_okD(3))

lemma Kill_ok:
  assumes inv: "rt_inv sg s F e" and tr: "tree_ok sg lcp s" and t: "m_scheduled s = t" "t \<noteq> null" "m_locals s t = []"
    and o: "other \<in> set (m_contexts s)"
  shows "\<exists>s'. Kill t other schedule s = Some s' \<and> rt_inv sg s' F e \<and> tree_ok sg lcp s' \<and> same_shape s s' \<and>
    m_contexts s' = m_contexts s \<and> (m_scheduled s' = m_scheduled s \<longrightarrow> m_locals s' t = []) \<and>
    (\<forall>k. m_signaled s' k \<longleftrightarrow> m_signaled s k \<or> (\<exists>d. descends (kids_of s) other d \<and> k = m_killedSignal (ctxs s d))) \<and>
    (\<forall>k. \<not> sg k \<longrightarrow> coords s' k = coords s k) \<and> (\<not> schedule \<longrightarrow> quiet s s')"
proof -
  obtain ts where ts: "\<forall>d. d \<in> set (postorder (CNode other ts)) \<longleftrightarrow> descends (kids_of s) other d"
    "Kill t other schedule s = do {
       s1 \<leftarrow> notify_all t (concat (map postorder ts)) s; Notify (m_killedSignal (ctxs s other)) t schedule s1 }"
    using Kill_is_notify_all [OF tr o] by blast
  have L: "links_ok (set (m_contexts s)) (kids_of s) (parent_of s)" using tr by (simp add: tree_ok_def)
  have desc: "d \<in> set (m_contexts s)" if "d \<in> set (concat (map postorder ts))" for d
    using descends_closed [OF _ L o] ts(1) that by auto
  have sig: "sg (m_killedSignal (ctxs s d))" if "d \<in> set (m_contexts s)" for d using tr that by (simp add: tree_ok_def owned_ok_def)
  from notify_all_ok [OF inv t, of "concat (map postorder ts)"] desc sig obtain s1 where
    s1: "notify_all t (concat (map postorder ts)) s = Some s1" "rt_inv sg s1 F e" "quiet s s1" "m_locals s1 = m_locals s"
    "\<forall>k. m_signaled s1 k \<longleftrightarrow> m_signaled s k \<or> k \<in> (\<lambda>c. m_killedSignal (ctxs s c)) ` set (concat (map postorder ts))"
    "\<forall>k. \<not> sg k \<longrightarrow> coords s1 k = coords s k" by blast
  let ?k = "m_killedSignal (ctxs s other)"
  have r: "m_scheduled s1 = t" "m_locals s1 t = []" using s1(3,4) t by (simp_all add: quiet_def)
  from Notify_ok [OF s1(2) sig [OF o] r(2) running_ok [OF s1(2) r(1) t(2)], of schedule] r(1) t(2) obtain s' where
    s': "Notify ?k t schedule s1 = Some s'" "rt_inv sg s' F e" "m_contexts s' = m_contexts s1"
    "m_signaled s' = (m_signaled s1)(?k := True)" "coords s' = (coords s1)(?k := \<lparr>m_held = False, m_blocking = []\<rparr>)"
    "m_scheduled s' = m_scheduled s1 \<longrightarrow> m_locals s' t = []" "\<not> schedule \<longrightarrow> quiet s1 s'" by blast
  have sh: "same_shape s s'" using notify_all_shape [OF s1(1)] Notify_shape [OF s'(1)] same_shape_trans by blast
  have cx: "m_contexts s' = m_contexts s" using s'(3) s1(3) by (simp add: quiet_def)
  have ds: "descends (kids_of s) other d \<longleftrightarrow> d = other \<or> d \<in> set (concat (map postorder ts))" for d using ts(1) by auto
  have "m_signaled s' k \<longleftrightarrow> m_signaled s k \<or> (\<exists>d. descends (kids_of s) other d \<and> k = m_killedSignal (ctxs s d))" for k
    using s'(4) s1(5) unfolding ds by auto
  moreover have "\<forall>k. \<not> sg k \<longrightarrow> coords s' k = coords s k" using s'(5) s1(6) sig [OF o] by auto
  moreover have "Kill t other schedule s = Some s'" using ts(2) s1(1) s'(1) by simp
  ultimately show ?thesis using s'(2,6,7) sh cx tree_ok_kept [OF tr sh cx] r(1) t(1) quiet_trans [OF s1(3)] by metis
qed

section \<open>Contexts come and go\<close>

lemma links_okI:
  assumes "null \<notin> X" "\<And>c. c \<in> X \<Longrightarrow> distinct (ch c)" "\<And>c d. c \<in> X \<Longrightarrow> d \<in> set (ch c) \<Longrightarrow> d \<in> X \<and> pa d = c"
    "\<And>d. d \<in> X \<Longrightarrow> pa d \<noteq> null \<Longrightarrow> pa d \<in> X \<and> d \<in> set (ch (pa d)) \<and> (r::addr \<Rightarrow> nat) (pa d) < r d"
  shows "links_ok X ch pa"
  unfolding links_ok_def using assms by blast

lemma links_rank:
  assumes "links_ok X ch pa"
  obtains r :: "addr \<Rightarrow> nat" where "\<And>d. d \<in> X \<Longrightarrow> pa d \<noteq> null \<Longrightarrow> r (pa d) < r d"
  using assms unfolding links_ok_def by blast

lemma links_root: "links_ok X ch pa \<Longrightarrow> n \<notin> X \<Longrightarrow> n \<noteq> null \<Longrightarrow> links_ok (insert n X) (ch(n := [])) (pa(n := null))"
  unfolding links_ok_def by (auto dest: bspec)

lemma links_child:
  assumes L: "links_ok X ch pa" and n: "n \<notin> X" "n \<noteq> null" and p: "p \<in> X"
  shows "links_ok (insert n X) (ch(n := [], p := ch p @ [n])) (pa(n := p))"
proof -
  note D = links_okD [OF L]
  obtain r where r: "\<And>d. d \<in> X \<Longrightarrow> pa d \<noteq> null \<Longrightarrow> (r::addr \<Rightarrow> nat) (pa d) < r d" using links_rank [OF L] by blast
  have np: "n \<noteq> p" "n \<notin> set (ch c)" if "c \<in> X" for c using n p D(3) that by auto
  show ?thesis
  proof (rule links_okI [where r = "r(n := Suc (r p))"])
    show "null \<notin> insert n X" using D(1) n by auto
    show "distinct ((ch(n := [], p := ch p @ [n])) c)" if "c \<in> insert n X" for c using D(2) that p np by auto
    show "d \<in> insert n X \<and> (pa(n := p)) d = c" if "c \<in> insert n X" "d \<in> set ((ch(n := [], p := ch p @ [n])) c)" for c d
      using that D(3,4) p np by (auto split: if_splits)
    show "(pa(n := p)) d \<in> insert n X \<and> d \<in> set ((ch(n := [], p := ch p @ [n])) ((pa(n := p)) d)) \<and>
        (r(n := Suc (r p))) ((pa(n := p)) d) < (r(n := Suc (r p))) d" if "d \<in> insert n X" "(pa(n := p)) d \<noteq> null" for d
    proof (cases "d = n")
      case True
      then show ?thesis using p np [OF p] by auto
    next
      case False
      then have "d \<in> X" "pa d \<noteq> null" using that by auto
      then show ?thesis using D(5,6) r [of d] n(1) False np [OF p] by auto
    qed
  qed
qed

lemma links_detach:
  assumes L: "links_ok X ch pa" and c: "c \<in> X" "pa c \<noteq> null"
  shows "links_ok X (ch(pa c := remove1 c (ch (pa c)))) (pa(c := null))"
proof -
  note D = links_okD [OF L]
  obtain r where r: "\<And>d. d \<in> X \<Longrightarrow> pa d \<noteq> null \<Longrightarrow> (r::addr \<Rightarrow> nat) (pa d) < r d" using links_rank [OF L] by blast
  have m: "d \<in> set ((ch(pa c := remove1 c (ch (pa c)))) e) \<longleftrightarrow> d \<in> set (ch e) \<and> d \<noteq> c" if "e \<in> X" for d e
    using D(2) [OF that] D(4) [OF that, of c] by (cases "e = pa c") auto
  show ?thesis
  proof (rule links_okI [where r = r])
    show "distinct ((ch(pa c := remove1 c (ch (pa c)))) e)" if "e \<in> X" for e using D(2) [OF that] by (auto simp: distinct_remove1)
    show "d \<in> X \<and> (pa(c := null)) d = e" if "e \<in> X" "d \<in> set ((ch(pa c := remove1 c (ch (pa c)))) e)" for d e
      using that D(3,4) unfolding m [OF that(1)] by auto
    show "(pa(c := null)) d \<in> X \<and> d \<in> set ((ch(pa c := remove1 c (ch (pa c)))) ((pa(c := null)) d)) \<and> r ((pa(c := null)) d) < r d"
      if "d \<in> X" "(pa(c := null)) d \<noteq> null" for d
    proof -
      have d: "d \<noteq> c" "pa d \<noteq> null" using that(2) by (auto split: if_splits)
      then show ?thesis using D(5,6) [OF that(1) d(2)] r [OF that(1) d(2)] m [OF D(5) [OF that(1) d(2)], of d] by simp
    qed
  qed (rule D(1))
qed

lemma links_exit:
  assumes L: "links_ok X ch pa" and c: "pa c = null" "ch c = []"
  shows "links_ok (X - {c}) ch pa"
proof -
  note D = links_okD [OF L]
  obtain r where r: "\<And>d. d \<in> X \<Longrightarrow> pa d \<noteq> null \<Longrightarrow> (r::addr \<Rightarrow> nat) (pa d) < r d" using links_rank [OF L] by blast
  show ?thesis
  proof (rule links_okI [where r = r])
    show "d \<in> X - {c} \<and> pa d = e" if "e \<in> X - {c}" "d \<in> set (ch e)" for d e using that D(1,3,4) c(1) by (metis Diff_iff singletonD)
    show "pa d \<in> X - {c} \<and> d \<in> set (ch (pa d)) \<and> r (pa d) < r d" if "d \<in> X - {c}" "pa d \<noteq> null" for d
      using that D(5,6) r [of d] c(2) by (metis Diff_iff empty_iff empty_set singletonD)
  qed (use D(1,2) in auto)
qed

text \<open>A context outside the list does not matter to the lists and waits.\<close>

lemma lists_ok_outside: "lists_ok cs ys bs r st \<Longrightarrow> c \<notin> set cs \<Longrightarrow> lists_ok cs ys bs r (st(c := v))"
  unfolding lists_ok_def by auto

lemma waits_outside:
  assumes w: "waits_ok W C S A B X F e" and n: "n \<notin> X"
  shows "waits_ok W C S A (B(n := False)) X F e"
proof -
  note D = waits_okD [OF w]
  show ?thesis
  proof (rule waits_okI, goal_cases)
    case (4 c) then show ?case using D(4) [of c] by (simp split: if_splits)
  next
    case (8 c x) then show ?case using D(8) [of c x] by (auto split: if_splits)
  next
    case (9 c) then show ?case using D(6) [of c] D(9) [of c] n by (cases "c = n") simp_all
  next
    case (14 t) then show ?case using D(14) [of t] by auto
  qed (fact D)+
qed

lemma EnterContext_ok:
  assumes inv: "rt_inv sg s F e" and c: "c \<notin> set (m_contexts s)" "c \<noteq> null"
  shows "\<exists>s'. EnterContext c (s\<lparr>m_contexts := m_contexts s @ [c]\<rparr>) = Some s' \<and> rt_inv sg s' F e \<and> kept s s' \<and>
    m_contexts s' = m_contexts s @ [c] \<and> m_scheduled s' = c \<and> coords s' = coords s \<and> m_locals s' = m_locals s"
proof -
  note D = rt_invD [OF inv]
  note L = D(1) [unfolded sched_inv_def]
  define s1 where "s1 = (if m_scheduled s \<noteq> null then (set_state (m_scheduled s) YIELDED s)\<lparr>m_yielded := m_yielded s @ [m_scheduled s]\<rparr>
    else s)\<lparr>m_contexts := m_contexts s @ [c], m_scheduled := null\<rparr>"
  define s' where "s' = switch_next c s1"
  have "lists_ok (m_contexts s) (m_yielded s1) (m_blocked s1) null (state_of s1)"
    using L run_to_yielded [OF L] by (auto simp: s1_def)
  from enter_run [OF this c] have inv': "sched_inv s'"
    by (auto simp: s'_def s1_def switch_next_def sched_inv_def)
  let ?s = "s\<lparr>m_contexts := m_contexts s @ [c]\<rparr>"
  have fl: "(if m_scheduled ?s \<noteq> null
      then map_option (\<lambda>s. s\<lparr>m_scheduled := null\<rparr>) (push_yielded (m_scheduled ?s) (set_state (m_scheduled ?s) YIELDED ?s))
      else Some ?s) = Some s1"
    using lists_okD(1,2) [OF L] by (cases s) (simp add: push_yielded_def s1_def set_state_def)
  have en: "EnterContext c (s\<lparr>m_contexts := m_contexts s @ [c]\<rparr>) = Some s'"
    using SanityCheck_ok [OF inv'] unfolding EnterContext_def fl by (simp add: s'_def Let_def)
  have v: "wl s' = wl s" "conn s' = conn s" "sat s' = sat s" "waiter_of s' = waiter_of s" "blk s' = (blk s)(c := False)"
    using lists_okD(7) [OF L]
    by (auto simp: s'_def s1_def switch_next_def wl_def conn_def sat_def waiter_of_def blk_def set_state_def state_of_def fun_eq_iff split: place.splits)
  have o: "coords s' = coords s" "m_signaled s' = m_signaled s" "m_locals s' = m_locals s" "m_contexts s' = m_contexts s @ [c]"
    "m_pendingContinuations s' = m_pendingContinuations s" "m_inThunk s' = m_inThunk s" "m_scheduled s' = c"
    by (auto simp: s'_def s1_def switch_next_def set_state_def)
  have "waits_ok (wl s') (conn s') (sat s') (waiter_of s') (blk s') (set (m_contexts s')) F e"
    using waits_spawn [OF D(2) c(1)] unfolding v o by simp
  then have "rt_inv sg s' F e" using inv' D(3-6) o by (simp add: rt_inv_def coords_ok_def armed_ok_def)
  moreover have "kept s s'" by (simp add: s'_def s1_def switch_next_def)
  ultimately show ?thesis using en o by blast
qed

text \<open>A fresh context at \<open>n\<close> with its kill signal \<open>sig\<close> and last-child coordinator \<open>lc\<close>.\<close>

definition fresh_context :: "(addr \<Rightarrow> bool) \<Rightarrow> (addr \<Rightarrow> bool) \<Rightarrow> sched \<Rightarrow> (addr \<Rightarrow> mc) \<Rightarrow> addr \<Rightarrow> addr \<Rightarrow> addr \<Rightarrow> bool" where
  "fresh_context sg lcp s F n sig lc \<longleftrightarrow> n \<notin> set (m_contexts s) \<and> n \<noteq> null \<and> sg sig \<and> lcp lc \<and>
     blocking s sig = [] \<and> blocking s lc = [] \<and> (\<forall>d x. (sig, x) \<notin> set (F d)) \<and>
     (\<forall>d \<in> set (m_contexts s). m_killedSignal (ctxs s d) \<noteq> sig \<and> m_lastChild (ctxs s d) \<noteq> lc)"

definition blank :: "addr \<Rightarrow> addr \<Rightarrow> int \<Rightarrow> addr \<Rightarrow> addr \<Rightarrow> sched \<Rightarrow> sched" where
  "blank n parent prio sig lc s = set_coord sig \<lparr>m_held = True, m_blocking = []\<rparr> (set_coord lc \<lparr>m_held = False, m_blocking = []\<rparr>
     (s\<lparr>ctxs := (ctxs s)(n := \<lparr>m_state = YIELDED, m_priority = prio, m_currentPriority = prio, m_parent = parent,
          m_children = [], m_lastChild = lc, m_killedSignal = sig, m_yields = 0, m_blocks = 0\<rparr>),
        m_signaled := (m_signaled s)(sig := False)\<rparr>))"

lemma blank_ok:
  assumes inv: "rt_inv sg s F e" and n: "fresh_context sg lcp s F n sig lc" and l: "\<And>k. lcp k \<Longrightarrow> \<not> sg k"
  shows "rt_inv sg (blank n parent prio sig lc s) F e"
proof -
  let ?s = "blank n parent prio sig lc s"
  note D = rt_invD [OF inv]
  note N = n [unfolded fresh_context_def]
  have st: "state_of ?s = (state_of s)(n := YIELDED)" by (auto simp: blank_def state_of_def set_coord_def)
  have "sched_inv ?s"
    using lists_ok_outside [OF D(1) [unfolded sched_inv_def], of n YIELDED] N unfolding sched_inv_def st by (simp add: blank_def set_coord_def)
  moreover have v: "wl ?s = wl s" "conn ?s = conn s" "sat ?s = sat s" "waiter_of ?s = waiter_of s" "blk ?s = (blk s)(n := False)"
    using N by (auto simp: blank_def set_coord_def wl_def conn_def sat_def waiter_of_def blk_def state_of_def fun_eq_iff split: place.splits)
  then have "waits_ok (wl ?s) (conn ?s) (sat ?s) (waiter_of ?s) (blk ?s) (set (m_contexts ?s)) F e"
    using waits_outside [OF D(2), of n] N unfolding v by (simp add: blank_def set_coord_def)
  moreover have "coords_ok sg ?s"
    using D(3) N l [of lc] by (auto simp: coords_ok_def blank_def set_coord_def)
  moreover have "armed_ok sg ?s F"
    using D(4) N unfolding armed_ok_def blank_def set_coord_def by (fastforce split: if_splits)
  ultimately show ?thesis using D(5,6) by (simp add: rt_inv_def blank_def set_coord_def)
qed

lemma Spawn_ok:
  assumes inv: "rt_inv sg s F e" and tr: "tree_ok sg lcp s" and n: "fresh_context sg lcp s F n sig lc"
    and p: "m_scheduled s = p"
    and go: "alloc" "p = null \<or> \<not> IsKilled s p"
  shows "\<exists>s'. Spawn n prio sig lc alloc s = Some (True, s') \<and> rt_inv sg s' F e \<and> tree_ok sg lcp s' \<and>
    m_contexts s' = m_contexts s @ [n] \<and> m_scheduled s' = n \<and> m_locals s' = m_locals s \<and>
    kids_of s' = (if p = null then (kids_of s)(n := []) else (kids_of s)(n := [], p := kids_of s p @ [n])) \<and>
    parent_of s' = (parent_of s)(n := p) \<and> m_signaled s' = (m_signaled s)(sig := False) \<and>
    (\<forall>d. m_killedSignal (ctxs s' d) = (if d = n then sig else m_killedSignal (ctxs s d))) \<and>
    (\<forall>d. m_lastChild (ctxs s' d) = (if d = n then lc else m_lastChild (ctxs s d))) \<and>
    \<not> held s' lc \<and> (p \<noteq> null \<longrightarrow> held s' (m_lastChild (ctxs s p))) \<and>
    (\<forall>k. k \<noteq> sig \<longrightarrow> k \<noteq> lc \<longrightarrow> (p = null \<or> k \<noteq> m_lastChild (ctxs s p)) \<longrightarrow> coords s' k = coords s k)"
proof -
  note N = n [unfolded fresh_context_def]
  have L: "links_ok (set (m_contexts s)) (kids_of s) (parent_of s)" and O: "owned_ok sg lcp s" using tr by (simp_all add: tree_ok_def)
  have l: "lcp k \<Longrightarrow> \<not> sg k" for k using O by (simp add: owned_ok_def)
  have pX: "p \<in> set (m_contexts s)" if "p \<noteq> null"
    using that p lists_okD(6) [OF rt_invD(1) [OF inv, unfolded sched_inv_def]] by simp
  let ?k = "m_lastChild (ctxs s p)"
  define b where "b = blank n p prio sig lc s"
  define s1 where "s1 = (if p = null then b else snd (TryAcquire ?k
    (b\<lparr>ctxs := (ctxs b)(p := (ctxs b p)\<lparr>m_children := m_children (ctxs b p) @ [n]\<rparr>)\<rparr>)))"
  have bi: "rt_inv sg b F e" unfolding b_def by (rule blank_ok [OF inv n l])
  have pn: "p \<noteq> n" "?k \<noteq> lc" "?k \<noteq> sig" "\<not> sg ?k" "n \<notin> set (kids_of s p)" "sig \<noteq> m_killedSignal (ctxs s p)" if "p \<noteq> null"
    using pX [OF that] N O l links_okD(3) [OF L, of p n] by (auto simp: owned_ok_def)
  have b: "ctxs b p = ctxs s p" if "p \<noteq> null" using pn(1) that by (simp add: b_def blank_def set_coord_def)
  have kl: "m_signaled b (m_killedSignal (ctxs s p)) = m_signaled s (m_killedSignal (ctxs s p))" if "p \<noteq> null"
    using pn(6) [OF that] by (simp add: b_def blank_def set_coord_def)
  have cn: "Context_new n p prio sig lc s = Some s1"
  proof (cases "p = null")
    case False
    then show ?thesis using pn(5) b kl go(2)
      unfolding Context_new_def s1_def blank_def [symmetric] Let_def b_def [symmetric] IsKilled_def by simp
  qed (simp add: Context_new_def s1_def b_def blank_def Let_def)
  have i1: "rt_inv sg s1 F e"
  proof (cases "p = null")
    case False
    have "rt_inv sg (b\<lparr>ctxs := (ctxs b)(p := (ctxs b p)\<lparr>m_children := m_children (ctxs b p) @ [n]\<rparr>)\<rparr>) F e"
      by (rule rt_inv_ctxs [OF bi]) simp
    from TryAcquire_ok(1) [OF this pn(4) [OF False]] False show ?thesis by (simp add: s1_def)
  qed (use bi in \<open>simp add: s1_def\<close>)
  have f1: "m_contexts s1 = m_contexts s" "m_locals s1 = m_locals s" "m_signaled s1 = (m_signaled s)(sig := False)"
    "kids_of s1 = (if p = null then (kids_of s)(n := []) else (kids_of s)(n := [], p := kids_of s p @ [n]))"
    "parent_of s1 = (parent_of s)(n := p)"
    "\<And>d. m_killedSignal (ctxs s1 d) = (if d = n then sig else m_killedSignal (ctxs s d))"
    "\<And>d. m_lastChild (ctxs s1 d) = (if d = n then lc else m_lastChild (ctxs s d))"
    using pn(1) by (auto simp: s1_def b_def blank_def set_coord_def TryAcquire_def)
  have c1: "\<not> held s1 lc" "p \<noteq> null \<longrightarrow> held s1 ?k" "\<And>k. k \<noteq> sig \<Longrightarrow> k \<noteq> lc \<Longrightarrow> p = null \<or> k \<noteq> ?k \<Longrightarrow> coords s1 k = coords s k"
    using pn(2) N l by (auto simp: s1_def b_def blank_def set_coord_def TryAcquire_def)
  from EnterContext_ok [OF i1, of n] N f1(1) obtain s' where
    s': "EnterContext n (s1\<lparr>m_contexts := m_contexts s1 @ [n]\<rparr>) = Some s'" "rt_inv sg s' F e" "kept s1 s'"
    "m_contexts s' = m_contexts s @ [n]" "m_scheduled s' = n" "coords s' = coords s1" "m_locals s' = m_locals s1" by auto
  have sp: "Spawn n prio sig lc alloc s = Some (True, s')"
    using go N f1(1) s'(1) cn p by (auto simp: Spawn_def)
  note sh = shape_fun [OF s'(3) [unfolded kept_def, THEN conjunct1]]
  have own: "m_killedSignal (ctxs s' d) = (if d = n then sig else m_killedSignal (ctxs s d))"
    "m_lastChild (ctxs s' d) = (if d = n then lc else m_lastChild (ctxs s d))" for d
    using s'(3) f1(6,7) [of d] by (simp_all add: kept_def same_shape_def)
  have "links_ok (set (m_contexts s')) (kids_of s') (parent_of s')"
    using links_child [OF L, of n p] links_root [OF L, of n] pX N unfolding sh f1(4,5) s'(4) by auto
  moreover have "owned_ok sg lcp s'"
    using O N unfolding owned_ok_def own s'(4) by (auto simp: inj_on_def)
  ultimately have "tree_ok sg lcp s'" by (simp add: tree_ok_def)
  moreover have "m_signaled s' = (m_signaled s)(sig := False)" "m_locals s' = m_locals s"
    using s'(3,7) f1(2,3) by (simp_all add: kept_def)
  moreover note sh [unfolded f1(4,5)] c1 [folded s'(6)]
  ultimately show ?thesis using sp s'(2,4,5) own by blast
qed

lemma Detach_ok:
  assumes inv: "rt_inv sg s F e" and tr: "tree_ok sg lcp s" and c: "c \<in> set (m_contexts s)" and p: "parent_of s c = p" "p \<noteq> null"
  shows "\<exists>s'. Detach c s = Some s' \<and> rt_inv sg s' F e \<and> tree_ok sg lcp s' \<and> quiet s s' \<and> m_locals s' = m_locals s \<and>
    m_signaled s' = m_signaled s \<and> kids_of s' = (kids_of s)(p := remove1 c (kids_of s p)) \<and>
    parent_of s' = (parent_of s)(c := null) \<and>
    (\<forall>d. m_killedSignal (ctxs s' d) = m_killedSignal (ctxs s d) \<and> m_lastChild (ctxs s' d) = m_lastChild (ctxs s d)) \<and>
    (\<forall>k. k \<noteq> m_lastChild (ctxs s p) \<or> remove1 c (kids_of s p) \<noteq> [] \<longrightarrow> coords s' k = coords s k) \<and>
    (remove1 c (kids_of s p) = [] \<longrightarrow> (held s' (m_lastChild (ctxs s p)) \<longleftrightarrow>
       held s (m_lastChild (ctxs s p)) \<and> blocking s (m_lastChild (ctxs s p)) \<noteq> []))"
proof -
  have L: "links_ok (set (m_contexts s)) (kids_of s) (parent_of s)" and O: "owned_ok sg lcp s" using tr by (simp_all add: tree_ok_def)
  obtain r :: "addr \<Rightarrow> nat" where "\<And>d. d \<in> set (m_contexts s) \<Longrightarrow> parent_of s d \<noteq> null \<Longrightarrow> r (parent_of s d) < r d"
    using links_rank [OF L] by blast
  from this [OF c] p have "p \<noteq> c" by auto
  then have pX: "p \<in> set (m_contexts s)" "c \<in> set (kids_of s p)" "p \<noteq> c"
    using links_okD(5,6) [OF L c] p by auto
  let ?k = "m_lastChild (ctxs s p)"
  define s1 where "s1 = s\<lparr>ctxs := (ctxs s)(p := (ctxs s p)\<lparr>m_children := remove1 c (kids_of s p)\<rparr>)\<rparr>"
  have i1: "rt_inv sg s1 F e" unfolding s1_def by (rule rt_inv_ctxs [OF inv]) simp
  have k: "\<not> sg ?k" using O pX(1) by (simp add: owned_ok_def)
  define rs where "rs = (if remove1 c (kids_of s p) = [] then Release ?k False s1 else Some s1)"
  have "\<exists>s2. rs = Some s2 \<and> rt_inv sg s2 F e \<and> quiet s1 s2 \<and> m_locals s2 = m_locals s1 \<and> kept s1 s2 \<and>
    (\<forall>k. k \<noteq> ?k \<or> remove1 c (kids_of s p) \<noteq> [] \<longrightarrow> coords s2 k = coords s1 k) \<and>
    (remove1 c (kids_of s p) = [] \<longrightarrow> (held s2 ?k \<longleftrightarrow> held s1 ?k \<and> blocking s1 ?k \<noteq> []))"
  proof (cases "remove1 c (kids_of s p) = []")
    case True
    from Release_ok [OF i1, of ?k False] k obtain s2 where s2: "Release ?k False s1 = Some s2" "rt_inv sg s2 F e" "quiet s1 s2"
      "m_locals s2 = m_locals s1" "\<forall>k'. k' \<noteq> ?k \<longrightarrow> coords s2 k' = coords s1 k'"
      "held s2 ?k \<longleftrightarrow> held s1 ?k \<and> blocking s1 ?k \<noteq> []" by blast
    then show ?thesis using True Release_kept [OF s2(1)] by (simp add: rs_def)
  qed (use i1 in \<open>simp add: rs_def\<close>)
  then obtain s2 where s2: "rs = Some s2" "rt_inv sg s2 F e" "quiet s1 s2" "m_locals s2 = m_locals s1" "kept s1 s2"
    "\<forall>k. k \<noteq> ?k \<or> remove1 c (kids_of s p) \<noteq> [] \<longrightarrow> coords s2 k = coords s1 k"
    "remove1 c (kids_of s p) = [] \<longrightarrow> (held s2 ?k \<longleftrightarrow> held s1 ?k \<and> blocking s1 ?k \<noteq> [])" by blast
  define s' where "s' = s2\<lparr>ctxs := (ctxs s2)(c := (ctxs s2 c)\<lparr>m_parent := null\<rparr>)\<rparr>"
  have det: "Detach c s = Some s'"
  proof -
    have "Detach c s = do { s2 \<leftarrow> rs; Some (s2\<lparr>ctxs := (ctxs s2)(c := (ctxs s2 c)\<lparr>m_parent := null\<rparr>)\<rparr>) }"
      using p pX(2) by (simp add: Detach_def rs_def s1_def Let_def)
    with s2(1) show ?thesis by (simp add: s'_def)
  qed
  have i': "rt_inv sg s' F e" unfolding s'_def by (rule rt_inv_ctxs [OF s2(2)]) simp
  have sh: "m_parent (ctxs s2 d) = m_parent (ctxs s1 d)" "m_children (ctxs s2 d) = m_children (ctxs s1 d)"
    "m_lastChild (ctxs s2 d) = m_lastChild (ctxs s1 d)" "m_killedSignal (ctxs s2 d) = m_killedSignal (ctxs s1 d)" for d
    using s2(5) by (simp_all add: kept_def same_shape_def)
  have t: "kids_of s' = (kids_of s)(p := remove1 c (kids_of s p))" "parent_of s' = (parent_of s)(c := null)"
    and own: "m_killedSignal (ctxs s' d) = m_killedSignal (ctxs s d)" "m_lastChild (ctxs s' d) = m_lastChild (ctxs s d)" for d
    using sh by (auto simp: s'_def s1_def fun_eq_iff)
  have q: "quiet s s'" "m_locals s' = m_locals s" "m_signaled s' = m_signaled s" "coords s' = coords s2" "coords s1 = coords s"
    using s2(3-5) by (auto simp: s'_def s1_def quiet_def kept_def)
  have "links_ok (set (m_contexts s')) (kids_of s') (parent_of s')"
    using links_detach [OF L c] p q(1) unfolding t by (simp add: quiet_def)
  moreover have "owned_ok sg lcp s'" using O q(1) by (simp add: owned_ok_def own quiet_def)
  ultimately have "tree_ok sg lcp s'" by (simp add: tree_ok_def)
  then show ?thesis using det i' q(1-3) t own s2(6,7) [folded q(4), unfolded q(5)] by blast
qed

lemma exit_end_ok:
  assumes inv: "rt_inv sg s F e" and tr: "tree_ok sg lcp s" and c: "active s F c" and d: "parent_of s c = null" "kids_of s c = []"
  shows "\<exists>s'. exit_end c s = Some s' \<and> rt_inv sg s' F e \<and> tree_ok sg lcp s' \<and> kept s s' \<and>
    m_contexts s' = remove1 c (m_contexts s) \<and> m_scheduled s' = null \<and> coords s' = coords s \<and> m_locals s' = m_locals s"
proof -
  note D = rt_invD [OF inv]
  note Ls = D(1) [unfolded sched_inv_def]
  have c': "m_scheduled s = c" "c \<noteq> null" "F c = []" "m_locals s c = []" using c by (simp_all add: active_def)
  have cX: "c \<in> set (m_contexts s)" by (rule running_ok(1) [OF inv c'(1,2)])
  have set: "set (remove1 c (m_contexts s)) = set (m_contexts s) - {c}" using lists_okD(10) [OF Ls] by simp
  define s' where "s' = s\<lparr>m_contexts := remove1 c (m_contexts s), m_freed := c # m_freed s, m_scheduled := null\<rparr>"
  have "exit_end c s = Some s'" using cX c'(1,2) by (simp add: exit_end_def s'_def)
  moreover have "sched_inv s'" using run_exit [OF Ls] c'(1) by (simp add: sched_inv_def s'_def)
  moreover have v: "wl s' = wl s" "conn s' = conn s" "sat s' = sat s" "waiter_of s' = waiter_of s" "blk s' = blk s"
    by (auto simp: s'_def wl_def conn_def sat_def waiter_of_def blk_def fun_eq_iff split: place.splits)
  then have "waits_ok (wl s') (conn s') (sat s') (waiter_of s') (blk s') (set (m_contexts s')) F e"
    using waits_exit [OF D(2) c'(3)] c'(4) set unfolding v by (simp add: s'_def)
  moreover have "kept s s'" by (simp add: s'_def)
  moreover have "tree_ok sg lcp s'" using tr links_exit [of "set (m_contexts s)" "kids_of s" "parent_of s" c] d
    by (auto simp: tree_ok_def owned_ok_def s'_def set inj_on_diff)
  ultimately show ?thesis using D(3-6) by (auto simp: rt_inv_def coords_ok_def armed_ok_def s'_def)
qed

end
