(* ===== verification/Runtime.thy ===== *)
theory Runtime
  imports Context_Tree
begin

text \<open>
  The runtime as a transition system: what the loop and the running context can do, in any order, and
  the invariant of every state reached. A step is one operation of the previous theories up to its
  next stack switch; \<open>rt_F c\<close> remembers the blocking call on the stack of context \<open>c\<close>, \<open>rt_ph c\<close> how far
  its destructor is.
\<close>

section \<open>Steps\<close>

datatype phase = Alive | Dying | Leaving

record rt =
  rt_s :: sched
  rt_F :: "addr \<Rightarrow> mc"
  rt_ph :: "addr \<Rightarrow> phase"

datatype action =
    LoopResume
  | Completions "addr list"
  | DoYield bool ring_view "addr list"
  | DoTryAcquire addr
  | DoRelease addr bool
  | DoCoordinate mc
  | DoCoordinateKill addr addr addr
  | Wake
  | DoNotify addr bool
  | NotifyResume
  | DoSpawn addr int addr addr bool
  | DoKill addr bool
  | DoDetach
  | ExitBegin
  | ExitWait addr
  | ExitEnd

definition with_s :: "rt \<Rightarrow> sched option \<Rightarrow> rt option" where
  "with_s r so = map_option (\<lambda>s. r\<lparr>rt_s := s\<rparr>) so"

fun act :: "(addr \<Rightarrow> bool) \<Rightarrow> action \<Rightarrow> rt \<Rightarrow> rt option" where
  "act sg LoopResume r = with_s r (loop_resume (rt_s r))"
| "act sg (Completions ks) r = with_s r (Poll ks (rt_s r))"
| "act sg (DoYield force rv ks) r = with_s r (map_option snd (Yield (m_scheduled (rt_s r)) force True rv ks (rt_s r)))"
| "act sg (DoTryAcquire k) r = with_s r (Some (snd (TryAcquire k (rt_s r))))"
| "act sg (DoRelease k b) r = with_s r (Release k b (rt_s r))"
| "act sg (DoCoordinate f) r = (let c = m_scheduled (rt_s r) in case CoordinateWith_begin sg f c (rt_s r) of
     None \<Rightarrow> None
   | Some (None, s') \<Rightarrow> Some (r\<lparr>rt_s := s', rt_F := (rt_F r)(c := f)\<rparr>)
   | Some (Some i, s') \<Rightarrow> Some (r\<lparr>rt_s := s'\<rparr>))"
| "act sg (DoCoordinateKill k x kx) r = (let c = m_scheduled (rt_s r) in case CoordinateWithKill_begin sg k x kx c (rt_s r) of
     None \<Rightarrow> None
   | Some (Inl res, s') \<Rightarrow> Some (r\<lparr>rt_s := s'\<rparr>)
   | Some (Inr f, s') \<Rightarrow> Some (r\<lparr>rt_s := s', rt_F := (rt_F r)(c := f)\<rparr>))"
| "act sg Wake r = (let c = m_scheduled (rt_s r) in
     map_option (\<lambda>(i, s'). r\<lparr>rt_s := s', rt_F := (rt_F r)(c := [])\<rparr>) (CoordinateWith_end sg (rt_F r c) (rt_s r)))"
| "act sg (DoNotify k b) r = with_s r (Notify k (m_scheduled (rt_s r)) b (rt_s r))"
| "act sg NotifyResume r = with_s r (Notify_resume (m_scheduled (rt_s r)) True (rt_s r))"
| "act sg (DoSpawn n prio sig lc alloc) r = (case Spawn n prio sig lc alloc (rt_s r) of
     None \<Rightarrow> None
   | Some (b, s') \<Rightarrow> Some (r\<lparr>rt_s := s', rt_ph := (if b then (rt_ph r)(n := Alive) else rt_ph r)\<rparr>))"
| "act sg (DoKill other b) r = with_s r (Kill (m_scheduled (rt_s r)) other b (rt_s r))"
| "act sg DoDetach r = with_s r (Detach (m_scheduled (rt_s r)) (rt_s r))"
| "act sg ExitBegin r = (let c = m_scheduled (rt_s r) in
     map_option (\<lambda>s'. r\<lparr>rt_s := s', rt_ph := (rt_ph r)(c := Dying)\<rparr>) (exit_begin c (rt_s r)))"
| "act sg (ExitWait x) r = (let c = m_scheduled (rt_s r); k = m_lastChild (ctxs (rt_s r) c) in
     map_option (\<lambda>s'. r\<lparr>rt_s := s', rt_F := (if held (rt_s r) k then (rt_F r)(c := [(k, x)]) else rt_F r),
       rt_ph := (rt_ph r)(c := Leaving)\<rparr>) (exit_wait c x (rt_s r)))"
| "act sg ExitEnd r = with_s r (exit_end (m_scheduled (rt_s r)) (rt_s r))"

text \<open>
  What a caller owes: the code of a context runs while the context is scheduled and not inside a
  blocking call; contexts release and notify ordinary coordinators and signals, not the last-child
  coordinators; the nodes of a blocking call and the addresses of a new context are fresh; only live
  contexts are killed; and the destructor runs its parts in order.
\<close>

definition running :: "phase \<Rightarrow> rt \<Rightarrow> bool" where
  "running p r \<longleftrightarrow> active (rt_s r) (rt_F r) (m_scheduled (rt_s r)) \<and> rt_ph r (m_scheduled (rt_s r)) = p"

fun legal :: "(addr \<Rightarrow> bool) \<Rightarrow> (addr \<Rightarrow> bool) \<Rightarrow> action \<Rightarrow> rt \<Rightarrow> bool" where
  "legal sg lcp LoopResume r \<longleftrightarrow> m_scheduled (rt_s r) = null \<and> m_yielded (rt_s r) \<noteq> []"
| "legal sg lcp (Completions ks) r \<longleftrightarrow> m_scheduled (rt_s r) = null \<and> list_all (\<lambda>k. \<not> sg k \<and> \<not> lcp k) ks"
| "legal sg lcp (DoYield force rv ks) r \<longleftrightarrow> running Alive r \<and> list_all (\<lambda>k. \<not> sg k \<and> \<not> lcp k) ks"
| "legal sg lcp (DoTryAcquire k) r \<longleftrightarrow> running Alive r \<and> \<not> sg k \<and> \<not> lcp k"
| "legal sg lcp (DoRelease k b) r \<longleftrightarrow> running Alive r \<and> \<not> sg k \<and> \<not> lcp k"
| "legal sg lcp (DoCoordinate f) r \<longleftrightarrow> running Alive r \<and> f \<noteq> [] \<and> fresh_nodes (rt_s r) (rt_F r) f \<and> (\<forall>k \<in> fst ` set f. \<not> lcp k)"
| "legal sg lcp (DoCoordinateKill k x kx) r \<longleftrightarrow> running Alive r \<and> \<not> sg k \<and> \<not> lcp k \<and>
     fresh_nodes (rt_s r) (rt_F r) [(m_killedSignal (ctxs (rt_s r) (m_scheduled (rt_s r))), kx), (k, x)]"
| "legal sg lcp Wake r \<longleftrightarrow> m_scheduled (rt_s r) \<noteq> null \<and> rt_F r (m_scheduled (rt_s r)) \<noteq> []"
| "legal sg lcp (DoNotify k b) r \<longleftrightarrow> running Alive r \<and> sg k"
| "legal sg lcp NotifyResume r \<longleftrightarrow> m_scheduled (rt_s r) \<noteq> null \<and> m_locals (rt_s r) (m_scheduled (rt_s r)) \<noteq> []"
| "legal sg lcp (DoSpawn n prio sig lc alloc) r \<longleftrightarrow> (m_scheduled (rt_s r) = null \<or> running Alive r) \<and>
     fresh_context sg lcp (rt_s r) (rt_F r) n sig lc"
| "legal sg lcp (DoKill other b) r \<longleftrightarrow> running Alive r \<and> other \<in> set (m_contexts (rt_s r))"
| "legal sg lcp DoDetach r \<longleftrightarrow> running Alive r \<and> m_parent (ctxs (rt_s r) (m_scheduled (rt_s r))) \<noteq> null"
| "legal sg lcp ExitBegin r \<longleftrightarrow> running Alive r"
| "legal sg lcp (ExitWait x) r \<longleftrightarrow> running Dying r \<and>
     fresh_nodes (rt_s r) (rt_F r) [(m_lastChild (ctxs (rt_s r) (m_scheduled (rt_s r))), x)]"
| "legal sg lcp ExitEnd r \<longleftrightarrow> running Leaving r"

definition rt_init :: "(addr \<Rightarrow> bool) \<Rightarrow> config \<Rightarrow> rt" where
  "rt_init sg cfg = \<lparr>rt_s = \<lparr>ctxs = (\<lambda>c. \<lparr>m_state = YIELDED, m_priority = 0, m_currentPriority = 0, m_parent = null, m_children = [],
       m_lastChild = null, m_killedSignal = null, m_yields = 0, m_blocks = 0\<rparr>),
     coords = (\<lambda>k. \<lparr>m_held = sg k, m_blocking = []\<rparr>),
     cds = (\<lambda>x. \<lparr>m_waiter = WaitContext null, m_satisfied = False, m_connected = False\<rparr>), m_signaled = (\<lambda>k. False),
     m_contexts = [], m_yielded = [], m_blocked = [], m_scheduled = null, m_pendingContinuations = [],
     m_directYieldsRemaining = 0, m_inThunk = False, m_locals = (\<lambda>t. []), m_freed = [], m_config = cfg\<rparr>,
     rt_F = (\<lambda>c. []), rt_ph = (\<lambda>c. Alive)\<rparr>"

inductive reach :: "(addr \<Rightarrow> bool) \<Rightarrow> (addr \<Rightarrow> bool) \<Rightarrow> config \<Rightarrow> rt \<Rightarrow> bool" for sg lcp cfg where
  init: "reach sg lcp cfg (rt_init sg cfg)"
| step: "reach sg lcp cfg r \<Longrightarrow> legal sg lcp a r \<Longrightarrow> act sg a r = Some r' \<Longrightarrow> reach sg lcp cfg r'"

text \<open>Running a list of actions, all of them legal.\<close>

fun steps :: "(addr \<Rightarrow> bool) \<Rightarrow> (addr \<Rightarrow> bool) \<Rightarrow> action list \<Rightarrow> rt \<Rightarrow> rt option" where
  "steps sg lcp [] r = Some r"
| "steps sg lcp (a # as) r = (if legal sg lcp a r then Option.bind (act sg a r) (steps sg lcp as) else None)"

lemma steps_reach: "steps sg lcp as r = Some r' \<Longrightarrow> reach sg lcp cfg r \<Longrightarrow> reach sg lcp cfg r'"
  by (induction as arbitrary: r) (auto simp: bind_eq_Some_conv split: if_splits intro: reach.step)

section \<open>The invariant\<close>

text \<open>
  A context in its destructor is killed and has no parent; it waits only on its own last-child
  coordinator, and while it has children its node is queued there. Before that, the last-child
  coordinator is held exactly when there are children.
\<close>

definition phases_ok :: "(addr \<Rightarrow> bool) \<Rightarrow> sched \<Rightarrow> (addr \<Rightarrow> mc) \<Rightarrow> (addr \<Rightarrow> phase) \<Rightarrow> bool" where
  "phases_ok lcp s F ph \<longleftrightarrow>
     (\<forall>c \<in> set (m_contexts s). ph c \<noteq> Alive \<longrightarrow> m_parent (ctxs s c) = null \<and> IsKilled s c) \<and>
     (\<forall>c k x. (k, x) \<in> set (F c) \<longrightarrow> lcp k \<longrightarrow> ph c = Leaving \<and> k = m_lastChild (ctxs s c) \<and> F c = [(k, x)]) \<and>
     (\<forall>c \<in> set (m_contexts s). ph c = Leaving \<longrightarrow> F c = [] \<or> (\<exists>x. F c = [(m_lastChild (ctxs s c), x)])) \<and>
     (\<forall>c \<in> set (m_contexts s). ph c = Leaving \<longrightarrow> m_children (ctxs s c) \<noteq> [] \<longrightarrow>
        (\<exists>x. F c = [(m_lastChild (ctxs s c), x)] \<and> x \<in> set (blocking s (m_lastChild (ctxs s c))))) \<and>
     (\<forall>c \<in> set (m_contexts s). ph c = Dying \<longrightarrow> F c = []) \<and>
     (\<forall>c \<in> set (m_contexts s). ph c \<noteq> Leaving \<longrightarrow> (held s (m_lastChild (ctxs s c)) \<longleftrightarrow> m_children (ctxs s c) \<noteq> []))"

lemma phases_okD:
  assumes "phases_ok lcp s F ph"
  shows "c \<in> set (m_contexts s) \<Longrightarrow> ph c \<noteq> Alive \<Longrightarrow> m_parent (ctxs s c) = null"
    "c \<in> set (m_contexts s) \<Longrightarrow> ph c \<noteq> Alive \<Longrightarrow> IsKilled s c"
    "(k, x) \<in> set (F c) \<Longrightarrow> lcp k \<Longrightarrow> ph c = Leaving \<and> k = m_lastChild (ctxs s c) \<and> F c = [(k, x)]"
    "c \<in> set (m_contexts s) \<Longrightarrow> ph c = Leaving \<Longrightarrow> F c = [] \<or> (\<exists>x. F c = [(m_lastChild (ctxs s c), x)])"
    "c \<in> set (m_contexts s) \<Longrightarrow> ph c = Leaving \<Longrightarrow> m_children (ctxs s c) \<noteq> [] \<Longrightarrow>
       \<exists>x. F c = [(m_lastChild (ctxs s c), x)] \<and> x \<in> set (blocking s (m_lastChild (ctxs s c)))"
    "c \<in> set (m_contexts s) \<Longrightarrow> ph c = Dying \<Longrightarrow> F c = []"
    "c \<in> set (m_contexts s) \<Longrightarrow> ph c \<noteq> Leaving \<Longrightarrow> held s (m_lastChild (ctxs s c)) \<longleftrightarrow> m_children (ctxs s c) \<noteq> []"
  using assms unfolding phases_ok_def by (elim conjE; (blast | metis))+

lemma phases_okI:
  assumes "\<And>c. c \<in> set (m_contexts s) \<Longrightarrow> ph c \<noteq> Alive \<Longrightarrow> m_parent (ctxs s c) = null \<and> IsKilled s c"
    "\<And>c k x. (k, x) \<in> set (F c) \<Longrightarrow> lcp k \<Longrightarrow> ph c = Leaving \<and> k = m_lastChild (ctxs s c) \<and> F c = [(k, x)]"
    "\<And>c. c \<in> set (m_contexts s) \<Longrightarrow> ph c = Leaving \<Longrightarrow> F c = [] \<or> (\<exists>x. F c = [(m_lastChild (ctxs s c), x)])"
    "\<And>c. c \<in> set (m_contexts s) \<Longrightarrow> ph c = Leaving \<Longrightarrow> m_children (ctxs s c) \<noteq> [] \<Longrightarrow>
       \<exists>x. F c = [(m_lastChild (ctxs s c), x)] \<and> x \<in> set (blocking s (m_lastChild (ctxs s c)))"
    "\<And>c. c \<in> set (m_contexts s) \<Longrightarrow> ph c = Dying \<Longrightarrow> F c = []"
    "\<And>c. c \<in> set (m_contexts s) \<Longrightarrow> ph c \<noteq> Leaving \<Longrightarrow> held s (m_lastChild (ctxs s c)) \<longleftrightarrow> m_children (ctxs s c) \<noteq> []"
  shows "phases_ok lcp s F ph"
  unfolding phases_ok_def using assms by blast

definition RI :: "(addr \<Rightarrow> bool) \<Rightarrow> (addr \<Rightarrow> bool) \<Rightarrow> rt \<Rightarrow> bool" where
  "RI sg lcp r \<longleftrightarrow> rt_inv sg (rt_s r) (rt_F r) null \<and> tree_ok sg lcp (rt_s r) \<and> phases_ok lcp (rt_s r) (rt_F r) (rt_ph r)"

lemma RI_D:
  assumes "RI sg lcp r"
  shows "rt_inv sg (rt_s r) (rt_F r) null" "tree_ok sg lcp (rt_s r)" "phases_ok lcp (rt_s r) (rt_F r) (rt_ph r)"
  using assms by (simp_all add: RI_def)

text \<open>
  Steps that leave the tree and the last-child coordinators alone; frames of live contexts may change,
  not to last-child coordinators.
\<close>

lemma RI_frame:
  assumes ri: "RI sg lcp r" and inv: "rt_inv sg s' F' null" and cx: "m_contexts s' = m_contexts (rt_s r)" and sh: "same_shape (rt_s r) s'"
    and sg: "\<And>k. m_signaled (rt_s r) k \<Longrightarrow> m_signaled s' k" and lc: "\<And>k. lcp k \<Longrightarrow> coords s' k = coords (rt_s r) k"
    and F: "\<And>d. rt_ph r d \<noteq> Alive \<Longrightarrow> F' d = rt_F r d" "\<And>d k x. rt_ph r d = Alive \<Longrightarrow> (k, x) \<in> set (F' d) \<Longrightarrow> \<not> lcp k"
  shows "RI sg lcp (r\<lparr>rt_s := s', rt_F := F'\<rparr>)"
proof -
  let ?s = "rt_s r"
  note D = phases_okD [OF RI_D(3) [OF ri]]
  have [simp]: "m_parent (ctxs s' c) = m_parent (ctxs ?s c)" "m_children (ctxs s' c) = m_children (ctxs ?s c)"
    "m_lastChild (ctxs s' c) = m_lastChild (ctxs ?s c)" "m_killedSignal (ctxs s' c) = m_killedSignal (ctxs ?s c)" for c
    using sh by (simp_all add: same_shape_def)
  have co [simp]: "coords s' (m_lastChild (ctxs ?s c)) = coords ?s (m_lastChild (ctxs ?s c))" if "c \<in> set (m_contexts ?s)" for c
    using lc RI_D(2) [OF ri] that by (simp add: tree_ok_def owned_ok_def)
  have "phases_ok lcp s' F' (rt_ph r)"
  proof (rule phases_okI)
    show "m_parent (ctxs s' c) = null \<and> IsKilled s' c" if "c \<in> set (m_contexts s')" "rt_ph r c \<noteq> Alive" for c
      using that D(1,2) [of c] sg cx by (simp add: IsKilled_def)
    show "rt_ph r c = Leaving \<and> k = m_lastChild (ctxs s' c) \<and> F' c = [(k, x)]" if "(k, x) \<in> set (F' c)" "lcp k" for c k x
      using that D(3) [of k x c] F(1) [of c] F(2) [of c k x] by (cases "rt_ph r c = Alive") auto
  qed (use D(4-7) F(1) cx in auto)
  then show ?thesis using inv tree_ok_kept [OF RI_D(2) [OF ri] sh cx] by (simp add: RI_def)
qed

lemma RI_keep:
  assumes ri: "RI sg lcp r" and inv: "rt_inv sg s' (rt_F r) null" and cx: "m_contexts s' = m_contexts (rt_s r)" and sh: "same_shape (rt_s r) s'"
    and sg: "\<And>k. m_signaled (rt_s r) k \<Longrightarrow> m_signaled s' k" and lc: "\<And>k. lcp k \<Longrightarrow> coords s' k = coords (rt_s r) k"
  shows "RI sg lcp (r\<lparr>rt_s := s'\<rparr>)"
proof -
  have "RI sg lcp (r\<lparr>rt_s := s', rt_F := rt_F r\<rparr>)"
    by (rule RI_frame [OF ri inv cx sh sg lc]) (use phases_okD(3) [OF RI_D(3) [OF ri]] in \<open>auto\<close>)
  then show ?thesis by simp
qed

lemma runningD:
  assumes "running p r"
  shows "active (rt_s r) (rt_F r) (m_scheduled (rt_s r))" "rt_ph r (m_scheduled (rt_s r)) = p" "m_scheduled (rt_s r) \<noteq> null"
    "rt_F r (m_scheduled (rt_s r)) = []" "m_locals (rt_s r) (m_scheduled (rt_s r)) = []"
  using assms by (simp_all add: running_def active_def)

lemma RI_lcp: "RI sg lcp r \<Longrightarrow> lcp k \<Longrightarrow> \<not> sg k"
  by (simp add: RI_def tree_ok_def owned_ok_def)

lemma RI_owned: "RI sg lcp r \<Longrightarrow> c \<in> set (m_contexts (rt_s r)) \<Longrightarrow> sg (m_killedSignal (ctxs (rt_s r) c)) \<and> lcp (m_lastChild (ctxs (rt_s r) c))"
  by (simp add: RI_def tree_ok_def owned_ok_def)

section \<open>Every legal step succeeds and keeps the invariant\<close>

lemma step_loop:
  assumes "RI sg lcp r" and "legal sg lcp LoopResume r"
  shows "\<exists>r'. act sg LoopResume r = Some r' \<and> RI sg lcp r'"
proof -
  from assms(2) obtain c cs where "m_scheduled (rt_s r) = null" "m_yielded (rt_s r) = c # cs" by (cases "m_yielded (rt_s r)") auto
  from loop_resume_ok [OF rt_invD(1) [OF RI_D(1) [OF assms(1)]] this] obtain s' where
    s': "loop_resume (rt_s r) = Some s'" "moved (rt_s r) s' (\<lambda>c. state_of (rt_s r) c = BLOCKED)" by blast
  note k = loop_resume_kept [OF s'(1), unfolded kept_def]
  have "RI sg lcp (r\<lparr>rt_s := s'\<rparr>)"
    by (rule RI_keep [OF assms(1)]) (use rt_inv_switch [OF RI_D(1) [OF assms(1)] s'(2)] k in auto)
  then show ?thesis using s'(1) by (simp add: with_s_def)
qed

lemma step_poll:
  assumes "RI sg lcp r" and "legal sg lcp (Completions ks) r"
  shows "\<exists>r'. act sg (Completions ks) r = Some r' \<and> RI sg lcp r'"
proof -
  have ks: "list_all (\<lambda>k. \<not> sg k) ks" "\<And>k. lcp k \<Longrightarrow> k \<notin> set ks" using assms(2) by (auto simp: list_all_iff)
  from Poll_ok [OF RI_D(1) [OF assms(1)] ks(1)] obtain s' where s': "Poll ks (rt_s r) = Some s'" "rt_inv sg s' (rt_F r) null"
    "quiet (rt_s r) s'" "\<forall>k. k \<notin> set ks \<longrightarrow> coords s' k = coords (rt_s r) k" by blast
  note k = Poll_kept [OF s'(1), unfolded kept_def]
  have "RI sg lcp (r\<lparr>rt_s := s'\<rparr>)"
    by (rule RI_keep [OF assms(1) s'(2)]) (use s'(3,4) k ks(2) in \<open>auto simp: quiet_def\<close>)
  then show ?thesis using s'(1) by (simp add: with_s_def)
qed

lemma step_yield:
  assumes "RI sg lcp r" and "legal sg lcp (DoYield force rv ks) r"
  shows "\<exists>r'. act sg (DoYield force rv ks) r = Some r' \<and> RI sg lcp r'"
proof -
  let ?c = "m_scheduled (rt_s r)"
  have ks: "list_all (\<lambda>k. \<not> sg k) ks" "\<And>k. lcp k \<Longrightarrow> k \<notin> set ks" using assms(2) by (auto simp: list_all_iff)
  have c: "?c \<noteq> null" using assms(2) runningD(3) [of Alive r] by simp
  from Yield_ok [OF RI_D(1) [OF assms(1)] refl c ks(1), of force rv] obtain b s' where
    s': "Yield ?c force True rv ks (rt_s r) = Some (b, s')" "rt_inv sg s' (rt_F r) null"
    "m_contexts s' = m_contexts (rt_s r)" "\<forall>k. k \<notin> set ks \<longrightarrow> coords s' k = coords (rt_s r) k" by blast
  note k = Yield_kept [OF s'(1), unfolded kept_def]
  have "RI sg lcp (r\<lparr>rt_s := s'\<rparr>)"
    by (rule RI_keep [OF assms(1) s'(2)]) (use s'(3,4) k ks(2) in auto)
  then show ?thesis using s'(1) by (simp add: with_s_def)
qed

lemma step_try:
  assumes "RI sg lcp r" and "legal sg lcp (DoTryAcquire k) r"
  shows "\<exists>r'. act sg (DoTryAcquire k) r = Some r' \<and> RI sg lcp r'"
proof -
  have k: "\<not> sg k" "\<not> lcp k" using assms(2) by auto
  have "RI sg lcp (r\<lparr>rt_s := snd (TryAcquire k (rt_s r))\<rparr>)"
    by (rule RI_keep [OF assms(1) TryAcquire_ok(1) [OF RI_D(1) [OF assms(1)] k(1)]])
      (use TryAcquire_kept [of "rt_s r" k] k in \<open>auto simp: kept_def TryAcquire_def\<close>)
  then show ?thesis by (simp add: with_s_def)
qed

lemma step_release:
  assumes "RI sg lcp r" and "legal sg lcp (DoRelease k b) r"
  shows "\<exists>r'. act sg (DoRelease k b) r = Some r' \<and> RI sg lcp r'"
proof -
  have k: "\<not> sg k" "\<not> lcp k" "m_scheduled (rt_s r) \<noteq> null" using assms(2) runningD(3) [of Alive r] by auto
  from Release_ok [OF RI_D(1) [OF assms(1)], of k b] k obtain s' where s': "Release k b (rt_s r) = Some s'"
    "rt_inv sg s' (rt_F r) null" "m_contexts s' = m_contexts (rt_s r)" "\<forall>k'. k' \<noteq> k \<longrightarrow> coords s' k' = coords (rt_s r) k'" by blast
  note kp = Release_kept [OF s'(1), unfolded kept_def]
  have "RI sg lcp (r\<lparr>rt_s := s'\<rparr>)"
    by (rule RI_keep [OF assms(1) s'(2)]) (use s'(3,4) kp k(2) in auto)
  then show ?thesis using s'(1) by (simp add: with_s_def)
qed

text \<open>A blocking call of a live context, on coordinators that are not last-child ones.\<close>

lemma coordinate_step:
  assumes ri: "RI sg lcp r" and c: "running Alive r" and s1: "rt_inv sg s1 (rt_F r) null" "kept (rt_s r) s1"
      "m_contexts s1 = m_contexts (rt_s r)" "\<And>k. lcp k \<Longrightarrow> coords s1 k = coords (rt_s r) k" "active s1 (rt_F r) (m_scheduled (rt_s r))"
    and f: "f \<noteq> []" "fresh_nodes s1 (rt_F r) f" "\<forall>k \<in> fst ` set f. \<not> lcp k"
  shows "\<exists>i s'. CoordinateWith_begin sg f (m_scheduled (rt_s r)) s1 = Some (i, s') \<and>
    RI sg lcp (case i of None \<Rightarrow> r\<lparr>rt_s := s', rt_F := (rt_F r)(m_scheduled (rt_s r) := f)\<rparr> | Some j \<Rightarrow> r\<lparr>rt_s := s'\<rparr>)"
proof -
  let ?c = "m_scheduled (rt_s r)"
  from CoordinateWith_begin_ok [OF s1(1,5) f(1,2)] obtain i s' where
    s': "CoordinateWith_begin sg f ?c s1 = Some (i, s')" "m_contexts s' = m_contexts s1"
    "\<forall>k. k \<notin> fst ` set f \<longrightarrow> coords s' k = coords s1 k"
    "case i of None \<Rightarrow> (\<forall>k \<in> fst ` set f. held s1 k) \<and> rt_inv sg s' ((rt_F r)(?c := f)) null \<and> blk s' ?c
     | Some i \<Rightarrow> i < length f \<and> \<not> held s1 (fst (f ! i)) \<and> (\<forall>j < i. held s1 (fst (f ! j))) \<and> rt_inv sg s' (rt_F r) null \<and>
         m_scheduled s' = ?c \<and> m_locals s' = m_locals s1" by blast
  have k: "kept (rt_s r) s'" using kept_trans [OF s1(2) CoordinateWith_begin_kept [OF s'(1)]] .
  have lc: "coords s' k = coords (rt_s r) k" if "lcp k" for k using that s'(3) s1(4) f(3) by metis
  have "RI sg lcp (r\<lparr>rt_s := s', rt_F := (rt_F r)(?c := f)\<rparr>)" if "i = None"
    by (rule RI_frame [OF ri]) (use that s'(2,4) s1(3) k lc f(3) runningD(2) [OF c] phases_okD(3) [OF RI_D(3) [OF ri]]
      in \<open>force simp: kept_def split: if_splits\<close>)+
  moreover have "RI sg lcp (r\<lparr>rt_s := s'\<rparr>)" if "i = Some j" for j
    by (rule RI_keep [OF ri]) (use that s'(2,4) s1(3) k lc in \<open>simp_all add: kept_def\<close>)
  ultimately show ?thesis using s'(1) by (auto split: option.splits)
qed

lemma step_coordinate:
  assumes "RI sg lcp r" and "legal sg lcp (DoCoordinate f) r"
  shows "\<exists>r'. act sg (DoCoordinate f) r = Some r' \<and> RI sg lcp r'"
proof -
  from assms(2) have c: "running Alive r" and f: "f \<noteq> []" "fresh_nodes (rt_s r) (rt_F r) f" "\<forall>k \<in> fst ` set f. \<not> lcp k" by auto
  from coordinate_step [OF assms(1) c RI_D(1) [OF assms(1)] _ _ _ runningD(1) [OF c] f] show ?thesis
    by (auto split: option.splits)
qed

lemma step_coordinate_kill:
  assumes ri: "RI sg lcp r" and "legal sg lcp (DoCoordinateKill k x kx) r"
  shows "\<exists>r'. act sg (DoCoordinateKill k x kx) r = Some r' \<and> RI sg lcp r'"
proof -
  let ?c = "m_scheduled (rt_s r)" let ?sig = "m_killedSignal (ctxs (rt_s r) ?c)" let ?f = "[(?sig, kx), (k, x)]"
  from assms(2) have c: "running Alive r" and k: "\<not> sg k" "\<not> lcp k" and f: "fresh_nodes (rt_s r) (rt_F r) ?f" by auto
  have sig: "\<not> lcp ?sig"
    using RI_owned [OF ri running_ok(1) [OF RI_D(1) [OF ri] refl runningD(3) [OF c]]] RI_lcp [OF ri] by blast
  define s1 where "s1 = set_coord k ((coords (rt_s r) k)\<lparr>m_held := True\<rparr>) (rt_s r)"
  consider "m_signaled (rt_s r) ?sig" | "\<not> m_signaled (rt_s r) ?sig" "\<not> held (rt_s r) k" | "\<not> m_signaled (rt_s r) ?sig" "held (rt_s r) k" by blast
  then show ?thesis
  proof cases
    case 1
    then show ?thesis using ri by (simp add: CoordinateWithKill_begin_def)
  next
    case 2
    have "RI sg lcp (r\<lparr>rt_s := s1\<rparr>)"
      by (rule RI_keep [OF ri]) (use TryAcquire_ok(1) [OF RI_D(1) [OF ri] k(1)] 2 k in \<open>auto simp: s1_def TryAcquire_def same_shape_def\<close>)
    then show ?thesis using 2 by (simp add: CoordinateWithKill_begin_def TryAcquire_def s1_def)
  next
    case 3
    have "\<forall>k' \<in> fst ` set ?f. \<not> lcp k'" using sig k(2) by auto
    from coordinate_step [OF ri c RI_D(1) [OF ri] _ _ _ runningD(1) [OF c] _ f this] 3 show ?thesis
      by (auto simp: CoordinateWithKill_begin_def TryAcquire_def Let_def split: option.splits)
  qed
qed

lemma unwaited:
  assumes inv: "rt_inv sg s F e" and x: "x \<in> set (blocking s k)"
  obtains c where "c \<in> set (m_contexts s)" "(k, x) \<in> set (F c)" "waiter_of s x = WaitContext c"
proof -
  note W = waits_okD [OF rt_invD(2) [OF inv]]
  have x': "x \<in> set (wl s (AtCoord k))" using x by simp
  have cx: "conn s x" by (rule placedD(3) [OF W(1) x'])
  obtain c where c: "c \<in> set (m_contexts s)" "waiter_of s x = WaitContext c" using W(3) [OF cx] by blast
  then obtain k' where k': "(k', x) \<in> set (F c)" using W(5) [OF cx c(2)] by auto
  have "k' = k" using W(12) [OF k' cx] placedD(2) [OF W(1) x', of "AtCoord k'"] placedD(2) [OF W(1) x', of "AtLocal _"] by auto
  then show ?thesis using that c k' by blast
qed

lemma last_child_unwaited:
  assumes ri: "RI sg lcp r" and p: "p \<in> set (m_contexts (rt_s r))" "rt_ph r p \<noteq> Leaving"
  shows "blocking (rt_s r) (m_lastChild (ctxs (rt_s r) p)) = []"
proof (rule ccontr)
  let ?s = "rt_s r" let ?k = "m_lastChild (ctxs ?s p)"
  assume "blocking ?s ?k \<noteq> []"
  then obtain x where x: "x \<in> set (blocking ?s ?k)" by (cases "blocking ?s ?k") auto
  obtain c where c: "c \<in> set (m_contexts ?s)" "(?k, x) \<in> set (rt_F r c)" using unwaited [OF RI_D(1) [OF ri] x] .
  from phases_okD(3) [OF RI_D(3) [OF ri] c(2)] RI_owned [OF ri p(1)]
  have "rt_ph r c = Leaving" "?k = m_lastChild (ctxs ?s c)" by auto
  moreover have "c = p" using RI_D(2) [OF ri] c(1) p(1) calculation(2)
    unfolding tree_ok_def owned_ok_def inj_on_def by metis
  ultimately show False using p(2) by simp
qed

lemma step_wake:
  assumes ri: "RI sg lcp r" and "legal sg lcp Wake r"
  shows "\<exists>r'. act sg Wake r = Some r' \<and> RI sg lcp r'"
proof -
  let ?s = "rt_s r" let ?c = "m_scheduled ?s" let ?f = "rt_F r ?c"
  note D = phases_okD [OF RI_D(3) [OF ri]]
  from assms(2) have c: "?c \<noteq> null" "?f \<noteq> []" by auto
  from CoordinateWith_end_ok [OF RI_D(1) [OF ri] refl c(1) refl c(2)] obtain i s' where
    s': "CoordinateWith_end sg ?f ?s = Some (i, s')" "i < length ?f" "sat ?s (snd (?f ! i))"
    "rt_inv sg s' ((rt_F r)(?c := [])) null" "quiet ?s s'" "m_signaled s' = m_signaled ?s"
    "\<forall>k. k \<notin> fst ` set ?f \<longrightarrow> coords s' k = coords ?s k" by blast
  have cX: "?c \<in> set (m_contexts ?s)" by (rule running_ok(1) [OF RI_D(1) [OF ri] refl c(1)])
  have act: "act sg Wake r = Some (r\<lparr>rt_s := s', rt_F := (rt_F r)(?c := [])\<rparr>)" using s'(1) by (simp add: Let_def)
  have kp: "kept ?s s'" by (rule CoordinateWith_end_kept [OF s'(1)])
  show ?thesis
  proof (cases "rt_ph r ?c = Leaving")
    case False
    have nl: "\<not> lcp k" if "k \<in> fst ` set ?f" for k using that D(3) [of k _ ?c] False by auto
    have al: "rt_ph r ?c = Alive" using D(6) [OF cX] c(2) False by (cases "rt_ph r ?c") auto
    have "RI sg lcp (r\<lparr>rt_s := s', rt_F := (rt_F r)(?c := [])\<rparr>)"
    proof (rule RI_frame [OF ri s'(4)])
      show "coords s' k = coords ?s k" if "lcp k" for k using that s'(7) nl by blast
      show "\<not> lcp k" if "rt_ph r d = Alive" "(k, x) \<in> set (((rt_F r)(?c := [])) d)" for d k x
        using that D(3) [of k x d] by (auto split: if_splits)
    qed (use s'(5) kp al in \<open>auto simp: kept_def quiet_def\<close>)
    then show ?thesis using act by blast
  next
    case True
    then obtain x where f: "?f = [(m_lastChild (ctxs ?s ?c), x)]" using D(4) [OF cX True] c(2) by blast
    have "sat ?s x" using s'(2,3) f by simp
    then have "\<not> conn ?s x" using waits_okD(2) [OF rt_invD(2) [OF RI_D(1) [OF ri]], of x] by blast
    then have "x \<notin> set (blocking ?s (m_lastChild (ctxs ?s ?c)))"
      using placedD(3) [OF waits_okD(1) [OF rt_invD(2) [OF RI_D(1) [OF ri]]], of x "AtCoord (m_lastChild (ctxs ?s ?c))"] by auto
    then have nk: "m_children (ctxs ?s ?c) = []" using D(5) [OF cX True] f by auto
    have ss: "s' = ?s" using s'(1) f RI_lcp [OF ri] RI_owned [OF ri cX]
      by (auto simp: CoordinateWith_end_def maybeReset_def split: if_splits)
    have "phases_ok lcp ?s ((rt_F r)(?c := [])) (rt_ph r)"
    proof (rule phases_okI)
      show "rt_ph r d = Leaving \<and> k = m_lastChild (ctxs ?s d) \<and> ((rt_F r)(?c := [])) d = [(k, x)]"
        if "(k, x) \<in> set (((rt_F r)(?c := [])) d)" "lcp k" for d k x
        using that D(3) [of k x d] by (simp split: if_splits)
      show "\<exists>x. ((rt_F r)(?c := [])) d = [(m_lastChild (ctxs ?s d), x)] \<and> x \<in> set (blocking ?s (m_lastChild (ctxs ?s d)))"
        if "d \<in> set (m_contexts ?s)" "rt_ph r d = Leaving" "m_children (ctxs ?s d) \<noteq> []" for d
        using that D(5) [OF that] nk by (cases "d = ?c") simp_all
    qed (use D(1,2,4,6,7) in simp_all)
    then have "RI sg lcp (r\<lparr>rt_s := s', rt_F := (rt_F r)(?c := [])\<rparr>)" using s'(4) RI_D(2) [OF ri] ss by (simp add: RI_def)
    then show ?thesis using act by blast
  qed
qed

lemma step_notify:
  assumes ri: "RI sg lcp r" and "legal sg lcp (DoNotify k b) r"
  shows "\<exists>r'. act sg (DoNotify k b) r = Some r' \<and> RI sg lcp r'"
proof -
  let ?s = "rt_s r" let ?c = "m_scheduled ?s"
  from assms(2) have c: "running Alive r" and k: "sg k" by auto
  from Notify_ok [OF RI_D(1) [OF ri] k runningD(5) [OF c] running_ok [OF RI_D(1) [OF ri] refl runningD(3) [OF c]] runningD(3) [OF c], of b]
  obtain s' where s': "Notify k ?c b ?s = Some s'" "rt_inv sg s' (rt_F r) null" "m_contexts s' = m_contexts ?s"
    "m_signaled s' = (m_signaled ?s)(k := True)" "coords s' = (coords ?s)(k := \<lparr>m_held = False, m_blocking = []\<rparr>)" by blast
  have "RI sg lcp (r\<lparr>rt_s := s'\<rparr>)"
    by (rule RI_keep [OF ri s'(2,3) Notify_shape [OF s'(1)]]) (use s'(4,5) k RI_lcp [OF ri] in auto)
  then show ?thesis using s'(1) by (simp add: with_s_def)
qed

lemma step_notify_resume:
  assumes ri: "RI sg lcp r" and "legal sg lcp NotifyResume r"
  shows "\<exists>r'. act sg NotifyResume r = Some r' \<and> RI sg lcp r'"
proof -
  let ?s = "rt_s r" let ?c = "m_scheduled ?s" let ?n = "length (m_locals ?s ?c)"
  from assms(2) have c: "?c \<noteq> null" by simp
  from notify_loop_ok [OF RI_D(1) [OF ri] order_refl c, of ?c] obtain s' where
    s': "notify_loop ?n ?c True ?s = Some s'" "rt_inv sg s' (rt_F r) null" "m_contexts s' = m_contexts ?s"
    "coords s' = coords ?s" "m_signaled s' = m_signaled ?s" by blast
  have "RI sg lcp (r\<lparr>rt_s := s'\<rparr>)"
    by (rule RI_keep [OF ri s'(2,3) notify_loop_shape [OF s'(1)]]) (use s'(4,5) in auto)
  then show ?thesis using s'(1) by (simp add: with_s_def Notify_resume_def)
qed

lemma step_kill:
  assumes ri: "RI sg lcp r" and "legal sg lcp (DoKill other b) r"
  shows "\<exists>r'. act sg (DoKill other b) r = Some r' \<and> RI sg lcp r'"
proof -
  let ?s = "rt_s r"
  from assms(2) have c: "running Alive r" and o: "other \<in> set (m_contexts ?s)" by auto
  from Kill_ok [OF RI_D(1,2) [OF ri] refl runningD(3,5) [OF c] o, of b]
  obtain s' where s': "Kill (m_scheduled ?s) other b ?s = Some s'" "rt_inv sg s' (rt_F r) null" "m_contexts s' = m_contexts ?s"
    "same_shape ?s s'"
    "\<forall>k. m_signaled s' k \<longleftrightarrow> m_signaled ?s k \<or> (\<exists>d. descends (kids_of ?s) other d \<and> k = m_killedSignal (ctxs ?s d))"
    "\<forall>k. \<not> sg k \<longrightarrow> coords s' k = coords ?s k" by blast
  have "RI sg lcp (r\<lparr>rt_s := s'\<rparr>)"
    by (rule RI_keep [OF ri s'(2-4)]) (use s'(5,6) RI_lcp [OF ri] in auto)
  then show ?thesis using s'(1) by (simp add: with_s_def)
qed

lemma owned_inj:
  assumes "RI sg lcp r" and "c \<in> set (m_contexts (rt_s r))" "d \<in> set (m_contexts (rt_s r))"
  shows "m_lastChild (ctxs (rt_s r) c) = m_lastChild (ctxs (rt_s r) d) \<Longrightarrow> c = d"
  using assms unfolding RI_def tree_ok_def owned_ok_def inj_on_def by metis

lemma step_spawn:
  assumes ri: "RI sg lcp r" and "legal sg lcp (DoSpawn n prio sig lc alloc) r"
  shows "\<exists>r'. act sg (DoSpawn n prio sig lc alloc) r = Some r' \<and> RI sg lcp r'"
proof -
  let ?s = "rt_s r" let ?p = "m_scheduled ?s"
  note D = phases_okD [OF RI_D(3) [OF ri]]
  from assms(2) have c: "?p = null \<or> running Alive r" and n: "fresh_context sg lcp ?s (rt_F r) n sig lc" by auto
  note N = n [unfolded fresh_context_def]
  show ?thesis
  proof (cases "alloc \<and> (?p = null \<or> \<not> IsKilled ?s ?p)")
    case False
    then have "Spawn n prio sig lc alloc ?s = Some (False, ?s)" by (auto simp: Spawn_def)
    then show ?thesis using ri by simp
  next
    case True
    then have "alloc" "?p = null \<or> \<not> IsKilled ?s ?p" by auto
    from Spawn_ok [OF RI_D(1,2) [OF ri] n refl this, of prio] obtain s' where
      s': "Spawn n prio sig lc alloc ?s = Some (True, s')" "rt_inv sg s' (rt_F r) null" "tree_ok sg lcp s'"
      "m_contexts s' = m_contexts ?s @ [n]"
      and kids: "kids_of s' = (if ?p = null then (kids_of ?s)(n := []) else (kids_of ?s)(n := [], ?p := kids_of ?s ?p @ [n]))"
      and par: "parent_of s' = (parent_of ?s)(n := ?p)" and sig: "m_signaled s' = (m_signaled ?s)(sig := False)"
      and ks: "\<forall>d. m_killedSignal (ctxs s' d) = (if d = n then sig else m_killedSignal (ctxs ?s d))"
      and lch: "\<forall>d. m_lastChild (ctxs s' d) = (if d = n then lc else m_lastChild (ctxs ?s d))"
      and hl: "\<not> held s' lc" "?p \<noteq> null \<longrightarrow> held s' (m_lastChild (ctxs ?s ?p))"
      and co: "\<forall>k. k \<noteq> sig \<longrightarrow> k \<noteq> lc \<longrightarrow> (?p = null \<or> k \<noteq> m_lastChild (ctxs ?s ?p)) \<longrightarrow> coords s' k = coords ?s k"
      by blast
    have fn: "rt_F r n = []" using waits_okD(6) [OF rt_invD(2) [OF RI_D(1) [OF ri]]] N by blast
    have pX: "?p \<noteq> null \<Longrightarrow> ?p \<in> set (m_contexts ?s) \<and> rt_ph r ?p = Alive"
      using c runningD(2) running_ok(1) [OF RI_D(1) [OF ri] refl] by auto
    have pn: "?p \<noteq> n" using pX N by auto
    have kid: "m_children (ctxs s' d) = (if d = n then [] else if d = ?p \<and> ?p \<noteq> null then m_children (ctxs ?s d) @ [n] else m_children (ctxs ?s d))" for d
      using fun_cong [OF kids, of d] pn by (simp split: if_splits)
    have pa: "m_parent (ctxs s' d) = (if d = n then ?p else m_parent (ctxs ?s d))" for d using fun_cong [OF par, of d] by simp
    have cd: "coords s' (m_lastChild (ctxs ?s d)) = coords ?s (m_lastChild (ctxs ?s d))" if "d \<in> set (m_contexts ?s)" "d \<noteq> ?p" for d
    proof -
      have "m_lastChild (ctxs ?s d) \<noteq> sig" "m_lastChild (ctxs ?s d) \<noteq> lc"
        using RI_owned [OF ri that(1)] RI_lcp [OF ri] N that(1) by auto
      moreover have "?p = null \<or> m_lastChild (ctxs ?s d) \<noteq> m_lastChild (ctxs ?s ?p)"
        using owned_inj [OF ri that(1), of ?p] pX that(2) by blast
      ultimately show ?thesis using co by blast
    qed
    have "phases_ok lcp s' (rt_F r) ((rt_ph r)(n := Alive))"
    proof (rule phases_okI)
      show "m_parent (ctxs s' d) = null \<and> IsKilled s' d" if "d \<in> set (m_contexts s')" "((rt_ph r)(n := Alive)) d \<noteq> Alive" for d
        using that D(1,2) [of d] N s'(4) ks pa sig by (auto simp: IsKilled_def split: if_splits)
      show "((rt_ph r)(n := Alive)) d = Leaving \<and> k = m_lastChild (ctxs s' d) \<and> rt_F r d = [(k, x)]"
        if "(k, x) \<in> set (rt_F r d)" "lcp k" for d k x
        using D(3) [OF that] that(1) fn lch by (cases "d = n") auto
      show "rt_F r d = [] \<or> (\<exists>x. rt_F r d = [(m_lastChild (ctxs s' d), x)])"
        if "d \<in> set (m_contexts s')" "((rt_ph r)(n := Alive)) d = Leaving" for d
        using that D(4) [of d] s'(4) lch by (auto split: if_splits)
      show "\<exists>x. rt_F r d = [(m_lastChild (ctxs s' d), x)] \<and> x \<in> set (blocking s' (m_lastChild (ctxs s' d)))"
        if "d \<in> set (m_contexts s')" "((rt_ph r)(n := Alive)) d = Leaving" "m_children (ctxs s' d) \<noteq> []" for d
      proof -
        have d: "d \<noteq> n" "d \<in> set (m_contexts ?s)" "rt_ph r d = Leaving" using that(1,2) s'(4) by (auto split: if_splits)
        then have "d \<noteq> ?p" using pX links_okD(1) RI_D(2) [OF ri] unfolding tree_ok_def by (metis phase.distinct(3))
        then show ?thesis using D(5) [OF d(2,3)] that(3) d kid lch cd by auto
      qed
      show "rt_F r d = []" if "d \<in> set (m_contexts s')" "((rt_ph r)(n := Alive)) d = Dying" for d
        using that D(6) [of d] s'(4) fn by (auto split: if_splits)
      show "held s' (m_lastChild (ctxs s' d)) = (m_children (ctxs s' d) \<noteq> [])"
        if "d \<in> set (m_contexts s')" "((rt_ph r)(n := Alive)) d \<noteq> Leaving" for d
      proof -
        have dX: "d = n \<or> d \<in> set (m_contexts ?s)" and al: "d \<noteq> n \<longrightarrow> rt_ph r d \<noteq> Leaving" using that s'(4) by auto
        have n0: "null \<notin> set (m_contexts ?s)" using rt_invD(1) [OF RI_D(1) [OF ri]] lists_okD(9) unfolding sched_inv_def by blast
        consider "d = n" | "d \<noteq> n" "d = ?p" "?p \<noteq> null" | "d \<in> set (m_contexts ?s)" "d \<noteq> n" "d \<noteq> ?p"
          using dX n0 by metis
        then show ?thesis using hl lch kid cd [of d] D(7) [of d] al by cases auto
      qed
    qed
    then have "RI sg lcp (r\<lparr>rt_s := s', rt_ph := (rt_ph r)(n := Alive)\<rparr>)" using s'(2,3) by (simp add: RI_def)
    then show ?thesis using s'(1) by simp
  qed
qed

lemma detach_RI:
  assumes ri: "RI sg lcp r" and c: "c \<in> set (m_contexts (rt_s r))" "m_parent (ctxs (rt_s r) c) \<noteq> null" and d: "Detach c (rt_s r) = Some s'"
  shows "RI sg lcp (r\<lparr>rt_s := s'\<rparr>)" "quiet (rt_s r) s'" "m_locals s' = m_locals (rt_s r)" "m_parent (ctxs s' c) = null"
    "m_killedSignal (ctxs s' e) = m_killedSignal (ctxs (rt_s r) e)"
proof -
  let ?s = "rt_s r" let ?p = "m_parent (ctxs ?s c)"
  note D = phases_okD [OF RI_D(3) [OF ri]]
  from Detach_ok [OF RI_D(1,2) [OF ri] c(1) refl c(2)] d have
    s': "rt_inv sg s' (rt_F r) null" "tree_ok sg lcp s'" "quiet ?s s'" "m_locals s' = m_locals ?s" "m_signaled s' = m_signaled ?s"
    and kids: "kids_of s' = (kids_of ?s)(?p := remove1 c (kids_of ?s ?p))" and par: "parent_of s' = (parent_of ?s)(c := null)"
    and own: "\<forall>d. m_killedSignal (ctxs s' d) = m_killedSignal (ctxs ?s d) \<and> m_lastChild (ctxs s' d) = m_lastChild (ctxs ?s d)"
    and co: "\<forall>k. k \<noteq> m_lastChild (ctxs ?s ?p) \<or> remove1 c (kids_of ?s ?p) \<noteq> [] \<longrightarrow> coords s' k = coords ?s k"
    and hl: "remove1 c (kids_of ?s ?p) = [] \<longrightarrow> (held s' (m_lastChild (ctxs ?s ?p)) \<longleftrightarrow>
       held ?s (m_lastChild (ctxs ?s ?p)) \<and> blocking ?s (m_lastChild (ctxs ?s ?p)) \<noteq> [])" by auto
  have cx: "m_contexts s' = m_contexts ?s" using s'(3) by (simp add: quiet_def)
  have pX: "?p \<in> set (m_contexts ?s)" "kids_of ?s ?p \<noteq> []"
    using links_okD(5,6) [of _ _ _ c] c RI_D(2) [OF ri] unfolding tree_ok_def by force+
  have kid: "m_children (ctxs s' d) = (if d = ?p then remove1 c (m_children (ctxs ?s d)) else m_children (ctxs ?s d))" for d
    using fun_cong [OF kids, of d] by simp
  have pa: "m_parent (ctxs s' d) = (if d = c then null else m_parent (ctxs ?s d))" for d using fun_cong [OF par, of d] by simp
  have cd: "coords s' (m_lastChild (ctxs ?s d)) = coords ?s (m_lastChild (ctxs ?s d))"
    if "d \<in> set (m_contexts ?s)" "d \<noteq> ?p \<or> m_children (ctxs s' d) \<noteq> []" for d
    using co owned_inj [OF ri that(1) pX(1)] that(2) kid [of d] by auto
  have "phases_ok lcp s' (rt_F r) (rt_ph r)"
  proof (rule phases_okI)
    show "\<exists>x. rt_F r d = [(m_lastChild (ctxs s' d), x)] \<and> x \<in> set (blocking s' (m_lastChild (ctxs s' d)))"
      if "d \<in> set (m_contexts s')" "rt_ph r d = Leaving" "m_children (ctxs s' d) \<noteq> []" for d
      using that D(5) [of d] cx own cd [of d] kid [of d] pX(2) by (auto split: if_splits)
    show "held s' (m_lastChild (ctxs s' d)) = (m_children (ctxs s' d) \<noteq> [])" if "d \<in> set (m_contexts s')" "rt_ph r d \<noteq> Leaving" for d
    proof (cases "d = ?p \<and> m_children (ctxs s' d) = []")
      case True
      then show ?thesis using hl own kid [of d] last_child_unwaited [OF ri, of d] that cx by auto
    next
      case False
      then have "coords s' (m_lastChild (ctxs ?s d)) = coords ?s (m_lastChild (ctxs ?s d))" using cd that cx by auto
      then show ?thesis using D(7) [of d] that cx own kid [of d] False pX(2) by auto
    qed
  qed (use D(1-4,6) cx own pa s'(5) in \<open>auto simp: IsKilled_def\<close>)
  then show "RI sg lcp (r\<lparr>rt_s := s'\<rparr>)" using s'(1,2) by (simp add: RI_def)
  show "quiet ?s s'" "m_locals s' = m_locals ?s" "m_parent (ctxs s' c) = null" "m_killedSignal (ctxs s' e) = m_killedSignal (ctxs ?s e)"
    using s'(3,4) pa own by auto
qed

lemma step_detach:
  assumes ri: "RI sg lcp r" and "legal sg lcp DoDetach r"
  shows "\<exists>r'. act sg DoDetach r = Some r' \<and> RI sg lcp r'"
proof -
  let ?s = "rt_s r" let ?c = "m_scheduled ?s"
  from assms(2) have c: "running Alive r" and p: "m_parent (ctxs ?s ?c) \<noteq> null" by auto
  have cX: "?c \<in> set (m_contexts ?s)" by (rule running_ok(1) [OF RI_D(1) [OF ri] refl runningD(3) [OF c]])
  obtain s' where s': "Detach ?c ?s = Some s'" using Detach_ok [OF RI_D(1,2) [OF ri] cX refl p] by blast
  show ?thesis using detach_RI(1) [OF ri cX p s'] s' by (simp add: with_s_def)
qed

text \<open>The destructor.\<close>

lemma RI_dying:
  assumes ri: "RI sg lcp r" and c: "rt_F r c = []" "rt_ph r c = Alive" "m_parent (ctxs (rt_s r) c) = null" "IsKilled (rt_s r) c"
  shows "RI sg lcp (r\<lparr>rt_ph := (rt_ph r)(c := Dying)\<rparr>)"
proof -
  note D = phases_okD [OF RI_D(3) [OF ri]]
  have "phases_ok lcp (rt_s r) (rt_F r) ((rt_ph r)(c := Dying))"
  proof (rule phases_okI)
    show "((rt_ph r)(c := Dying)) d = Leaving \<and> k = m_lastChild (ctxs (rt_s r) d) \<and> rt_F r d = [(k, x)]"
      if "(k, x) \<in> set (rt_F r d)" "lcp k" for d k x using D(3) [OF that] c(2) by auto
  qed (use D(1,2,4-7) c in \<open>auto split: if_splits\<close>)
  then show ?thesis using ri by (simp add: RI_def)
qed

lemma step_exit_begin:
  assumes ri: "RI sg lcp r" and "legal sg lcp ExitBegin r"
  shows "\<exists>r'. act sg ExitBegin r = Some r' \<and> RI sg lcp r'"
proof -
  let ?s = "rt_s r" let ?c = "m_scheduled ?s"
  from assms(2) have c: "running Alive r" by auto
  have cX: "?c \<in> set (m_contexts ?s)" by (rule running_ok(1) [OF RI_D(1) [OF ri] refl runningD(3) [OF c]])
  have "\<exists>s1. (if m_parent (ctxs ?s ?c) \<noteq> null then Detach ?c ?s else Some ?s) = Some s1 \<and> RI sg lcp (r\<lparr>rt_s := s1\<rparr>) \<and>
    quiet ?s s1 \<and> m_locals s1 = m_locals ?s \<and> m_parent (ctxs s1 ?c) = null"
  proof (cases "m_parent (ctxs ?s ?c) = null")
    case False
    obtain s1 where s1: "Detach ?c ?s = Some s1" using Detach_ok [OF RI_D(1,2) [OF ri] cX refl False] by blast
    then show ?thesis using detach_RI(1-4) [OF ri cX False s1] False by simp
  qed (use ri in simp)
  then obtain s1 where s1: "(if m_parent (ctxs ?s ?c) \<noteq> null then Detach ?c ?s else Some ?s) = Some s1" "RI sg lcp (r\<lparr>rt_s := s1\<rparr>)"
    "quiet ?s s1" "m_locals s1 = m_locals ?s" "m_parent (ctxs s1 ?c) = null" by blast
  let ?r = "r\<lparr>rt_s := s1\<rparr>"
  have run: "m_scheduled s1 = ?c" "?c \<noteq> null" "m_locals s1 ?c = []" "?c \<in> set (m_contexts s1)" "rt_F r ?c = []" "rt_ph r ?c = Alive"
    using s1(3,4) runningD [OF c] cX by (auto simp: quiet_def)
  have "\<exists>s2. (if \<not> IsKilled s1 ?c then Kill ?c ?c True s1 else Some s1) = Some s2 \<and> RI sg lcp (r\<lparr>rt_s := s2\<rparr>) \<and>
    IsKilled s2 ?c \<and> m_parent (ctxs s2 ?c) = null"
  proof (cases "IsKilled s1 ?c")
    case False
    from Kill_ok [OF RI_D(1,2) [OF s1(2), simplified] run(1-4), of True] obtain s2 where
      s2: "Kill ?c ?c True s1 = Some s2" "rt_inv sg s2 (rt_F r) null" "m_contexts s2 = m_contexts s1" "same_shape s1 s2"
      "\<forall>k. m_signaled s2 k \<longleftrightarrow> m_signaled s1 k \<or> (\<exists>d. descends (kids_of s1) ?c d \<and> k = m_killedSignal (ctxs s1 d))"
      "\<forall>k. \<not> sg k \<longrightarrow> coords s2 k = coords s1 k" by blast
    have "RI sg lcp (?r\<lparr>rt_s := s2\<rparr>)"
      by (rule RI_keep [OF s1(2)]) (use s2(2-6) RI_lcp [OF ri] in auto)
    moreover have "IsKilled s2 ?c" using s2(4,5) descends.self [of "kids_of s1" ?c] by (auto simp: IsKilled_def same_shape_def)
    moreover have "m_parent (ctxs s2 ?c) = null" using s2(4) s1(5) by (simp add: same_shape_def)
    ultimately show ?thesis using s2(1) False by simp
  qed (use s1(2,5) in simp)
  then obtain s2 where s2: "(if \<not> IsKilled s1 ?c then Kill ?c ?c True s1 else Some s1) = Some s2" "RI sg lcp (r\<lparr>rt_s := s2\<rparr>)"
    "IsKilled s2 ?c" "m_parent (ctxs s2 ?c) = null" by blast
  have "exit_begin ?c ?s = Some s2" unfolding exit_begin_def s1(1) using s2(1) by simp
  moreover have "RI sg lcp (r\<lparr>rt_s := s2, rt_ph := (rt_ph r)(?c := Dying)\<rparr>)" using RI_dying [OF s2(2)] run(5,6) s2(3,4) by simp
  ultimately show ?thesis by (simp add: Let_def)
qed

lemma Acquire_queued:
  assumes "Acquire k c x s = Some s'" and "held s k"
  shows "x \<in> set (blocking s' k)"
proof -
  from assms obtain s1 where s1: "AddAsBlocked k x (set_cd x (node_for c) s) = Some s1" "Context_Block c s1 = Some s'"
    by (auto simp: Acquire_def bind_eq_Some_conv)
  have "x \<in> set (blocking s1 k)" using s1(1) by (auto simp: AddAsBlocked_def Let_def)
  moreover have "coords s' = coords s1"
    using s1(2) by (auto simp: Context_Block_def Block_def remove_yielded_def push_blocked_def switch_next_def set_state_def
      split: if_splits list.splits)
  ultimately show ?thesis by simp
qed

lemma RI_leaving:
  assumes ri: "RI sg lcp r" and c: "c \<in> set (m_contexts (rt_s r))" "rt_F r c = []" "rt_ph r c = Dying"
    and s': "rt_inv sg s' F' null" "kept (rt_s r) s'" "m_contexts s' = m_contexts (rt_s r)"
      "\<And>k. k \<noteq> m_lastChild (ctxs (rt_s r) c) \<Longrightarrow> coords s' k = coords (rt_s r) k"
    and F: "\<And>d. d \<noteq> c \<Longrightarrow> F' d = rt_F r d" "F' c = [] \<and> m_children (ctxs (rt_s r) c) = [] \<or>
      (\<exists>x. F' c = [(m_lastChild (ctxs (rt_s r) c), x)] \<and> x \<in> set (blocking s' (m_lastChild (ctxs (rt_s r) c))))"
  shows "RI sg lcp (r\<lparr>rt_s := s', rt_F := F', rt_ph := (rt_ph r)(c := Leaving)\<rparr>)"
proof -
  let ?s = "rt_s r"
  note D = phases_okD [OF RI_D(3) [OF ri]]
  have [simp]: "m_parent (ctxs s' d) = m_parent (ctxs ?s d)" "m_children (ctxs s' d) = m_children (ctxs ?s d)"
    "m_lastChild (ctxs s' d) = m_lastChild (ctxs ?s d)" "IsKilled s' d = IsKilled ?s d" for d
    using s'(2) by (simp_all add: kept_def same_shape_def IsKilled_def)
  have cd [simp]: "coords s' (m_lastChild (ctxs ?s d)) = coords ?s (m_lastChild (ctxs ?s d))" if "d \<in> set (m_contexts ?s)" "d \<noteq> c" for d
    using s'(4) owned_inj [OF ri that(1) c(1)] that(2) by blast
  have "phases_ok lcp s' F' ((rt_ph r)(c := Leaving))"
  proof (rule phases_okI)
    show "((rt_ph r)(c := Leaving)) d = Leaving \<and> k = m_lastChild (ctxs s' d) \<and> F' d = [(k, x)]"
      if "(k, x) \<in> set (F' d)" "lcp k" for d k x
      using that D(3) [of k x d] F(1) [of d] F(2) by (cases "d = c") auto
    show "\<exists>x. F' d = [(m_lastChild (ctxs s' d), x)] \<and> x \<in> set (blocking s' (m_lastChild (ctxs s' d)))"
      if "d \<in> set (m_contexts s')" "((rt_ph r)(c := Leaving)) d = Leaving" "m_children (ctxs s' d) \<noteq> []" for d
      using that D(5) [of d] F(1) [of d] F(2) s'(3) cd [of d] by (cases "d = c") auto
  qed (use D(1,2,4,6,7) F s'(3) c in \<open>auto split: if_splits\<close>)
  then show ?thesis using s'(1,2) tree_ok_kept [OF RI_D(2) [OF ri] _ s'(3)] by (simp add: RI_def kept_def)
qed

lemma step_exit_wait:
  assumes ri: "RI sg lcp r" and "legal sg lcp (ExitWait x) r"
  shows "\<exists>r'. act sg (ExitWait x) r = Some r' \<and> RI sg lcp r'"
proof -
  let ?s = "rt_s r" let ?c = "m_scheduled ?s" let ?k = "m_lastChild (ctxs ?s ?c)"
  from assms(2) have c: "running Dying r" and x: "fresh_nodes ?s (rt_F r) [(?k, x)]" by auto
  note C = runningD [OF c]
  have cX: "?c \<in> set (m_contexts ?s)" by (rule running_ok(1) [OF RI_D(1) [OF ri] refl C(3)])
  have hk: "held ?s ?k \<longleftrightarrow> m_children (ctxs ?s ?c) \<noteq> []" using phases_okD(7) [OF RI_D(3) [OF ri] cX] C(2) by simp
  show ?thesis
  proof (cases "held ?s ?k")
    case True
    from Acquire_held [OF RI_D(1) [OF ri] C(1) x True] obtain s' where s': "Acquire ?k ?c x ?s = Some s'"
      "rt_inv sg s' ((rt_F r)(?c := [(?k, x)])) null" "m_contexts s' = m_contexts ?s"
      "\<forall>k'. k' \<noteq> ?k \<longrightarrow> coords s' k' = coords ?s k'" by blast
    have "RI sg lcp (r\<lparr>rt_s := s', rt_F := (rt_F r)(?c := [(?k, x)]), rt_ph := (rt_ph r)(?c := Leaving)\<rparr>)"
      by (rule RI_leaving [OF ri cX C(4,2) s'(2) Acquire_kept [OF s'(1)] s'(3)]) (use s'(4) Acquire_queued [OF s'(1) True] in auto)
    then show ?thesis using s'(1) True by (simp add: exit_wait_def Let_def)
  next
    case False
    let ?s' = "set_coord ?k ((coords ?s ?k)\<lparr>m_held := True\<rparr>) ?s"
    have "\<not> sg ?k" using RI_owned [OF ri cX] RI_lcp [OF ri] by blast
    then have "rt_inv sg ?s' (rt_F r) null" using TryAcquire_ok(1) [OF RI_D(1) [OF ri], of ?k] False by (simp add: TryAcquire_def)
    then have "RI sg lcp (r\<lparr>rt_s := ?s', rt_F := rt_F r, rt_ph := (rt_ph r)(?c := Leaving)\<rparr>)"
      by (rule RI_leaving [OF ri cX C(4,2)]) (use False hk C(4) in auto)
    then show ?thesis using Acquire_free [OF False] False by (simp add: exit_wait_def Let_def)
  qed
qed

lemma no_children_left:
  assumes ri: "RI sg lcp r" and c: "running Leaving r"
  shows "m_children (ctxs (rt_s r) (m_scheduled (rt_s r))) = []" "m_parent (ctxs (rt_s r) (m_scheduled (rt_s r))) = null"
  using phases_okD(1,5) [OF RI_D(3) [OF ri] running_ok(1) [OF RI_D(1) [OF ri] refl runningD(3) [OF c]]] runningD(2,4) [OF c] by auto

lemma step_exit_end:
  assumes ri: "RI sg lcp r" and "legal sg lcp ExitEnd r"
  shows "\<exists>r'. act sg ExitEnd r = Some r' \<and> RI sg lcp r'"
proof -
  let ?s = "rt_s r" let ?c = "m_scheduled ?s"
  note D = phases_okD [OF RI_D(3) [OF ri]]
  from assms(2) have c: "running Leaving r" by auto
  from exit_end_ok [OF RI_D(1,2) [OF ri] runningD(1) [OF c] no_children_left(2,1) [OF ri c]] obtain s' where
    s': "exit_end ?c ?s = Some s'" "rt_inv sg s' (rt_F r) null" "tree_ok sg lcp s'" "kept ?s s'"
    "m_contexts s' = remove1 ?c (m_contexts ?s)" "coords s' = coords ?s" by blast
  have [simp]: "m_parent (ctxs s' d) = m_parent (ctxs ?s d)" "m_children (ctxs s' d) = m_children (ctxs ?s d)"
    "m_lastChild (ctxs s' d) = m_lastChild (ctxs ?s d)" "IsKilled s' d = IsKilled ?s d" for d
    using s'(4) by (simp_all add: kept_def same_shape_def IsKilled_def)
  have X: "d \<in> set (m_contexts s') \<Longrightarrow> d \<in> set (m_contexts ?s)" for d using s'(5) notin_set_remove1 by metis
  have "phases_ok lcp s' (rt_F r) (rt_ph r)"
    by (rule phases_okI) (use D X s'(6) in simp_all)
  then show ?thesis using s'(1-3) by (simp add: with_s_def RI_def)
qed

lemmas step_lemmas = step_loop step_poll step_yield step_try step_release step_coordinate step_coordinate_kill step_wake
  step_notify step_notify_resume step_spawn step_kill step_detach step_exit_begin step_exit_wait step_exit_end

lemma step_ok: "RI sg lcp r \<Longrightarrow> legal sg lcp a r \<Longrightarrow> \<exists>r'. act sg a r = Some r' \<and> RI sg lcp r'"
  by (cases a; hypsubst; rule step_lemmas; assumption)

lemma reach_RI:
  assumes "reach sg lcp cfg r" and "\<And>k. lcp k \<Longrightarrow> \<not> sg k"
  shows "RI sg lcp r"
  using assms(1)
proof (induction rule: reach.induct)
  case init
  show ?case using assms(2)
    by (simp add: rt_init_def RI_def rt_inv_def sched_inv_def lists_ok_def waits_ok_def placed_def coords_ok_def armed_ok_def
        tree_ok_def links_ok_def owned_ok_def phases_ok_def wl_def conn_def split: place.splits)
next
  case (step r a r')
  then show ?case using step_ok by fastforce
qed

section \<open>Properties\<close>

text \<open>
  An example: two contexts with their signals and last-child coordinators, and one coordinator (50)
  that the first holds when the second waits for it.
\<close>

definition demo_sg :: "addr \<Rightarrow> bool" where
  "demo_sg k \<longleftrightarrow> 100 \<le> k \<and> k < 200"

definition demo_lc :: "addr \<Rightarrow> bool" where
  "demo_lc k \<longleftrightarrow> 200 \<le> k"

definition demo_cfg :: config where
  "demo_cfg = \<lparr>directYield = True, directYieldBudget = 8, ioPresentLimit = 2\<rparr>"

definition demo_wait :: "action list" where
  "demo_wait = [DoSpawn 1 0 101 201 True, DoTryAcquire 50, DoSpawn 2 0 102 202 True, DoCoordinateKill 50 300 301, LoopResume]"

definition demo_exit :: "action list" where
  "demo_exit = demo_wait @ [ExitBegin, ExitWait 302, Wake, ExitBegin, ExitWait 303]"

lemmas demo_defs = demo_sg_def demo_lc_def demo_cfg_def demo_wait_def demo_exit_def rt_init_def with_s_def running_def active_def
  fresh_nodes_def fresh_context_def conn_def Spawn_def Context_new_def IsKilled_def set_coord_def TryAcquire_def EnterContext_def
  push_yielded_def push_blocked_def remove_blocked_def set_state_def state_of_def switch_next_def SanityCheck_def
  CoordinateWithKill_begin_def CoordinateWith_begin_def mc_acquire_def AddAsBlocked_def set_cd_def Context_Block_def Block_def
  direct_ok_def loop_resume_def Resume_def Let_def

lemma demo_disjoint: "demo_lc k \<Longrightarrow> \<not> demo_sg k"
  by (simp add: demo_lc_def demo_sg_def)

lemma demo_wait_reach:
  "\<exists>r. reach demo_sg demo_lc demo_cfg r \<and> m_scheduled (rt_s r) = 1 \<and> running Alive r \<and> m_contexts (rt_s r) = [1, 2] \<and>
     state_of (rt_s r) 2 = BLOCKED \<and> coords (rt_s r) 50 = \<lparr>m_held = True, m_blocking = [300]\<rparr> \<and> waiter_of (rt_s r) 300 = WaitContext 2"
proof -
  have "\<exists>r. steps demo_sg demo_lc demo_wait (rt_init demo_sg demo_cfg) = Some r \<and> m_scheduled (rt_s r) = 1 \<and> running Alive r \<and>
     m_contexts (rt_s r) = [1, 2] \<and> state_of (rt_s r) 2 = BLOCKED \<and> coords (rt_s r) 50 = \<lparr>m_held = True, m_blocking = [300]\<rparr> \<and>
     waiter_of (rt_s r) 300 = WaitContext 2"
    by (simp add: demo_defs waiter_of_def)
  then show ?thesis using steps_reach reach.init by metis
qed

text \<open>
  C7. In every reachable state the debug \<open>SanityCheck\<close> of the cooperator holds, and every legal operation
  of the loop or of the running context completes: no debug assertion fails anywhere.
\<close>

theorem runtime_safe:
  assumes "reach sg lcp cfg r" and "\<And>k. lcp k \<Longrightarrow> \<not> sg k"
  shows "SanityCheck (rt_s r) \<and> (\<forall>a. legal sg lcp a r \<longrightarrow> (\<exists>r'. act sg a r = Some r'))"
  using reach_RI [OF assms] step_ok SanityCheck_ok rt_invD(1) RI_D(1) by blast

theorem runtime_safe_witness:
  "\<exists>r. reach demo_sg demo_lc demo_cfg r \<and> m_contexts (rt_s r) = [1, 2] \<and> SanityCheck (rt_s r) \<and>
     (\<forall>a. legal demo_sg demo_lc a r \<longrightarrow> (\<exists>r'. act demo_sg a r = Some r'))"
  using demo_wait_reach runtime_safe [of demo_sg demo_lc demo_cfg] demo_disjoint by metis



text \<open>
  C9. Structured concurrency: in every reachable state the parent of a live context is live, and a
  context whose destructor has passed its wait for the last child has no live children left.
\<close>

theorem children_before_parent:
  assumes "reach sg lcp cfg r" and "\<And>k. lcp k \<Longrightarrow> \<not> sg k" and "d \<in> set (m_contexts (rt_s r))"
  shows "(m_parent (ctxs (rt_s r) d) = null \<or> m_parent (ctxs (rt_s r) d) \<in> set (m_contexts (rt_s r))) \<and>
    (running Leaving r \<longrightarrow> m_parent (ctxs (rt_s r) d) \<noteq> m_scheduled (rt_s r))"
proof -
  have ri: "RI sg lcp r" by (rule reach_RI [OF assms(1,2)])
  have L: "links_ok (set (m_contexts (rt_s r))) (kids_of (rt_s r)) (parent_of (rt_s r))" using RI_D(2) [OF ri] by (simp add: tree_ok_def)
  have "m_parent (ctxs (rt_s r) d) \<noteq> m_scheduled (rt_s r)" if "running Leaving r"
    using no_children_left(1) [OF ri that] links_okD(6) [OF L assms(3)] runningD(3) [OF that] by auto
  then show ?thesis using links_okD(5) [OF L assms(3)] by blast
qed

lemmas demo_exit_defs = demo_defs exit_begin_def exit_wait_def Detach_def Kill_def Notify_def WakeWaiter_def Unblock_def Acquire_def
  CoordinateWith_end_def mc_complete_def mc_SanityCheck_def RemoveAsBlocked_def maybeReset_def ResetCoordinator_def Release_def
  ReleaseToNext_def pop_waiter_def is_continuation_def leftmost.simps kill_loop.simps

theorem children_before_parent_witness:
  "\<exists>r. reach demo_sg demo_lc demo_cfg r \<and> running Leaving r \<and> m_scheduled (rt_s r) = 2 \<and> 1 \<in> set (m_contexts (rt_s r)) \<and>
     m_parent (ctxs (rt_s r) 1) \<noteq> m_scheduled (rt_s r)"
proof -
  have "\<exists>r. steps demo_sg demo_lc demo_exit (rt_init demo_sg demo_cfg) = Some r \<and> running Leaving r \<and> m_scheduled (rt_s r) = 2 \<and>
    1 \<in> set (m_contexts (rt_s r))"
    by (simp add: demo_exit_defs) auto
  then obtain r where r: "reach demo_sg demo_lc demo_cfg r" "running Leaving r" "m_scheduled (rt_s r) = 2" "1 \<in> set (m_contexts (rt_s r))"
    using steps_reach reach.init by metis
  then show ?thesis using children_before_parent [OF r(1) demo_disjoint r(4)] by blast
qed

text \<open>
  C10. \<open>Kill\<close> from a running context is the notification, one by one, of the kill signals of the
  target's descendants in post-order (children before their parents) and then of the target; it
  completes, and afterwards exactly the contexts that were killed before and the descendants of the
  target are killed.
\<close>

theorem Kill_reaches_descendants:
  assumes "reach sg lcp cfg r" and "\<And>k. lcp k \<Longrightarrow> \<not> sg k" and "running Alive r" and "other \<in> set (m_contexts (rt_s r))"
    and "s = rt_s r" and "t = m_scheduled s"
  shows "\<exists>ts s'. tree_of (kids_of s) (parent_of s) (CNode other ts) \<and>
    set (postorder (CNode other ts)) = {d. descends (kids_of s) other d} \<and>
    Kill t other schedule s = do { s1 \<leftarrow> notify_all t (concat (map postorder ts)) s; Notify (m_killedSignal (ctxs s other)) t schedule s1 } \<and>
    Kill t other schedule s = Some s' \<and>
    (\<forall>d \<in> set (m_contexts s). IsKilled s' d \<longleftrightarrow> IsKilled s d \<or> descends (kids_of s) other d)"
proof -
  have ri: "RI sg lcp r" by (rule reach_RI [OF assms(1,2)])
  have tr: "tree_ok sg lcp s" using RI_D(2) [OF ri] assms(5) by simp
  have o: "other \<in> set (m_contexts s)" using assms(4,5) by simp
  from Kill_is_notify_all [OF tr o] obtain ts where ts: "tree_of (kids_of s) (parent_of s) (CNode other ts)"
    "\<forall>d. d \<in> set (postorder (CNode other ts)) \<longleftrightarrow> descends (kids_of s) other d"
    "Kill t other schedule s = do { s1 \<leftarrow> notify_all t (concat (map postorder ts)) s; Notify (m_killedSignal (ctxs s other)) t schedule s1 }"
    by blast
  have run: "t \<noteq> null" "m_locals s t = []" using runningD(3,5) [OF assms(3)] assms(5,6) by auto
  from Kill_ok [OF _ tr assms(6) [symmetric] run o, of "rt_F r" null schedule] RI_D(1) [OF ri] assms(5)
  obtain s' where s': "Kill t other schedule s = Some s'" "same_shape s s'"
    "\<forall>k. m_signaled s' k \<longleftrightarrow> m_signaled s k \<or> (\<exists>d. descends (kids_of s) other d \<and> k = m_killedSignal (ctxs s d))" by blast
  have L: "links_ok (set (m_contexts s)) (kids_of s) (parent_of s)" and inj: "inj_on (\<lambda>c. m_killedSignal (ctxs s c)) (set (m_contexts s))"
    using tr by (simp_all add: tree_ok_def owned_ok_def)
  have "IsKilled s' d \<longleftrightarrow> IsKilled s d \<or> descends (kids_of s) other d" if "d \<in> set (m_contexts s)" for d
    using s'(2,3) descends_closed [OF _ L o] inj_onD [OF inj _ that] by (auto simp: IsKilled_def same_shape_def)
  then show ?thesis using ts s'(1) by (intro exI [of _ ts] exI [of _ s']) auto
qed

theorem Kill_reaches_descendants_witness:
  "\<exists>r s'. reach demo_sg demo_lc demo_cfg r \<and> m_scheduled (rt_s r) = 1 \<and> Kill 1 1 True (rt_s r) = Some s' \<and> IsKilled s' 1"
proof -
  obtain r where r: "reach demo_sg demo_lc demo_cfg r" "m_scheduled (rt_s r) = 1" "running Alive r" "m_contexts (rt_s r) = [1, 2]"
    using demo_wait_reach by blast
  then have "1 \<in> set (m_contexts (rt_s r))" by simp
  from Kill_reaches_descendants [OF r(1) demo_disjoint r(3) this refl refl, of True] r(2,4) descends.self [of "kids_of (rt_s r)" 1] r(1)
  show ?thesis by (intro exI [of _ r]) auto
qed

text \<open>
  C11. Waiting for several coordinators at once: a context that runs again after blocking in
  \<open>CoordinateWith\<close> completes the call, reports the leftmost coordinator that was satisfied for it, and
  leaves none of its nodes queued anywhere.
\<close>

theorem CoordinateWith_leftmost:
  assumes "reach sg lcp cfg r" and "\<And>k. lcp k \<Longrightarrow> \<not> sg k" and "m_scheduled (rt_s r) = c" "c \<noteq> null" and "rt_F r c = f" "f \<noteq> []"
  shows "\<exists>i s'. CoordinateWith_end sg f (rt_s r) = Some (i, s') \<and> i < length f \<and> sat (rt_s r) (snd (f ! i)) \<and>
    (\<forall>j < i. \<not> sat (rt_s r) (snd (f ! j))) \<and> (\<forall>x \<in> snd ` set f. \<not> conn s' x \<and> (\<forall>p. x \<notin> set (wl s' p)))"
proof -
  from CoordinateWith_end_ok [OF RI_D(1) [OF reach_RI [OF assms(1,2)]] assms(3-6)] obtain i s' where
    i: "CoordinateWith_end sg f (rt_s r) = Some (i, s')" "i < length f" "sat (rt_s r) (snd (f ! i))"
    "\<forall>j < i. \<not> sat (rt_s r) (snd (f ! j))" "rt_inv sg s' ((rt_F r)(c := [])) null" "\<forall>x \<in> snd ` set f. \<not> conn s' x" by blast
  have "x \<notin> set (wl s' p)" if "\<not> conn s' x" for x p
    using placedD(3) [OF waits_okD(1) [OF rt_invD(2) [OF i(5)]], of x p] that by blast
  then show ?thesis using i by blast
qed

theorem CoordinateWith_leftmost_witness:
  "\<exists>r i s'. reach demo_sg demo_lc demo_cfg r \<and> m_scheduled (rt_s r) = 2 \<and> rt_F r 2 = [(102, 301), (50, 300)] \<and>
     CoordinateWith_end demo_sg [(102, 301), (50, 300)] (rt_s r) = Some (i, s') \<and> i < 2 \<and> \<not> conn s' 300 \<and> \<not> conn s' 301"
proof -
  have "\<exists>r. steps demo_sg demo_lc (demo_wait @ [DoRelease 50 True]) (rt_init demo_sg demo_cfg) = Some r \<and> m_scheduled (rt_s r) = 2 \<and>
    rt_F r 2 = [(102, 301), (50, 300)]"
    by (simp add: demo_exit_defs)
  then obtain r where r: "reach demo_sg demo_lc demo_cfg r" "m_scheduled (rt_s r) = 2" "rt_F r 2 = [(102, 301), (50, 300)]"
    using steps_reach reach.init by metis
  from CoordinateWith_leftmost [OF r(1) demo_disjoint r(2) _ r(3)] r show ?thesis by auto
qed



end
