(* ===== verification/Continuations.thy ===== *)
theory Continuations
  imports Runtime "HOL-Library.Word"
begin

text \<open>
  Continuations, the stackless waiters: the tagged waiter word of \<open>Coordinated\<close>
  (\<open>coop/coordinator.h\<close>), the continuation objects and their completion latch
  (\<open>coop/continuation.h\<close>), and the two drains of the pending queue in \<open>coop/cooperator.cpp\<close>. The body of a
  continuation is user code and appears as a parameter \<open>run\<close>.
\<close>

unbundle bit_operations_syntax

section \<open>The waiter word\<close>

text \<open>
  The record \<open>coordinated\<close> of the scheduler model keeps waiter and flag apart; the code packs them into
  one 64-bit word. \<open>p\<close> is the pointer, 4-aligned.
\<close>

definition kContinuationTag :: "64 word" where
  "kContinuationTag = 1"

definition kSatisfied :: "64 word" where
  "kSatisfied = 2"

definition kPtrMask :: "64 word" where
  "kPtrMask = NOT (kContinuationTag OR kSatisfied)"

definition of_context :: "64 word \<Rightarrow> 64 word" where
  "of_context p = p"

definition of_continuation :: "64 word \<Rightarrow> 64 word" where
  "of_continuation p = p OR kContinuationTag"

definition Satisfied :: "64 word \<Rightarrow> bool" where
  "Satisfied w \<longleftrightarrow> w AND kSatisfied \<noteq> 0"

definition IsContinuation :: "64 word \<Rightarrow> bool" where
  "IsContinuation w \<longleftrightarrow> w AND kContinuationTag \<noteq> 0"

definition Satisfy :: "64 word \<Rightarrow> 64 word" where
  "Satisfy w = w OR kSatisfied"

definition Reset :: "64 word \<Rightarrow> 64 word" where
  "Reset w = w AND NOT kSatisfied"

definition SetContext :: "64 word \<Rightarrow> 64 word" where
  "SetContext p = p"

definition GetPointer :: "64 word \<Rightarrow> 64 word" where
  "GetPointer w = w AND kPtrMask"

definition aligned4 :: "64 word \<Rightarrow> bool" where
  "aligned4 p \<longleftrightarrow> p AND 3 = 0"

text \<open>The word as a pair of waiter and flag.\<close>

definition view_word :: "64 word \<Rightarrow> waiter \<times> bool" where
  "view_word w = ((if IsContinuation w then WaitContinuation else WaitContext) (unat (GetPointer w)), Satisfied w)"

lemma flag_bits:
  "Satisfied w \<longleftrightarrow> bit w 1" "IsContinuation w \<longleftrightarrow> bit w 0"
  using and_exp_eq_0_iff_not_bit [of w 1] and_exp_eq_0_iff_not_bit [of w 0]
  by (simp_all add: Satisfied_def kSatisfied_def IsContinuation_def kContinuationTag_def)

lemma bit_flags: "bit kSatisfied n \<longleftrightarrow> n = 1" "bit kContinuationTag n \<longleftrightarrow> n = 0"
  using bit_exp_iff [of 1 n, where 'a = "64 word"] bit_exp_iff [of 0 n, where 'a = "64 word"]
  by (auto simp: kSatisfied_def kContinuationTag_def bit_1_iff)

lemma aligned4_bits: "aligned4 p \<Longrightarrow> \<not> bit p 0 \<and> \<not> bit p 1"
proof -
  assume "aligned4 p"
  then have "\<not> bit (p AND 3) 0" "\<not> bit (p AND 3) 1" by (simp_all add: aligned4_def)
  moreover have "bit (3 :: 64 word) 0" "bit (3 :: 64 word) 1" by simp_all
  ultimately show ?thesis by (simp add: bit_and_iff)
qed

lemma GetPointer_bits: "n < 64 \<Longrightarrow> bit (GetPointer w) n \<longleftrightarrow> bit w n \<and> n \<noteq> 0 \<and> n \<noteq> 1"
  by (auto simp: GetPointer_def kPtrMask_def bit_and_iff bit_or_iff bit_not_iff bit_flags)

lemma pointer_kept:
  "GetPointer (Satisfy w) = GetPointer w" "GetPointer (Reset w) = GetPointer w"
  "aligned4 p \<Longrightarrow> GetPointer p = p" "aligned4 p \<Longrightarrow> GetPointer (of_continuation p) = p"
  by (rule bit_word_eqI; use aligned4_bits [of p] in \<open>auto simp: GetPointer_bits Satisfy_def Reset_def of_continuation_def
    bit_and_iff bit_or_iff bit_not_iff bit_flags intro!: gr0I\<close>)+

lemma flags_kept:
  "Satisfied (Satisfy w)" "\<not> Satisfied (Reset w)" "IsContinuation (Satisfy w) = IsContinuation w"
  "IsContinuation (Reset w) = IsContinuation w" "aligned4 p \<Longrightarrow> \<not> Satisfied p" "aligned4 p \<Longrightarrow> \<not> IsContinuation p"
  "aligned4 p \<Longrightarrow> \<not> Satisfied (of_continuation p)" "IsContinuation (of_continuation p)"
  using aligned4_bits [of p] by (auto simp: flag_bits Satisfy_def Reset_def of_continuation_def bit_and_iff bit_or_iff bit_not_iff bit_flags)

text \<open>
  C13. The tagged word implements the pair of waiter and satisfied flag: for aligned pointers the
  constructors, \<open>SetContext\<close>, \<open>Satisfy\<close> and \<open>Reset\<close> act on the pair as they should, so none of them
  disturbs the pointer, the tag or the other flag.
\<close>

theorem waiter_word_refines:
  assumes "aligned4 p"
  shows "view_word (of_context p) = (WaitContext (unat p), False) \<and> view_word (SetContext p) = (WaitContext (unat p), False) \<and>
    view_word (of_continuation p) = (WaitContinuation (unat p), False) \<and>
    (\<forall>w. view_word (Satisfy w) = (fst (view_word w), True)) \<and> (\<forall>w. view_word (Reset w) = (fst (view_word w), False))"
  using assms by (simp add: view_word_def of_context_def SetContext_def pointer_kept flags_kept)

theorem waiter_word_refines_witness:
  "aligned4 0x7f00 \<and> view_word (Satisfy (of_continuation 0x7f00)) = (WaitContinuation 0x7f00, True)"
proof -
  have a: "aligned4 0x7f00" by (simp add: aligned4_def)
  show ?thesis using waiter_word_refines [OF a] a by simp
qed

section \<open>Continuation objects\<close>

text \<open>A \<open>ContinuationImpl\<close>: its node, its coordinator, the latch, and whether it was cancelled.\<close>

record continuation =
  ct_node :: addr
  ct_coord :: addr
  m_awaiter :: addr
  m_fired :: bool
  m_cancelled :: bool

text \<open>\<open>Coordinator::Continue\<close>: construct the continuation at \<open>n\<close> with node \<open>x\<close> and register it.\<close>

definition Continue :: "addr \<Rightarrow> addr \<Rightarrow> addr \<Rightarrow> sched \<Rightarrow> (continuation \<times> sched) option" where
  "Continue k n x s = do {
     s1 \<leftarrow> AddAsBlocked k x (set_cd x \<lparr>m_waiter = WaitContinuation n, m_satisfied = False, m_connected = False\<rparr> s);
     Some (\<lparr>ct_node = x, ct_coord = k, m_awaiter = null, m_fired = False, m_cancelled = False\<rparr>, s1) }"

definition Latch_Fire :: "continuation \<Rightarrow> sched \<Rightarrow> (continuation \<times> sched) option" where
  "Latch_Fire ct s = (if m_awaiter ct \<noteq> null
     then map_option (Pair (ct\<lparr>m_fired := True, m_awaiter := null\<rparr>)) (Unblock (m_awaiter ct) False s)
     else Some (ct\<lparr>m_fired := True\<rparr>, s))"

definition Latch_Wait :: "addr \<Rightarrow> continuation \<Rightarrow> sched \<Rightarrow> (continuation \<times> sched) option" where
  "Latch_Wait c ct s = (if m_fired ct then Some (ct, s)
     else map_option (Pair (ct\<lparr>m_awaiter := c\<rparr>)) (Context_Block c s))"

definition Cancel :: "continuation \<Rightarrow> sched \<Rightarrow> (bool \<times> continuation \<times> sched) option" where
  "Cancel ct s = (if m_fired ct \<or> m_cancelled ct then Some (False, ct, s)
     else map_option (\<lambda>s1. (True, ct\<lparr>m_cancelled := True\<rparr>, s1)) (RemoveAsBlocked (ct_coord ct) (ct_node ct) s))"

text \<open>\<open>Run\<close>: the user's function \<open>fn\<close> on the coordinator, then the latch.\<close>

definition Run :: "(addr \<Rightarrow> sched \<Rightarrow> sched option) \<Rightarrow> continuation \<Rightarrow> sched \<Rightarrow> (continuation \<times> sched) option" where
  "Run fn ct s = do { s1 \<leftarrow> fn (ct_coord ct) s; Latch_Fire ct s1 }"

text \<open>The destructor cancels an unfired continuation.\<close>

definition Continuation_drop :: "continuation \<Rightarrow> sched \<Rightarrow> sched option" where
  "Continuation_drop ct s = (if m_fired ct then Some s else map_option (\<lambda>(b, ct', s1). s1) (Cancel ct s))"

section \<open>The drains\<close>

text \<open>
  \<open>run x s\<close> is the effect of the \<open>Run\<close> of the continuation whose node is \<open>x\<close>. A drain also reports
  which continuations it ran. \<open>ThunkScope\<close> marks the time of the call.
\<close>

definition run_thunk :: "(addr \<Rightarrow> sched \<Rightarrow> sched option) \<Rightarrow> addr \<Rightarrow> addr list \<Rightarrow> sched \<Rightarrow> sched option" where
  "run_thunk run x xs s = do {
     s1 \<leftarrow> run x ((pop_waiter x s)\<lparr>m_pendingContinuations := xs, m_inThunk := True\<rparr>);
     Some (s1\<lparr>m_inThunk := m_inThunk s\<rparr>) }"

partial_function (option) DrainContinuations :: "(addr \<Rightarrow> sched \<Rightarrow> sched option) \<Rightarrow> sched \<Rightarrow> (addr list \<times> sched) option" where
  "DrainContinuations run s = (case m_pendingContinuations s of
       [] \<Rightarrow> Some ([], s)
     | x # xs \<Rightarrow> do {
         s1 \<leftarrow> run_thunk run x xs s;
         (rs, s2) \<leftarrow> DrainContinuations run s1;
         Some (x # rs, s2) })"

text \<open>The paced drain; \<open>hpc\<close> is \<open>m_uring.HasPendingCompletions()\<close>.\<close>

partial_function (option) drain_paced :: "(addr \<Rightarrow> sched \<Rightarrow> sched option) \<Rightarrow> (sched \<Rightarrow> bool) \<Rightarrow> u32 \<Rightarrow> u32 \<Rightarrow> u32 \<Rightarrow>
    sched \<Rightarrow> (addr list \<times> sched) option" where
  "drain_paced run hpc budget stride sinceCheck s = (case m_pendingContinuations s of
       [] \<Rightarrow> Some ([], s)
     | x # xs \<Rightarrow> do {
         s1 \<leftarrow> run_thunk run x xs s;
         let budget1 = (if budget \<noteq> 0 then budget - 1 else budget);
         let since1 = (if stride \<noteq> 0 then sinceCheck + 1 else sinceCheck);
         if budget \<noteq> 0 \<and> budget1 = 0 then Some ([x], s1)
         else if stride \<noteq> 0 \<and> since1 \<ge> stride then
           (if hpc s1 then Some ([x], s1)
            else do { (rs, s2) \<leftarrow> drain_paced run hpc budget1 stride 0 s1; Some (x # rs, s2) })
         else do { (rs, s2) \<leftarrow> drain_paced run hpc budget1 stride since1 s1; Some (x # rs, s2) } })"

definition DrainContinuationsPaced :: "(addr \<Rightarrow> sched \<Rightarrow> sched option) \<Rightarrow> (sched \<Rightarrow> bool) \<Rightarrow> u32 \<Rightarrow> u32 \<Rightarrow> sched \<Rightarrow>
    (addr list \<times> sched) option" where
  "DrainContinuationsPaced run hpc drainBudget peekStride s = drain_paced run hpc drainBudget peekStride 0 s"

lemma run_thunk_total: "\<forall>x s. \<exists>s'. run x s = Some s' \<Longrightarrow> \<exists>s'. run_thunk run x xs s = Some s'"
  unfolding run_thunk_def by (metis bind.bind_lunit)

text \<open>
  The paced drain with a nonzero budget: it returns, runs at most \<open>budget\<close> continuations, and leaves
  continuations behind only at the budget or because completions are pending.
\<close>

lemma drain_paced_bounded:
  assumes "\<forall>x s. \<exists>s'. run x s = Some s'" and "budget \<noteq> 0"
  shows "\<exists>rs s'. drain_paced run hpc budget stride since s = Some (rs, s') \<and> length rs \<le> unat budget \<and>
    (length rs < unat budget \<longrightarrow> m_pendingContinuations s' = [] \<or> stride \<noteq> 0 \<and> hpc s')"
  using assms(2)
proof (induction "unat budget" arbitrary: budget since s rule: less_induct)
  case less
  show ?case
  proof (cases "m_pendingContinuations s")
    case Nil
    then show ?thesis by (subst drain_paced.simps) simp
  next
    case (Cons x xs)
    obtain s1 where s1: "run_thunk run x xs s = Some s1" using run_thunk_total [OF assms(1)] by blast
    let ?b = "budget - 1"
    have b: "unat ?b = unat budget - 1" "0 < unat budget" using less.prems by (simp_all add: unat_minus_one unat_gt_0)
    have rec: "\<exists>rs s'. drain_paced run hpc ?b stride t s1 = Some (rs, s') \<and> Suc (length rs) \<le> unat budget \<and>
      (Suc (length rs) < unat budget \<longrightarrow> m_pendingContinuations s' = [] \<or> stride \<noteq> 0 \<and> hpc s')" if "?b \<noteq> 0" for t
    proof -
      from less.hyps [of ?b t s1] that b obtain rs s' where "drain_paced run hpc ?b stride t s1 = Some (rs, s')"
        "length rs \<le> unat ?b" "length rs < unat ?b \<longrightarrow> m_pendingContinuations s' = [] \<or> stride \<noteq> 0 \<and> hpc s'" by auto
      then show ?thesis using b by auto
    qed
    show ?thesis
    proof (cases "?b = 0")
      case True
      then show ?thesis using less.prems s1 Cons b by (subst drain_paced.simps) (simp add: Suc_leI)
    next
      case False
      then show ?thesis using less.prems s1 Cons b rec [OF False, of 0] rec [OF False, of "since + 1"] rec [OF False, of since]
        by (subst drain_paced.simps) (auto simp: Let_def)
    qed
  qed
qed

text \<open>With completions pending all the time, the drain stops at the next peek.\<close>

lemma drain_paced_peek:
  assumes "\<And>s. hpc s" and "stride \<noteq> 0" and "since < stride" and "drain_paced run hpc budget stride since s = Some (rs, s')"
  shows "length rs \<le> unat stride - unat since"
  using assms(3,4)
proof (induction "unat stride - unat since" arbitrary: budget since s rs rule: less_induct)
  case less
  have lt: "unat since < unat stride" using less.prems(1) by (simp add: word_less_nat_alt)
  show ?case
  proof (cases "m_pendingContinuations s")
    case Nil
    then show ?thesis using less.prems(2) by (subst (asm) drain_paced.simps) simp
  next
    case (Cons x xs)
    let ?b = "if budget \<noteq> 0 then budget - 1 else budget"
    have e: "drain_paced run hpc budget stride since s = do {
        s1 \<leftarrow> run_thunk run x xs s;
        if budget \<noteq> 0 \<and> ?b = 0 then Some ([x], s1)
        else if since + 1 \<ge> stride then Some ([x], s1)
        else do { (rs, s2) \<leftarrow> drain_paced run hpc ?b stride (since + 1) s1; Some (x # rs, s2) } }"
      using Cons assms(1,2) by (subst drain_paced.simps) (simp add: Let_def cong: if_cong)
    have no: "unat (since + 1) = Suc (unat since)"
      using lt unsigned_less [of stride, where 'a = nat] by (simp add: unat_word_ariths(1))
    from less.prems(2) [unfolded e] consider "rs = [x]" |
      s1 rs' where "\<not> since + 1 \<ge> stride" "drain_paced run hpc ?b stride (since + 1) s1 = Some (rs', s')" "rs = x # rs'"
      by (auto simp: bind_eq_Some_conv split: if_splits)
    then show ?thesis
    proof cases
      case 1
      then show ?thesis using lt by simp
    next
      case 2
      then have l: "since + 1 < stride" by simp
      have "length rs' \<le> unat stride - unat (since + 1)"
        by (rule less.hyps [OF _ l 2(2)]) (use no lt in simp)
      then show ?thesis using 2(3) no lt by simp
    qed
  qed
qed

text \<open>
  C14. The paced drain is bounded: with a nonzero budget it returns whatever the continuations do (they
  may queue new ones for ever), it runs at most the budget, it leaves continuations queued only when
  the budget is used up or the ring has completions, and while completions are pending it runs at
  most one stride of continuations.
\<close>

theorem paced_drain_bounds:
  assumes "\<forall>x s. \<exists>s'. run x s = Some s'" and "drainBudget \<noteq> 0"
  shows "\<exists>rs s'. DrainContinuationsPaced run hpc drainBudget stride s = Some (rs, s') \<and> length rs \<le> unat drainBudget \<and>
    (length rs < unat drainBudget \<longrightarrow> m_pendingContinuations s' = [] \<or> stride \<noteq> 0 \<and> hpc s') \<and>
    ((\<forall>s. hpc s) \<and> stride \<noteq> 0 \<longrightarrow> length rs \<le> unat stride)"
proof -
  from drain_paced_bounded [OF assms] obtain rs s' where r: "drain_paced run hpc drainBudget stride 0 s = Some (rs, s')"
    "length rs \<le> unat drainBudget" "length rs < unat drainBudget \<longrightarrow> m_pendingContinuations s' = [] \<or> stride \<noteq> 0 \<and> hpc s'" by blast
  have "length rs \<le> unat stride" if "\<forall>s. hpc s" "stride \<noteq> 0"
    using drain_paced_peek [of hpc stride 0, OF _ that(2) _ r(1)] that by (simp add: word_gt_0)
  then show ?thesis using r by (auto simp: DrainContinuationsPaced_def)
qed

text \<open>A continuation that registers and fires again for ever, as in a synchronous chain.\<close>

definition demo_chain :: "addr \<Rightarrow> sched \<Rightarrow> sched option" where
  "demo_chain x s = Some (s\<lparr>m_pendingContinuations := m_pendingContinuations s @ [x]\<rparr>)"

theorem paced_drain_bounds_witness:
  "\<exists>rs s'. DrainContinuationsPaced demo_chain (\<lambda>s. False) 256 16
     ((rt_s (rt_init demo_sg demo_cfg))\<lparr>m_pendingContinuations := [7]\<rparr>) = Some (rs, s') \<and> length rs \<le> 256"
proof -
  have t: "\<forall>x s. \<exists>s'. demo_chain x s = Some s'" by (simp add: demo_chain_def)
  show ?thesis using paced_drain_bounds [OF t, where drainBudget = 256 and hpc = "\<lambda>s. False" and stride = 16
    and s = "(rt_s (rt_init demo_sg demo_cfg))\<lparr>m_pendingContinuations := [7]\<rparr>"] by auto
qed



text \<open>
  Registering a continuation and cancelling it before it fires leaves every coordinator as it was,
  and a second cancel does nothing.
\<close>

theorem Continue_Cancel:
  assumes "Continue k n x s = Some (ct, s1)" and "x \<notin> set (blocking s k)"
  shows "\<exists>ct' s2. Cancel ct s1 = Some (True, ct', s2) \<and> coords s2 = coords s \<and> \<not> m_connected (cds s2 x) \<and>
    Cancel ct' s2 = Some (False, ct', s2)"
  using assms
  by (auto simp: Continue_def AddAsBlocked_def Cancel_def RemoveAsBlocked_def set_coord_def set_cd_def Let_def remove1_append)

theorem Continue_Cancel_witness:
  "\<exists>ct s1. Continue 50 7 300 (rt_s (rt_init demo_sg demo_cfg)) = Some (ct, s1) \<and>
     (\<exists>ct' s2. Cancel ct s1 = Some (True, ct', s2) \<and> coords s2 = coords (rt_s (rt_init demo_sg demo_cfg)))"
proof -
  have "\<exists>ct s1. Continue 50 7 300 (rt_s (rt_init demo_sg demo_cfg)) = Some (ct, s1)" by (simp add: Continue_def AddAsBlocked_def Let_def set_cd_def)
  moreover have "300 \<notin> set (blocking (rt_s (rt_init demo_sg demo_cfg)) 50)" by (simp add: rt_init_def)
  ultimately show ?thesis using Continue_Cancel by blast
qed

text \<open>
  C16. When a continuation is queued in front of a context on the same coordinator, the \<open>Release\<close> that
  fires the continuation leaves the coordinator free with the context still queued, and further
  releases do not wake it.
\<close>

theorem continuation_strands_context:
  assumes "held s k" and "blocking s k = x # y # ys" and "m_waiter (cds s x) = WaitContinuation n"
    and "m_waiter (cds s y) = WaitContext c"
  shows "\<exists>s'. Release k schedule s = Some s' \<and> \<not> held s' k \<and> blocking s' k = y # ys \<and>
    m_pendingContinuations s' = m_pendingContinuations s @ [x] \<and> state_of s' c = state_of s c \<and>
    (\<forall>b. Release k b s' = Some s')"
  using assms
  by (auto simp: Release_def ReleaseToNext_def pop_waiter_def set_coord_def set_cd_def is_continuation_def WakeWaiter_def Let_def state_of_def)

theorem continuation_strands_context_witness:
  "\<exists>s s'. held s 50 \<and> blocking s 50 = [300, 301] \<and> m_waiter (cds s 301) = WaitContext 2 \<and> Release 50 True s = Some s' \<and>
     \<not> held s' 50 \<and> blocking s' 50 = [301]"
proof -
  let ?s = "set_cd 301 \<lparr>m_waiter = WaitContext 2, m_satisfied = False, m_connected = True\<rparr>
    (set_cd 300 \<lparr>m_waiter = WaitContinuation 7, m_satisfied = False, m_connected = True\<rparr>
    (set_coord 50 \<lparr>m_held = True, m_blocking = [300, 301]\<rparr> (rt_s (rt_init demo_sg demo_cfg))))"
  have "held ?s 50" "blocking ?s 50 = [300, 301]" "m_waiter (cds ?s 300) = WaitContinuation 7" "m_waiter (cds ?s 301) = WaitContext 2"
    by simp_all
  then show ?thesis using continuation_strands_context [of ?s 50 300 301 "[]" 7 2 True] by blast
qed

end
