(* ===== verification/Cooperator_Loop.thy ===== *)
theory Cooperator_Loop
  imports Coop_Prelude
begin

text \<open>
  The main loop of \<open>Cooperator::Launch\<close> (\<open>coop/cooperator.cpp\<close>): its control flow, with the operations it
  calls as effects on the loop's state. What these operations do is modelled elsewhere (\<open>Scheduler\<close>,
  \<open>Timer_Service\<close>, \<open>Continuations\<close>, \<open>Submissions\<close>) or depends on the ring and on user code, so the loop is
  shown correct for any effects.
\<close>

section \<open>The loop\<close>

text \<open>What the loop reads: the runnable and blocked contexts, queued continuations, the flags, the ring.\<close>

record loop_state =
  lp_yielded :: "addr list"
  lp_blocked :: "addr list"
  lp_pending :: "addr list"
  lp_shutdown :: bool
  lp_hasSubs :: bool
  lp_pendingOps :: nat

datatype loop_op = DrainSubs | KillSweep | PollOp | Timers | Paced | ArmOp | WaitOp | ResumeOp | ReapOp

type_synonym effects = "loop_op \<Rightarrow> loop_state \<Rightarrow> loop_state"

text \<open>
  The loop condition. \<open>killDone\<close> is the local variable \<open>shutdownKillDone\<close>.
\<close>

definition loop_cond :: "bool \<Rightarrow> loop_state \<Rightarrow> bool" where
  "loop_cond killDone s \<longleftrightarrow> lp_yielded s \<noteq> [] \<or> \<not> lp_shutdown s \<or> \<not> killDone \<or> lp_pending s \<noteq> [] \<or> lp_pendingOps s > 0"

text \<open>
  The trace records each operation with the state it is called in, newest last.
\<close>

type_synonym trace = "(loop_op \<times> loop_state) list"

definition perform :: "effects \<Rightarrow> loop_op \<Rightarrow> trace \<times> loop_state \<Rightarrow> trace \<times> loop_state" where
  "perform e p ts = (fst ts @ [(p, snd ts)], e p (snd ts))"

definition when_subs :: "effects \<Rightarrow> trace \<times> loop_state \<Rightarrow> trace \<times> loop_state" where
  "when_subs e ts = (if lp_hasSubs (snd ts) then perform e DrainSubs ts else ts)"

text \<open>The resume batch: at most \<open>n\<close> resumes.\<close>

fun resume_batch :: "effects \<Rightarrow> nat \<Rightarrow> trace \<times> loop_state \<Rightarrow> trace \<times> loop_state" where
  "resume_batch e 0 ts = ts"
| "resume_batch e (Suc n) ts = (if lp_yielded (snd ts) = [] then ts else
     let t1 = perform e ResumeOp ts;
         hadRunnable = (lp_yielded (snd t1) \<noteq> []);
         t2 = perform e ReapOp t1;
         t3 = when_subs e t2
     in if lp_hasSubs (snd t2) \<and> lp_yielded (snd t3) \<noteq> [] then t3
        else let t4 = (if hadRunnable \<or> lp_yielded (snd t3) = [] then perform e Paced t3 else t3)
             in resume_batch e n t4)"

text \<open>
  The idle branch, taken with nothing runnable: \<open>Some\<close> is a \<open>continue\<close>, \<open>None\<close> falls through to the batch.
\<close>

definition idle_branch :: "effects \<Rightarrow> trace \<times> loop_state \<Rightarrow> bool \<times> trace \<times> loop_state" where
  "idle_branch e ts =
     (let t1 = perform e Timers (perform e PollOp ts);
          t2 = when_subs e t1
      in if lp_yielded (snd t2) \<noteq> [] then (True, t2)
         else let t3 = perform e Paced t2
              in if lp_yielded (snd t3) \<noteq> [] then (True, t3)
                 else if lp_pending (snd t3) \<noteq> [] then (True, t3)
                 else if lp_blocked (snd t3) \<noteq> [] \<or> lp_pendingOps (snd t3) > 0
                      then (True, perform e WaitOp (perform e ArmOp t3))
                      else if lp_shutdown (snd t3) then (True, t3) else (False, t3))"

text \<open>One iteration; the first component is \<open>shutdownKillDone\<close> afterwards.\<close>

definition iteration :: "effects \<Rightarrow> bool \<Rightarrow> loop_state \<Rightarrow> bool \<times> trace \<times> loop_state" where
  "iteration e killDone s =
     (let t1 = when_subs e ([], s);
          sweep = (lp_shutdown (snd t1) \<and> \<not> killDone);
          t2 = (if sweep then perform e KillSweep (perform e DrainSubs t1) else t1);
          kd = (killDone \<or> sweep)
      in if lp_yielded (snd t2) = [] then
           (case idle_branch e t2 of
              (True, t3) \<Rightarrow> (kd, t3)
            | (False, t3) \<Rightarrow> (kd, perform e Timers (perform e PollOp (resume_batch e 16 t3))))
         else (kd, perform e Timers (perform e PollOp (resume_batch e 16 t2))))"

text \<open>The loop itself, with its whole trace.\<close>

partial_function (option) launch_loop :: "effects \<Rightarrow> bool \<Rightarrow> loop_state \<Rightarrow> (trace \<times> loop_state) option" where
  "launch_loop e killDone s =
     (if loop_cond killDone s then
        (case iteration e killDone s of (kd, tr, s1) \<Rightarrow> do { (tr2, s2) \<leftarrow> launch_loop e kd s1; Some (tr @ tr2, s2) })
      else Some ([], s))"

section \<open>What one iteration does\<close>

definition count_op :: "loop_op \<Rightarrow> trace \<Rightarrow> nat" where
  "count_op p tr = length (filter (\<lambda>x. fst x = p) tr)"

lemma count_op_simps [simp]: "count_op p [] = 0" "count_op p (tr @ tr') = count_op p tr + count_op p tr'"
  "count_op p ((q, s) # tr) = (if q = p then 1 else 0) + count_op p tr"
  by (simp_all add: count_op_def)

text \<open>
  The trace of an operation grows its argument's trace. \<open>sleeps_ok\<close>: every wait happens with no runnable
  context and no queued continuation when the timer was armed, directly after arming it.
\<close>

fun sleeps_ok :: "trace \<Rightarrow> bool" where
  "sleeps_ok [] \<longleftrightarrow> True"
| "sleeps_ok ((WaitOp, s) # tr) \<longleftrightarrow> False"
| "sleeps_ok ((ArmOp, s) # (WaitOp, s') # tr) \<longleftrightarrow> lp_yielded s = [] \<and> lp_pending s = [] \<and> sleeps_ok tr"
| "sleeps_ok (x # tr) \<longleftrightarrow> sleeps_ok tr"

definition no_sleep :: "trace \<Rightarrow> bool" where
  "no_sleep tr \<longleftrightarrow> (\<forall>x \<in> set tr. fst x \<noteq> WaitOp \<and> fst x \<noteq> ArmOp)"

lemma sleeps_ok_append:
  assumes "no_sleep tr"
  shows "sleeps_ok (tr @ tr') = sleeps_ok tr'"
  using assms
proof (induction tr)
  case (Cons x tr)
  obtain p s where x: "x = (p, s)" by (cases x)
  have "p \<noteq> WaitOp" "p \<noteq> ArmOp" "no_sleep tr" using Cons.prems by (simp_all add: no_sleep_def x)
  then show ?case using Cons.IH x by (cases p) simp_all
qed simp

lemma no_sleep_simps [simp]: "no_sleep []" "no_sleep (tr @ tr') \<longleftrightarrow> no_sleep tr \<and> no_sleep tr'"
  "no_sleep ((p, s) # tr) \<longleftrightarrow> p \<noteq> WaitOp \<and> p \<noteq> ArmOp \<and> no_sleep tr"
  by (auto simp: no_sleep_def)

lemma perform_simps [simp]: "fst (perform e p ts) = fst ts @ [(p, snd ts)]" "snd (perform e p ts) = e p (snd ts)"
  by (simp_all add: perform_def)

lemma when_subs_no_sleep [simp]: "no_sleep (fst (when_subs e ts)) = no_sleep (fst ts)"
  by (simp add: when_subs_def)

lemma when_subs_count [simp]: "p \<noteq> DrainSubs \<Longrightarrow> count_op p (fst (when_subs e ts)) = count_op p (fst ts)"
  by (simp add: when_subs_def)

text \<open>The batch: no waits, at most \<open>n\<close> resumes, no sweep.\<close>

lemma resume_batch_ok:
  "no_sleep (fst (resume_batch e n ts)) = no_sleep (fst ts) \<and>
   count_op ResumeOp (fst (resume_batch e n ts)) \<le> count_op ResumeOp (fst ts) + n \<and>
   count_op KillSweep (fst (resume_batch e n ts)) = count_op KillSweep (fst ts)"
proof (induction e n ts rule: resume_batch.induct)
  case (2 e n ts)
  let ?t1 = "perform e ResumeOp ts" let ?t3 = "when_subs e (perform e ReapOp ?t1)"
  let ?t4 = "if lp_yielded (snd ?t1) \<noteq> [] \<or> lp_yielded (snd ?t3) = [] then perform e Paced ?t3 else ?t3"
  have t3: "no_sleep (fst ?t3) = no_sleep (fst ts)" "count_op ResumeOp (fst ?t3) = Suc (count_op ResumeOp (fst ts))"
    "count_op KillSweep (fst ?t3) = count_op KillSweep (fst ts)" by simp_all
  have t4: "no_sleep (fst ?t4) = no_sleep (fst ts)" "count_op ResumeOp (fst ?t4) = Suc (count_op ResumeOp (fst ts))"
    "count_op KillSweep (fst ?t4) = count_op KillSweep (fst ts)" using t3 by simp_all
  consider "lp_yielded (snd ts) = []" | "lp_yielded (snd ts) \<noteq> []" "lp_hasSubs (snd (perform e ReapOp ?t1)) \<and> lp_yielded (snd ?t3) \<noteq> []"
    | "lp_yielded (snd ts) \<noteq> []" "\<not> (lp_hasSubs (snd (perform e ReapOp ?t1)) \<and> lp_yielded (snd ?t3) \<noteq> [])" by blast
  then show ?case
  proof cases
    case 2
    then have "resume_batch e (Suc n) ts = ?t3" by (simp add: Let_def)
    then show ?thesis using t3 by simp
  next
    case 3
    have "resume_batch e (Suc n) ts = resume_batch e n ?t4" using 3 by (simp only: resume_batch.simps Let_def if_False)
    then show ?thesis using "2.IH" [OF 3(1) refl refl refl refl 3(2) refl] t4 by simp
  qed simp
qed simp

lemma sleeps_ok_no_sleep: "no_sleep tr \<Longrightarrow> sleeps_ok tr"
  using sleeps_ok_append [of tr "[]"] by simp

lemma idle_branch_ok:
  assumes "no_sleep (fst ts)" and "idle_branch e ts = (b, ts')"
  shows "sleeps_ok (fst ts') \<and> (\<not> b \<longrightarrow> no_sleep (fst ts')) \<and> count_op ResumeOp (fst ts') = count_op ResumeOp (fst ts) \<and>
    count_op KillSweep (fst ts') = count_op KillSweep (fst ts)"
proof -
  define t2 where "t2 = when_subs e (perform e Timers (perform e PollOp ts))"
  have t2: "no_sleep (fst t2)" "count_op ResumeOp (fst t2) = count_op ResumeOp (fst ts)" "count_op KillSweep (fst t2) = count_op KillSweep (fst ts)"
    using assms(1) by (simp_all add: t2_def)
  from assms(2) show ?thesis using t2 sleeps_ok_no_sleep [of "fst t2"]
    unfolding idle_branch_def t2_def [symmetric] Let_def
    by (auto simp: sleeps_ok_append sleeps_ok_no_sleep split: if_splits)
qed

lemma iteration_correct_aux:
  assumes "iteration e killDone s = (kd, tr, s')"
  shows "count_op ResumeOp tr \<le> 16 \<and> sleeps_ok tr \<and>
    count_op KillSweep tr = (if lp_shutdown (snd (when_subs e ([], s))) \<and> \<not> killDone then 1 else 0) \<and>
    (kd \<longleftrightarrow> killDone \<or> lp_shutdown (snd (when_subs e ([], s))))"
proof -
  define t1 where "t1 = when_subs e ([], s)"
  define sw where "sw \<longleftrightarrow> lp_shutdown (snd t1) \<and> \<not> killDone"
  define t2 where "t2 = (if sw then perform e KillSweep (perform e DrainSubs t1) else t1)"
  have t2: "no_sleep (fst t2)" "count_op ResumeOp (fst t2) = 0" "count_op KillSweep (fst t2) = (if sw then 1 else 0)"
    by (simp_all add: t2_def t1_def)
  define F where "F t = perform e Timers (perform e PollOp (resume_batch e 16 t))" for t
  have F: "sleeps_ok (fst (F t)) \<and> count_op ResumeOp (fst (F t)) \<le> 16 \<and> count_op KillSweep (fst (F t)) = (if sw then 1 else 0)"
    if "no_sleep (fst t)" "count_op ResumeOp (fst t) = 0" "count_op KillSweep (fst t) = (if sw then 1 else 0)" for t
    using resume_batch_ok [of e 16 t] that unfolding F_def by (intro conjI sleeps_ok_no_sleep) simp_all
  obtain b t3 where b: "idle_branch e t2 = (b, t3)" by (cases "idle_branch e t2")
  note I = idle_branch_ok [OF t2(1) b]
  have eq: "iteration e killDone s = (killDone \<or> sw, if lp_yielded (snd t2) = [] then if b then t3 else F t3 else F t2)"
    using b unfolding iteration_def t1_def [symmetric] Let_def sw_def [symmetric] t2_def [symmetric] F_def by (simp split: bool.splits)
  have kd: "kd \<longleftrightarrow> killDone \<or> sw" and tr: "tr = fst (if lp_yielded (snd t2) = [] then if b then t3 else F t3 else F t2)"
    using assms unfolding eq by (auto simp: fst_def)
  have "count_op ResumeOp tr \<le> 16 \<and> sleeps_ok tr \<and> count_op KillSweep tr = (if sw then 1 else 0)"
    unfolding tr using F [of t2] F [of t3] I t2 by (auto split: if_splits)
  then show ?thesis using kd unfolding t1_def [symmetric] sw_def by auto
qed

text \<open>
  C17. One iteration of the cooperator's main loop, whatever its operations do: it resumes at most 16
  contexts; it enters the blocking wait only after arming the timer in a state without runnable
  contexts and without queued continuations; and it runs the shutdown sweep exactly when shutdown is
  requested and the sweep has not been done, after which it counts as done.
\<close>

theorem iteration_correct:
  assumes "iteration e killDone s = (kd, tr, s')"
  shows "count_op ResumeOp tr \<le> 16 \<and> sleeps_ok tr \<and>
    count_op KillSweep tr = (if lp_shutdown (snd (when_subs e ([], s))) \<and> \<not> killDone then 1 else 0) \<and>
    (kd \<longleftrightarrow> killDone \<or> lp_shutdown (snd (when_subs e ([], s))))"
  by (rule iteration_correct_aux [OF assms])

text \<open>Shutdown requested with one blocked context: the sweep makes it runnable, the resume ends it.\<close>

fun demo_effects :: effects where
  "demo_effects KillSweep s = s\<lparr>lp_yielded := lp_blocked s, lp_blocked := []\<rparr>"
| "demo_effects ResumeOp s = s\<lparr>lp_yielded := tl (lp_yielded s)\<rparr>"
| "demo_effects p s = s"

definition demo_loop :: loop_state where
  "demo_loop = \<lparr>lp_yielded = [], lp_blocked = [1], lp_pending = [], lp_shutdown = True, lp_hasSubs = False, lp_pendingOps = 0\<rparr>"

theorem iteration_correct_witness:
  "\<exists>kd tr s'. iteration demo_effects False demo_loop = (kd, tr, s') \<and> kd \<and> count_op KillSweep tr = 1 \<and> count_op ResumeOp tr \<le> 16"
proof -
  obtain kd tr s' where i: "iteration demo_effects False demo_loop = (kd, tr, s')" by (metis prod_cases3)
  have "kd \<and> count_op KillSweep tr = 1 \<and> count_op ResumeOp tr \<le> 16"
    using iteration_correct [OF i] by (simp add: when_subs_def demo_loop_def)
  then show ?thesis using i by blast
qed

lemma launch_loop_ends:
  assumes "launch_loop e killDone s = Some y"
  shows "lp_yielded (snd y) = [] \<and> lp_pending (snd y) = [] \<and> lp_pendingOps (snd y) = 0 \<and> lp_shutdown (snd y) \<and>
    count_op KillSweep (fst y) = (if killDone then 0 else 1)"
proof (rule launch_loop.raw_induct [where P = "\<lambda>e killDone s y. lp_yielded (snd y) = [] \<and> lp_pending (snd y) = [] \<and>
    lp_pendingOps (snd y) = 0 \<and> lp_shutdown (snd y) \<and> count_op KillSweep (fst y) = (if killDone then 0 else 1)", OF _ assms], goal_cases)
  case (1 loop e killDone s y)
  show ?case
  proof (cases "loop_cond killDone s")
    case False
    with 1(2) show ?thesis by (auto simp: loop_cond_def)
  next
    case True
    obtain kd tr1 s1 where i: "iteration e killDone s = (kd, tr1, s1)" by (metis prod_cases3)
    from 1(2) True i obtain tr2 s2 where l: "loop e kd s1 = Some (tr2, s2)" "y = (tr1 @ tr2, s2)"
      by (auto simp: bind_eq_Some_conv)
    show ?thesis using 1(1) [OF l(1)] iteration_correct_aux [OF i] l(2) by auto
  qed
qed



end
