(* ===== verification/Submissions.thy ===== *)
theory Submissions
  imports Coop_Prelude
begin

text \<open>
  Cross-thread submissions (\<open>coop/cooperator.cpp\<close>, \<open>coop/cooperator.hpp\<close>): the linked queue under
  \<open>m_submissionLock\<close>, the dispatch of an entry (\<open>SpawnFromSubmission\<close>), and the protocol between
  \<open>SubmitSync\<close> callers, the loop and its final drain, as interleaved steps.
\<close>

section \<open>The queue\<close>

record subq =
  m_next :: "addr \<Rightarrow> addr"
  m_submissionHead :: addr
  m_submissionTail :: addr
  m_hasSubs :: bool

definition PushSubmission :: "addr \<Rightarrow> subq \<Rightarrow> subq" where
  "PushSubmission entry q =
     (let q1 = q\<lparr>m_next := (m_next q)(entry := null)\<rparr>;
          q2 = (if m_submissionTail q1 \<noteq> null then q1\<lparr>m_next := (m_next q1)(m_submissionTail q1 := entry)\<rparr>
                else q1\<lparr>m_submissionHead := entry\<rparr>)
      in q2\<lparr>m_submissionTail := entry, m_hasSubs := True\<rparr>)"

text \<open>The walk of a drain: the next link is read before the entry is dispatched (and freed).\<close>

partial_function (option) walk :: "(addr \<Rightarrow> addr) \<Rightarrow> addr \<Rightarrow> addr list option" where
  "walk nx head = (if head = null then Some [] else do { es \<leftarrow> walk nx (nx head); Some (head # es) })"

text \<open>The entries a drain dispatches, in order, and the queue it leaves.\<close>

definition DrainSubmissions :: "subq \<Rightarrow> (addr list \<times> subq) option" where
  "DrainSubmissions q =
     (if \<not> m_hasSubs q then Some ([], q)
      else map_option (\<lambda>es. (es, q\<lparr>m_submissionHead := null, m_submissionTail := null, m_hasSubs := False\<rparr>))
        (walk (m_next q) (m_submissionHead q)))"

definition DrainRemainingSubmissions :: "subq \<Rightarrow> (addr list \<times> subq) option" where
  "DrainRemainingSubmissions q =
     map_option (\<lambda>es. (es, q\<lparr>m_submissionHead := null, m_submissionTail := null\<rparr>)) (walk (m_next q) (m_submissionHead q))"

fun linked :: "(addr \<Rightarrow> addr) \<Rightarrow> addr \<Rightarrow> addr list \<Rightarrow> bool" where
  "linked nx h [] \<longleftrightarrow> h = null"
| "linked nx h (x # xs) \<longleftrightarrow> h = x \<and> x \<noteq> null \<and> linked nx (nx x) xs"

definition queue_of :: "subq \<Rightarrow> addr list \<Rightarrow> bool" where
  "queue_of q xs \<longleftrightarrow> linked (m_next q) (m_submissionHead q) xs \<and> distinct xs \<and>
     m_submissionTail q = (if xs = [] then null else last xs) \<and> (xs \<noteq> [] \<longrightarrow> m_hasSubs q)"

lemma linked_walk: "linked nx h xs \<Longrightarrow> walk nx h = Some xs"
  by (induction xs arbitrary: h) (auto simp: walk.simps)

lemma linked_null: "linked nx h xs \<Longrightarrow> null \<notin> set xs"
  by (induction xs arbitrary: h) auto

lemma linked_upd: "x \<notin> set xs \<Longrightarrow> linked (nx(x := y)) h xs = linked nx h xs"
  by (induction xs arbitrary: h) auto

lemma linked_snoc:
  assumes "linked nx h xs" "xs \<noteq> []" "e \<notin> set xs" "e \<noteq> null" "distinct xs"
  shows "linked (nx(e := null, last xs := e)) h (xs @ [e])"
  using assms
proof (induction xs arbitrary: h)
  case (Cons x xs)
  show ?case
  proof (cases "xs = []")
    case False
    then have "last xs \<noteq> x" using Cons.prems(5) by (metis distinct.simps(2) last_in_set)
    then show ?thesis using Cons.IH [of "nx h"] Cons.prems False by auto
  qed (use Cons.prems in auto)
qed simp

lemma PushSubmission_queue:
  assumes "queue_of q xs" and "e \<notin> set xs" and "e \<noteq> null"
  shows "queue_of (PushSubmission e q) (xs @ [e])"
proof (cases "xs = []")
  case True
  then show ?thesis using assms by (simp add: queue_of_def PushSubmission_def Let_def)
next
  case False
  have l: "last xs \<noteq> null" using linked_null [of "m_next q" "m_submissionHead q" xs] assms(1) False by (metis queue_of_def last_in_set)
  show ?thesis using assms False l linked_snoc [of "m_next q" "m_submissionHead q" xs e]
    by (simp add: queue_of_def PushSubmission_def Let_def)
qed

lemma DrainSubmissions_queue:
  assumes "queue_of q xs"
  shows "\<exists>q'. DrainSubmissions q = Some (xs, q') \<and> queue_of q' []"
  using assms linked_walk [of "m_next q" "m_submissionHead q" xs]
  by (auto simp: DrainSubmissions_def queue_of_def)

text \<open>A schedule of pushes and drains, and the same on lists.\<close>

datatype sub_op = Push addr | Drain

fun sub_run :: "sub_op list \<Rightarrow> subq \<Rightarrow> (addr list \<times> subq) option" where
  "sub_run [] q = Some ([], q)"
| "sub_run (Push e # os) q = sub_run os (PushSubmission e q)"
| "sub_run (Drain # os) q = (case DrainSubmissions q of None \<Rightarrow> None
     | Some (es, q1) \<Rightarrow> map_option (\<lambda>(rs, q2). (es @ rs, q2)) (sub_run os q1))"

definition pushed :: "sub_op list \<Rightarrow> addr list" where
  "pushed os = concat (map (\<lambda>p. case p of Push e \<Rightarrow> [e] | Drain \<Rightarrow> []) os)"

definition subq_empty :: subq where
  "subq_empty = \<lparr>m_next = (\<lambda>e. null), m_submissionHead = null, m_submissionTail = null, m_hasSubs = False\<rparr>"

lemma sub_run_ok:
  assumes "queue_of q xs" and "distinct (xs @ pushed os)" and "null \<notin> set (pushed os)"
  shows "\<exists>rs q' ys. sub_run os q = Some (rs, q') \<and> queue_of q' ys \<and> rs @ ys = xs @ pushed os"
  using assms
proof (induction os arbitrary: q xs)
  case Nil
  then show ?case by (auto simp: pushed_def)
next
  case (Cons p os)
  show ?case
  proof (cases p)
    case (Push e)
    have "queue_of (PushSubmission e q) (xs @ [e])" using PushSubmission_queue Cons.prems Push by (auto simp: pushed_def)
    from Cons.IH [OF this] Cons.prems Push show ?thesis by (simp add: pushed_def)
  next
    case Drain
    obtain q' where "DrainSubmissions q = Some (xs, q')" "queue_of q' []" using DrainSubmissions_queue [OF Cons.prems(1)] by blast
    with Cons.IH [of q' "[]"] Cons.prems Drain show ?thesis by (auto simp: pushed_def)
  qed
qed



section \<open>Dispatching an entry\<close>

text \<open>
  An entry carries its completion word: zero, a semaphore, or (bit 0 set) a \<open>CooperateHandle\<close>; and next to
  it the address of the result flag or of the calling cooperator.
\<close>

record entry =
  m_completion :: u64
  m_completionOk :: u64

datatype dispatch_event =
    Invoke
  | Destroy
  | SetOk u64 bool
  | SemRelease u64
  | SetSpawnOk u64 bool
  | NotifyBack u64 u64

text \<open>
  \<open>SpawnFromSubmission\<close>, given whether \<open>Spawn\<close> succeeds: what the spawned context does and what the
  dispatcher does.
\<close>

definition isCooperate :: "entry \<Rightarrow> bool" where
  "isCooperate e \<longleftrightarrow> bit (m_completion e) 0"

definition cooperate_handle :: "entry \<Rightarrow> u64" where
  "cooperate_handle e = and (m_completion e) (not 1)"

definition notify_back :: "entry \<Rightarrow> bool \<Rightarrow> dispatch_event list" where
  "notify_back e ok = (if cooperate_handle e \<noteq> 0 \<and> m_completionOk e \<noteq> 0
     then [SetSpawnOk (cooperate_handle e) ok, NotifyBack (m_completionOk e) (cooperate_handle e)] else [])"

definition set_ok :: "entry \<Rightarrow> bool \<Rightarrow> dispatch_event list" where
  "set_ok e ok = (if m_completionOk e \<noteq> 0 then [SetOk (m_completionOk e) ok] else [])"

definition sem_release :: "entry \<Rightarrow> dispatch_event list" where
  "sem_release e = (if m_completion e \<noteq> 0 then [SemRelease (m_completion e)] else [])"

definition SpawnFromSubmission :: "entry \<Rightarrow> bool \<Rightarrow> dispatch_event list" where
  "SpawnFromSubmission e spawned =
     (if isCooperate e then (if spawned then [Invoke, Destroy] else [Destroy]) @ notify_back e spawned
      else if spawned then [Invoke, Destroy] @ set_ok e True @ sem_release e
      else set_ok e False @ sem_release e @ [Destroy])"

text \<open>The final drain refuses what is left.\<close>

definition refuse :: "entry \<Rightarrow> dispatch_event list" where
  "refuse e = (if isCooperate e then notify_back e False @ [Destroy] else set_ok e False @ sem_release e @ [Destroy])"

text \<open>What the submitter stored in the entry.\<close>

definition entry_sync :: "u64 \<Rightarrow> u64 \<Rightarrow> entry" where
  "entry_sync done ok = \<lparr>m_completion = done, m_completionOk = ok\<rparr>"

definition entry_cooperate :: "u64 \<Rightarrow> u64 \<Rightarrow> entry" where
  "entry_cooperate handle caller = \<lparr>m_completion = or handle 1, m_completionOk = caller\<rparr>"

lemma handle_roundtrip: "\<not> bit h 0 \<Longrightarrow> cooperate_handle (entry_cooperate h c) = h"
  by (rule bit_word_eqI) (auto simp: cooperate_handle_def entry_cooperate_def bit_and_iff bit_or_iff bit_not_iff bit_1_iff intro!: gr0I)



section \<open>SubmitSync against shutdown\<close>

text \<open>
  Submitter threads run \<open>SubmitSync\<close>: test the shutdown flag, push, wait for the semaphore. The
  cooperator drains and completes until shutdown, then leaves the loop and refuses what is queued; work
  still blocked then is abandoned.
\<close>

datatype sub_pc = Start | Tested | Waiting | Returned bool

record sub_sys =
  sub_pcs :: "nat \<Rightarrow> sub_pc"
  sub_queue :: "nat list"
  sub_running :: "nat set"
  sub_shutdown :: bool
  sub_exited :: bool

inductive sub_step :: "sub_sys \<Rightarrow> sub_sys \<Rightarrow> bool" where
  test_down: "sub_pcs y t = Start \<Longrightarrow> sub_shutdown y \<Longrightarrow> sub_step y (y\<lparr>sub_pcs := (sub_pcs y)(t := Returned False)\<rparr>)"
| test_up: "sub_pcs y t = Start \<Longrightarrow> \<not> sub_shutdown y \<Longrightarrow> sub_step y (y\<lparr>sub_pcs := (sub_pcs y)(t := Tested)\<rparr>)"
| push: "sub_pcs y t = Tested \<Longrightarrow> sub_step y (y\<lparr>sub_pcs := (sub_pcs y)(t := Waiting), sub_queue := sub_queue y @ [t]\<rparr>)"
| shut: "sub_step y (y\<lparr>sub_shutdown := True\<rparr>)"
| spawn: "\<not> sub_exited y \<Longrightarrow> sub_queue y = t # ts \<Longrightarrow>
    sub_step y (y\<lparr>sub_queue := ts, sub_running := insert t (sub_running y)\<rparr>)"
| spawn_fails: "\<not> sub_exited y \<Longrightarrow> sub_queue y = t # ts \<Longrightarrow>
    sub_step y (y\<lparr>sub_queue := ts, sub_pcs := (sub_pcs y)(t := Returned False)\<rparr>)"
| finish: "\<not> sub_exited y \<Longrightarrow> t \<in> sub_running y \<Longrightarrow>
    sub_step y (y\<lparr>sub_running := sub_running y - {t}, sub_pcs := (sub_pcs y)(t := Returned True)\<rparr>)"
| leave: "\<not> sub_exited y \<Longrightarrow> sub_shutdown y \<Longrightarrow>
    sub_step y (y\<lparr>sub_exited := True, sub_queue := [],
      sub_pcs := (\<lambda>t. if t \<in> set (sub_queue y) then Returned False else sub_pcs y t)\<rparr>)"

inductive_cases sub_stepE: "sub_step y y'"

definition sub_start :: sub_sys where
  "sub_start = \<lparr>sub_pcs = (\<lambda>t. Start), sub_queue = [], sub_running = {}, sub_shutdown = False, sub_exited = False\<rparr>"

text \<open>A waiting submitter is queued or running, once.\<close>

definition sub_inv :: "sub_sys \<Rightarrow> bool" where
  "sub_inv y \<longleftrightarrow> distinct (sub_queue y) \<and> set (sub_queue y) \<inter> sub_running y = {} \<and>
     (\<forall>t. sub_pcs y t = Waiting \<longleftrightarrow> t \<in> set (sub_queue y) \<or> t \<in> sub_running y) \<and>
     (sub_exited y \<longrightarrow> sub_shutdown y)"

lemma sub_inv_step: "sub_step y y' \<Longrightarrow> sub_inv y \<Longrightarrow> sub_inv y'"
  by (induction rule: sub_step.induct) ((auto simp: sub_inv_def split: if_splits)[1]; metis sub_pc.simps)+

lemma sub_inv_reach: "sub_step\<^sup>*\<^sup>* sub_start y \<Longrightarrow> sub_inv y"
proof (induction rule: rtranclp_induct)
  case base
  show ?case by (simp add: sub_start_def sub_inv_def)
next
  case (step y z)
  then show ?case using sub_inv_step by blast
qed


lemma demo_sub: "sub_step\<^sup>*\<^sup>* sub_start (sub_start\<lparr>sub_pcs := (\<lambda>t. Start)(0 := Waiting), sub_queue := [0]\<rparr>)"
proof -
  have 1: "sub_step sub_start (sub_start\<lparr>sub_pcs := (\<lambda>t. Start)(0 := Tested)\<rparr>)"
    using sub_step.test_up [of sub_start 0] by (simp add: sub_start_def)
  have 2: "sub_step (sub_start\<lparr>sub_pcs := (\<lambda>t. Start)(0 := Tested)\<rparr>) (sub_start\<lparr>sub_pcs := (\<lambda>t. Start)(0 := Waiting), sub_queue := [0]\<rparr>)"
    using sub_step.push [of "sub_start\<lparr>sub_pcs := (\<lambda>t. Start)(0 := Tested)\<rparr>" 0] by (simp add: sub_start_def)
  from converse_rtranclp_into_rtranclp [OF 1 r_into_rtranclp [of sub_step, OF 2]] show ?thesis .
qed


text \<open>Once the cooperator has left, a queued submitter stays queued.\<close>

lemma stuck_step: "sub_step y y' \<Longrightarrow> sub_inv y \<Longrightarrow> sub_exited y \<Longrightarrow> t \<in> set (sub_queue y) \<Longrightarrow> sub_exited y' \<and> t \<in> set (sub_queue y')"
  by (induction rule: sub_step.induct) (auto simp: sub_inv_def)

lemma stuck: "sub_step\<^sup>*\<^sup>* y y' \<Longrightarrow> sub_inv y \<Longrightarrow> sub_exited y \<Longrightarrow> t \<in> set (sub_queue y) \<Longrightarrow> sub_inv y' \<and> sub_exited y' \<and> t \<in> set (sub_queue y')"
  by (induction rule: rtranclp_induct) (auto dest: sub_inv_step stuck_step)

text \<open>
  C22. A \<open>SubmitSync\<close> caller can be lost at shutdown: if it tests the flag before shutdown is requested and
  pushes after the cooperator has done its final drain, it waits for ever.
\<close>

theorem submit_sync_lost:
  "\<exists>y. sub_step\<^sup>*\<^sup>* sub_start y \<and> sub_exited y \<and> (\<forall>y'. sub_step\<^sup>*\<^sup>* y y' \<longrightarrow> sub_pcs y' 0 = Waiting)"
proof -
  let ?y1 = "sub_start\<lparr>sub_pcs := (\<lambda>t. Start)(0 := Tested)\<rparr>"
  let ?y2 = "?y1\<lparr>sub_shutdown := True\<rparr>"
  let ?y3 = "?y2\<lparr>sub_exited := True\<rparr>"
  let ?y4 = "?y3\<lparr>sub_pcs := (\<lambda>t. Start)(0 := Waiting), sub_queue := [0]\<rparr>"
  have "sub_step sub_start ?y1" using sub_step.test_up [of sub_start 0] by (simp add: sub_start_def)
  moreover have "sub_step ?y1 ?y2" using sub_step.shut [of ?y1] by simp
  moreover have "sub_step ?y2 ?y3" using sub_step.leave [of ?y2] by (simp add: sub_start_def fun_upd_def)
  moreover have "sub_step ?y3 ?y4" using sub_step.push [of ?y3 0] by (simp add: sub_start_def)
  ultimately have r: "sub_step\<^sup>*\<^sup>* sub_start ?y4" by (meson rtranclp.rtrancl_into_rtrancl rtranclp.rtrancl_refl)
  have i: "sub_inv ?y4" by (rule sub_inv_reach [OF r])
  have "sub_pcs y' 0 = Waiting" if "sub_step\<^sup>*\<^sup>* ?y4 y'" for y'
    using stuck [OF that i, of 0] by (auto simp: sub_inv_def)
  then show ?thesis using r by (intro exI [of _ ?y4]) simp
qed

theorem submit_sync_lost_witness:
  "\<exists>y. sub_step\<^sup>*\<^sup>* sub_start y \<and> sub_exited y \<and> sub_pcs y 0 = Waiting"
  using submit_sync_lost rtranclp.rtrancl_refl by metis

end
