(* ===== verification/Channel.thy ===== *)
theory Channel
  imports Scheduler
begin

text \<open>
  Channels (\<open>coop/chan/channel.h\<close>, \<open>coop/chan/chan.cpp\<close>): the ring buffer, the receiving and sending
  operations on top of the two coordinators \<open>m_recv\<close> and \<open>m_send\<close>, shutdown, and the counting channel
  \<open>Channel<void>\<close>.

  An operation runs on the scheduler state up to its return or its next switch; where it is suspended,
  a resume point says what is left of it.
\<close>

section \<open>The ring buffer\<close>

record 'a chan =
  m_buffer :: "'a list"
  m_head :: nat
  m_tail :: nat
  m_size :: nat
  m_capacity :: nat
  m_shutdown :: bool
  m_recv :: addr
  m_send :: addr

definition chan_IsEmpty :: "'a chan \<Rightarrow> bool" where
  "chan_IsEmpty ch \<longleftrightarrow> m_size ch = 0"

definition IsFull :: "'a chan \<Rightarrow> bool" where
  "IsFull ch \<longleftrightarrow> m_size ch = m_capacity ch"

definition RecvImpl :: "'a chan \<Rightarrow> ('a \<times> 'a chan) option" where
  "RecvImpl ch = (if chan_IsEmpty ch then None
     else Some (m_buffer ch ! m_head ch,
       ch\<lparr>m_head := (if m_head ch + 1 = m_capacity ch then 0 else m_head ch + 1), m_size := m_size ch - 1\<rparr>))"

definition SendImpl :: "'a \<Rightarrow> 'a chan \<Rightarrow> 'a chan option" where
  "SendImpl v ch = (if IsFull ch then None
     else Some (ch\<lparr>m_buffer := (m_buffer ch)[m_tail ch := v],
       m_tail := (if m_tail ch + 1 = m_capacity ch then 0 else m_tail ch + 1), m_size := m_size ch + 1\<rparr>))"

section \<open>Receiving\<close>

text \<open>
  Where an operation of a context is suspended: before its return; in \<open>TryRecv\<close> before the release of
  \<open>m_send\<close>; in \<open>Recv\<close> at the acquired \<open>m_recv\<close>, or before the release of \<open>m_send\<close>; and so on for the senders.
\<close>

datatype 'a resume =
    AtReturn bool "'a list"
  | AtTryRecvSend 'a
  | AtRecvLoop
  | AtRecvSend 'a
  | AtDrainReturn "'a list"
  | AtTrySendRecv
  | AtSendGranted 'a
  | AtSendRecv
  | AtAllGranted "'a list"
  | AtAllReleased "'a list"
  | AtAllNext "'a list"
  | AtShutdownSend

datatype 'a outcome = Return bool "'a list" | Suspended "'a resume"

type_synonym 'a result = "('a outcome \<times> 'a chan \<times> sched) option"

text \<open>A call made by context \<open>c\<close>: go on when it still runs, otherwise it is suspended.\<close>

definition still :: "addr \<Rightarrow> 'a resume \<Rightarrow> 'a chan \<Rightarrow> sched option \<Rightarrow> (sched \<Rightarrow> 'a result) \<Rightarrow> 'a result" where
  "still c at ch so go = do { s1 \<leftarrow> so; if m_scheduled s1 = c then go s1 else Some (Suspended at, ch, s1) }"

text \<open>A final release, after which only the return is left.\<close>

definition release_return :: "addr \<Rightarrow> addr \<Rightarrow> bool \<Rightarrow> 'a list \<Rightarrow> 'a chan \<Rightarrow> sched \<Rightarrow> 'a result" where
  "release_return k c b vs ch s = still c (AtReturn b vs) ch (Release k True s) (\<lambda>s1. Some (Return b vs, ch, s1))"

definition TryRecv_send :: "addr \<Rightarrow> 'a \<Rightarrow> 'a chan \<Rightarrow> sched \<Rightarrow> 'a result" where
  "TryRecv_send c v ch s = (if held s (m_send ch) then release_return (m_send ch) c True [v] ch s else Some (Return True [v], ch, s))"

definition TryRecv :: "addr \<Rightarrow> addr \<Rightarrow> 'a chan \<Rightarrow> sched \<Rightarrow> 'a result" where
  "TryRecv c x ch s = (case RecvImpl ch of
       None \<Rightarrow> Some (Return False [], ch, s)
     | Some (v, ch1) \<Rightarrow>
         if chan_IsEmpty ch1 then still c (AtTryRecvSend v) ch1 (Acquire (m_recv ch1) c x s) (TryRecv_send c v ch1)
         else TryRecv_send c v ch1 s)"

definition Recv_send :: "addr \<Rightarrow> 'a \<Rightarrow> 'a chan \<Rightarrow> sched \<Rightarrow> 'a result" where
  "Recv_send c v ch s = (if held s (m_send ch) \<and> \<not> IsFull ch then release_return (m_send ch) c True [v] ch s
     else Some (Return True [v], ch, s))"

definition Recv_after :: "addr \<Rightarrow> 'a \<Rightarrow> 'a chan \<Rightarrow> sched \<Rightarrow> 'a result" where
  "Recv_after c v ch s = (if m_shutdown ch \<and> chan_IsEmpty ch \<or> \<not> chan_IsEmpty ch
     then still c (AtRecvSend v) ch (Release (m_recv ch) True s) (Recv_send c v ch)
     else Recv_send c v ch s)"

partial_function (option) Recv_loop :: "addr \<Rightarrow> addr \<Rightarrow> 'a chan \<Rightarrow> sched \<Rightarrow> 'a result" where
  "Recv_loop c x ch s = (case RecvImpl ch of
       Some (v, ch1) \<Rightarrow> Recv_after c v ch1 s
     | None \<Rightarrow> if m_shutdown ch then release_return (m_recv ch) c False [] ch s
               else do {
                 s1 \<leftarrow> Acquire (m_recv ch) c x s;
                 if m_scheduled s1 = c then Recv_loop c x ch s1 else Some (Suspended AtRecvLoop, ch, s1) })"

definition Recv :: "addr \<Rightarrow> addr \<Rightarrow> 'a chan \<Rightarrow> sched \<Rightarrow> 'a result" where
  "Recv c x ch s = do {
     (out, ch1, s1) \<leftarrow> TryRecv c x ch s;
     case out of
       Return False vs \<Rightarrow>
         if m_shutdown ch1 then
           (if held s1 (m_recv ch1) then release_return (m_recv ch1) c False [] ch1 s1 else Some (Return False [], ch1, s1))
         else still c AtRecvLoop ch1 (Acquire (m_recv ch1) c x s1) (Recv_loop c x ch1)
     | _ \<Rightarrow> Some (out, ch1, s1) }"

text \<open>The loop of \<open>Drain\<close>, with the releases that do not switch.\<close>

fun drain_loop :: "nat \<Rightarrow> 'a chan \<Rightarrow> sched \<Rightarrow> ('a list \<times> 'a chan \<times> sched) option" where
  "drain_loop 0 ch s = Some ([], ch, s)"
| "drain_loop (Suc n) ch s = (case RecvImpl ch of
       None \<Rightarrow> Some ([], ch, s)
     | Some (v, ch1) \<Rightarrow> do {
         s1 \<leftarrow> (if IsFull ch \<and> held s (m_send ch) then Release (m_send ch) False s else Some s);
         (vs, ch2, s2) \<leftarrow> drain_loop n ch1 s1;
         Some (v # vs, ch2, s2) })"

definition Drain :: "addr \<Rightarrow> addr \<Rightarrow> nat \<Rightarrow> 'a chan \<Rightarrow> sched \<Rightarrow> 'a result" where
  "Drain c x maxCount ch s =
     (if chan_IsEmpty ch then Some (Return True [], ch, s)
      else do {
        (vs, ch1, s1) \<leftarrow> drain_loop maxCount ch s;
        if chan_IsEmpty ch1 \<and> \<not> m_shutdown ch1
        then still c (AtDrainReturn vs) ch1 (Acquire (m_recv ch1) c x s1) (\<lambda>s2. Some (Return True vs, ch1, s2))
        else Some (Return True vs, ch1, s1) })"

text \<open>\<open>RecvAcquired\<close>: the recv after \<open>m_recv\<close> was acquired by a \<open>CoordinateWith\<close>.\<close>

definition RecvAcquired :: "addr \<Rightarrow> 'a chan \<Rightarrow> sched \<Rightarrow> 'a result" where
  "RecvAcquired c ch s = (case RecvImpl ch of
       None \<Rightarrow> do { assert_that (m_shutdown ch); release_return (m_recv ch) c False [] ch s }
     | Some (v, ch1) \<Rightarrow> Recv_after c v ch1 s)"

section \<open>Sending\<close>

definition TrySend_recv :: "addr \<Rightarrow> 'a chan \<Rightarrow> sched \<Rightarrow> 'a result" where
  "TrySend_recv c ch s = (if held s (m_recv ch) then release_return (m_recv ch) c True [] ch s else Some (Return True [], ch, s))"

definition TrySend :: "addr \<Rightarrow> addr \<Rightarrow> 'a \<Rightarrow> 'a chan \<Rightarrow> sched \<Rightarrow> 'a result" where
  "TrySend c x v ch s =
     (if m_shutdown ch \<or> IsFull ch then Some (Return False [], ch, s)
      else do {
        ch1 \<leftarrow> SendImpl v ch;
        if IsFull ch1 then still c AtTrySendRecv ch1 (Acquire (m_send ch1) c x s) (TrySend_recv c ch1)
        else TrySend_recv c ch1 s })"

definition Send_recv :: "addr \<Rightarrow> 'a chan \<Rightarrow> sched \<Rightarrow> 'a result" where
  "Send_recv c ch s = (if held s (m_recv ch) \<and> \<not> chan_IsEmpty ch then release_return (m_recv ch) c True [] ch s
     else Some (Return True [], ch, s))"

text \<open>Behind the \<open>Acquire\<close> of the blocking path; also \<open>SendAcquired\<close>.\<close>

definition SendAcquired :: "addr \<Rightarrow> 'a \<Rightarrow> 'a chan \<Rightarrow> sched \<Rightarrow> 'a result" where
  "SendAcquired c v ch s =
     (if m_shutdown ch then release_return (m_send ch) c False [] ch s
      else do {
        ch1 \<leftarrow> SendImpl v ch;
        if \<not> IsFull ch1 then still c AtSendRecv ch1 (Release (m_send ch1) True s) (Send_recv c ch1)
        else Send_recv c ch1 s })"

definition Send :: "addr \<Rightarrow> addr \<Rightarrow> 'a \<Rightarrow> 'a chan \<Rightarrow> sched \<Rightarrow> 'a result" where
  "Send c x v ch s =
     (if \<not> m_shutdown ch \<and> \<not> IsFull ch then do {
        ch1 \<leftarrow> SendImpl v ch;
        if IsFull ch1 then still c AtTrySendRecv ch1 (Acquire (m_send ch1) c x s) (TrySend_recv c ch1)
        else TrySend_recv c ch1 s }
      else still c (AtSendGranted v) ch (Acquire (m_send ch) c x s) (SendAcquired c v ch))"

text \<open>
  \<open>SendAll\<close>: the rest of an iteration after the space is there (\<open>all_put\<close>) and the loop itself; the
  release of \<open>m_recv\<close> switches only for the last item.
\<close>

fun SendAll_loop :: "addr \<Rightarrow> addr \<Rightarrow> 'a list \<Rightarrow> 'a chan \<Rightarrow> sched \<Rightarrow> 'a result"
  and all_put :: "addr \<Rightarrow> addr \<Rightarrow> 'a \<Rightarrow> 'a list \<Rightarrow> 'a chan \<Rightarrow> sched \<Rightarrow> 'a result"
  and all_full :: "addr \<Rightarrow> addr \<Rightarrow> 'a list \<Rightarrow> 'a chan \<Rightarrow> sched \<Rightarrow> 'a result" where
  "SendAll_loop c x [] ch s = Some (Return True [], ch, s)"
| "SendAll_loop c x (v # vs) ch s =
     (if IsFull ch then do {
        s1 \<leftarrow> Acquire (m_send ch) c x s;
        if m_scheduled s1 = c then
          (if m_shutdown ch then release_return (m_send ch) c False [] ch s1 else all_put c x v vs ch s1)
        else Some (Suspended (AtAllGranted (v # vs)), ch, s1) }
      else all_put c x v vs ch s)"
| "all_put c x v vs ch s = do {
     ch1 \<leftarrow> SendImpl v ch;
     if chan_IsEmpty ch \<and> held s (m_recv ch) then do {
       s1 \<leftarrow> Release (m_recv ch) (vs = []) s;
       if m_scheduled s1 = c then all_full c x vs ch1 s1 else Some (Suspended (AtAllReleased vs), ch1, s1) }
     else all_full c x vs ch1 s }"
| "all_full c x vs ch s =
     (if IsFull ch then do {
        s1 \<leftarrow> Acquire (m_send ch) c x s;
        if m_scheduled s1 = c then SendAll_loop c x vs ch s1 else Some (Suspended (AtAllNext vs), ch, s1) }
      else SendAll_loop c x vs ch s)"

definition SendAll :: "addr \<Rightarrow> addr \<Rightarrow> 'a list \<Rightarrow> 'a chan \<Rightarrow> sched \<Rightarrow> 'a result" where
  "SendAll c x vs ch s = (if m_shutdown ch then Some (Return False [], ch, s) else SendAll_loop c x vs ch s)"

section \<open>Shutdown and construction\<close>

definition Shutdown_send :: "addr \<Rightarrow> 'a chan \<Rightarrow> sched \<Rightarrow> 'a result" where
  "Shutdown_send c ch s = (if held s (m_send ch) then release_return (m_send ch) c True [] ch s else Some (Return True [], ch, s))"

definition Shutdown :: "addr \<Rightarrow> 'a chan \<Rightarrow> sched \<Rightarrow> 'a result" where
  "Shutdown c ch s =
     (if m_shutdown ch then Some (Return False [], ch, s)
      else let ch1 = ch\<lparr>m_shutdown := True\<rparr> in
        if held s (m_recv ch1) then still c AtShutdownSend ch1 (Release (m_recv ch1) True s) (Shutdown_send c ch1)
        else Shutdown_send c ch1 s)"

text \<open>The constructor: \<open>m_recv\<close> starts held; \<open>m_send\<close> is acquired when there is no capacity.\<close>

definition Channel_new :: "'a list \<Rightarrow> addr \<Rightarrow> addr \<Rightarrow> sched \<Rightarrow> 'a chan \<times> sched" where
  "Channel_new buffer recv send s =
     (\<lparr>m_buffer = buffer, m_head = 0, m_tail = 0, m_size = 0, m_capacity = length buffer, m_shutdown = False, m_recv = recv, m_send = send\<rparr>,
      set_coord send \<lparr>m_held = (length buffer = 0), m_blocking = []\<rparr> (set_coord recv \<lparr>m_held = True, m_blocking = []\<rparr> s))"

text \<open>What a suspended operation does when its context runs again.\<close>

fun resume_at :: "addr \<Rightarrow> addr \<Rightarrow> 'a resume \<Rightarrow> 'a chan \<Rightarrow> sched \<Rightarrow> 'a result" where
  "resume_at c x (AtReturn b vs) ch s = Some (Return b vs, ch, s)"
| "resume_at c x (AtTryRecvSend v) ch s = TryRecv_send c v ch s"
| "resume_at c x AtRecvLoop ch s = Recv_loop c x ch s"
| "resume_at c x (AtRecvSend v) ch s = Recv_send c v ch s"
| "resume_at c x (AtDrainReturn vs) ch s = Some (Return True vs, ch, s)"
| "resume_at c x AtTrySendRecv ch s = TrySend_recv c ch s"
| "resume_at c x (AtSendGranted v) ch s = SendAcquired c v ch s"
| "resume_at c x AtSendRecv ch s = Send_recv c ch s"
| "resume_at c x (AtAllGranted vs) ch s = (if m_shutdown ch then release_return (m_send ch) c False [] ch s
     else case vs of [] \<Rightarrow> None | v # ws \<Rightarrow> all_put c x v ws ch s)"
| "resume_at c x (AtAllReleased vs) ch s = all_full c x vs ch s"
| "resume_at c x (AtAllNext vs) ch s = SendAll_loop c x vs ch s"
| "resume_at c x AtShutdownSend ch s = Shutdown_send c ch s"

section \<open>The ring invariant and the queue it stands for\<close>

definition ring_ok :: "'a chan \<Rightarrow> bool" where
  "ring_ok ch \<longleftrightarrow> length (m_buffer ch) = m_capacity ch \<and> m_size ch \<le> m_capacity ch \<and>
     (m_capacity ch > 0 \<longrightarrow> m_head ch < m_capacity ch \<and> m_tail ch = (m_head ch + m_size ch) mod m_capacity ch)"

definition contents :: "'a chan \<Rightarrow> 'a list" where
  "contents ch = map (\<lambda>i. m_buffer ch ! ((m_head ch + i) mod m_capacity ch)) [0..<m_size ch]"

definition same_chan :: "'a chan \<Rightarrow> 'a chan \<Rightarrow> bool" where
  "same_chan ch ch' \<longleftrightarrow> m_capacity ch' = m_capacity ch \<and> m_recv ch' = m_recv ch \<and> m_send ch' = m_send ch \<and>
     (m_shutdown ch \<longrightarrow> m_shutdown ch')"

lemma length_contents [simp]: "length (contents ch) = m_size ch"
  by (simp add: contents_def)

lemma IsEmpty_contents: "chan_IsEmpty ch \<longleftrightarrow> contents ch = []"
  by (metis chan_IsEmpty_def length_contents length_0_conv)

lemma same_chan_refl [simp]: "same_chan ch ch"
  by (simp add: same_chan_def)

lemma same_chan_trans: "same_chan a b \<Longrightarrow> same_chan b d \<Longrightarrow> same_chan a d"
  by (simp add: same_chan_def)

lemma wrap_mod: "(h::nat) < n \<Longrightarrow> (if h + 1 = n then 0 else h + 1) = (h + 1) mod n"
  by auto

lemma wrap_inj: "(h::nat) < n \<Longrightarrow> i < k \<Longrightarrow> k < n \<Longrightarrow> (h + i) mod n \<noteq> (h + k) mod n"
  by (auto simp: mod_if split: if_splits)

lemma SendImpl_ok:
  assumes "ring_ok ch" "SendImpl v ch = Some ch'"
  shows "ring_ok ch'" "contents ch' = contents ch @ [v]" "same_chan ch ch'" "m_shutdown ch' = m_shutdown ch"
proof -
  let ?n = "m_capacity ch"
  have lt: "m_size ch < ?n" and hd: "m_head ch < ?n" and tl: "m_tail ch = (m_head ch + m_size ch) mod ?n"
    and len: "length (m_buffer ch) = ?n"
    using assms by (auto simp: SendImpl_def ring_ok_def IsFull_def split: if_splits)
  have tn: "m_tail ch < ?n" using lt tl by simp
  have ch': "ch' = ch\<lparr>m_buffer := (m_buffer ch)[m_tail ch := v], m_tail := (m_tail ch + 1) mod ?n, m_size := m_size ch + 1\<rparr>"
    using assms(2) wrap_mod [OF tn] by (simp add: SendImpl_def split: if_splits)
  show "ring_ok ch'" using lt hd tl len by (simp add: ch' ring_ok_def mod_Suc_eq)
  show "contents ch' = contents ch @ [v]"
    using len tn tl wrap_inj [OF hd _ lt] by (auto simp: ch' contents_def intro!: nth_list_update_neq [OF not_sym])
  show "same_chan ch ch'" "m_shutdown ch' = m_shutdown ch" by (simp_all add: ch' same_chan_def)
qed

lemma RecvImpl_ok:
  assumes "ring_ok ch" "RecvImpl ch = Some (v, ch')"
  shows "ring_ok ch'" "contents ch = v # contents ch'" "same_chan ch ch'" "m_shutdown ch' = m_shutdown ch" "\<not> IsFull ch'"
proof -
  let ?n = "m_capacity ch"
  have pos: "0 < m_size ch" and le: "m_size ch \<le> ?n" and v: "v = m_buffer ch ! m_head ch"
    using assms by (auto simp: RecvImpl_def chan_IsEmpty_def ring_ok_def split: if_splits)
  have hd: "m_head ch < ?n" using assms(1) pos le by (simp add: ring_ok_def)
  have ch': "ch' = ch\<lparr>m_head := (m_head ch + 1) mod ?n, m_size := m_size ch - 1\<rparr>"
    using assms(2) wrap_mod [OF hd] by (simp add: RecvImpl_def split: if_splits)
  have up: "[0..<m_size ch] = 0 # map Suc [0..<m_size ch - 1]"
    using pos by (metis Suc_diff_1 map_Suc_upt upt_conv_Cons)
  show "contents ch = v # contents ch'"
    using hd v by (simp add: ch' contents_def up comp_def mod_add_left_eq)
  obtain k where k: "m_size ch = Suc k" using pos gr0_implies_Suc by blast
  show "ring_ok ch'" using assms(1) le hd by (simp add: ch' ring_ok_def k mod_add_left_eq)
  show "same_chan ch ch'" "m_shutdown ch' = m_shutdown ch" by (simp_all add: ch' same_chan_def)
  show "\<not> IsFull ch'" using pos le by (simp add: ch' IsFull_def)
qed

lemma RecvImpl_None: "RecvImpl ch = None \<longleftrightarrow> chan_IsEmpty ch"
  by (simp add: RecvImpl_def)

lemma SendImpl_None: "SendImpl v ch = None \<longleftrightarrow> IsFull ch"
  by (simp add: SendImpl_def)

section \<open>What one run of an operation does to the queue\<close>

text \<open>The values an operation has taken out, and those it still has to put in.\<close>

fun got :: "'a resume \<Rightarrow> 'a list" where
  "got (AtReturn b vs) = vs"
| "got (AtTryRecvSend v) = [v]"
| "got (AtRecvSend v) = [v]"
| "got (AtDrainReturn vs) = vs"
| "got _ = []"

fun owes :: "'a resume \<Rightarrow> 'a list" where
  "owes (AtSendGranted v) = [v]"
| "owes (AtAllGranted vs) = vs"
| "owes (AtAllReleased vs) = vs"
| "owes (AtAllNext vs) = vs"
| "owes _ = []"

fun out_got :: "'a outcome \<Rightarrow> 'a list" where
  "out_got (Return b vs) = vs"
| "out_got (Suspended r) = got r"

text \<open>How an outcome accounts for the values owed: only a failing send may leave some behind.\<close>

definition settles :: "'a list \<Rightarrow> 'a list \<Rightarrow> 'a outcome \<Rightarrow> bool" where
  "settles owed put out = (case out of
       Suspended r \<Rightarrow> (case r of AtReturn False vs \<Rightarrow> (\<exists>rest. owed = put @ rest) | _ \<Rightarrow> owed = put @ owes r)
     | Return b vs \<Rightarrow> (if b then owed = put else (\<exists>rest. owed = put @ rest)))"

text \<open>
  \<open>transfers owed had ch r\<close>: the run put a prefix of the values it owed at the back of the queue, and took
  what its outcome carries beyond \<open>had\<close> from the front.
\<close>

definition transfers :: "'a list \<Rightarrow> 'a list \<Rightarrow> 'a chan \<Rightarrow> 'a outcome \<times> 'a chan \<times> sched \<Rightarrow> bool" where
  "transfers owed had ch r = (case r of (out, ch', s') \<Rightarrow> ring_ok ch' \<and> same_chan ch ch' \<and>
     (\<exists>put taken. contents ch @ put = taken @ contents ch' \<and> out_got out = had @ taken \<and> settles owed put out))"

lemma movedI:
  assumes "ring_ok ch'" "same_chan ch ch'" "contents ch @ put = taken @ contents ch'" "out_got out = had @ taken"
    "settles owed put out"
  shows "transfers owed had ch (out, ch', s')"
  using assms by (auto simp: transfers_def)

lemma moved_stay:
  assumes "ring_ok ch" "out_got out = had" "settles owed [] out"
  shows "transfers owed had ch (out, ch, s')"
  by (rule movedI [where put = "[]" and taken = "[]"]) (use assms in simp_all)

text \<open>The run goes on from \<open>cha\<close>, which it reached by putting \<open>puta\<close> and taking \<open>takena\<close>.\<close>

lemma moved_trans:
  assumes "transfers oweda (had @ takena) cha r" "same_chan ch cha" "contents ch @ puta = takena @ contents cha"
    "owed = puta @ oweda"
  shows "transfers owed had ch r"
proof -
  obtain out ch' s' where r: "r = (out, ch', s')" by (cases r)
  obtain put taken where m: "ring_ok ch'" "same_chan cha ch'" "contents cha @ put = taken @ contents ch'"
    "out_got out = (had @ takena) @ taken" "settles oweda put out"
    using assms(1) by (auto simp: transfers_def r)
  have "settles owed (puta @ put) out"
    using m(5) assms(4) by (auto simp: settles_def split: outcome.splits resume.splits bool.splits if_splits)
  moreover have "contents ch @ puta @ put = (takena @ taken) @ contents ch'"
    using assms(3) m(3) by (metis append.assoc)
  ultimately show ?thesis
    unfolding r using m same_chan_trans [OF assms(2) m(2)] by (intro movedI) auto
qed

lemma still_moved:
  assumes "still c at ch so go = Some r" "ring_ok ch" "got at = had" "settles owed [] (Suspended at)"
    "\<And>s1. go s1 = Some r \<Longrightarrow> transfers owed had ch r"
  shows "transfers owed had ch r"
  using assms moved_stay [of ch "Suspended at" had owed]
  by (auto simp: still_def bind_eq_Some_conv split: if_splits)

lemma release_return_moved:
  assumes "release_return k c b vs ch s = Some r" "ring_ok ch" "b \<longrightarrow> owed = []"
  shows "transfers owed vs ch r"
  by (rule still_moved [OF assms(1) [unfolded release_return_def]])
    (use assms in \<open>auto simp: settles_def split: bool.splits intro!: moved_stay\<close>)

lemma receive_parts:
  assumes "ring_ok ch"
  shows "TryRecv_send c v ch s = Some r \<Longrightarrow> transfers [] [v] ch r"
    and "Recv_send c v ch s = Some r \<Longrightarrow> transfers [] [v] ch r"
    and "TrySend_recv c ch s = Some r \<Longrightarrow> transfers [] [] ch r"
    and "Send_recv c ch s = Some r \<Longrightarrow> transfers [] [] ch r"
    and "Shutdown_send c ch s = Some r \<Longrightarrow> transfers [] [] ch r"
  using assms
  by (auto simp: TryRecv_send_def Recv_send_def TrySend_recv_def Send_recv_def Shutdown_send_def settles_def
      split: if_splits intro!: moved_stay intro: release_return_moved)

lemma Recv_after_moved: "Recv_after c v ch s = Some r \<Longrightarrow> ring_ok ch \<Longrightarrow> transfers [] [v] ch r"
  by (auto simp: Recv_after_def settles_def split: if_splits elim!: still_moved intro: receive_parts(2))

text \<open>A value taken by \<open>RecvImpl\<close> and then carried by the rest of the run.\<close>

lemma took:
  assumes "ring_ok ch" "RecvImpl ch = Some (v, ch1)" "transfers [] [v] ch1 r"
  shows "transfers [] [] ch r"
  by (rule moved_trans [where oweda = "[]" and puta = "[]" and takena = "[v]" and cha = ch1])
    (use assms(3) RecvImpl_ok(2,3) [OF assms(1,2)] in auto)

text \<open>A value put by \<open>SendImpl\<close> before the rest of the run.\<close>

lemma put:
  assumes "ring_ok ch" "SendImpl v ch = Some ch1" "transfers vs [] ch1 r"
  shows "transfers (v # vs) [] ch r"
  by (rule moved_trans [where oweda = vs and puta = "[v]" and takena = "[]" and cha = ch1])
    (use assms(3) SendImpl_ok(2,3) [OF assms(1,2)] in auto)

lemma TryRecv_moved:
  assumes "TryRecv c x ch s = Some r" "ring_ok ch"
  shows "transfers [] [] ch r"
proof (cases "RecvImpl ch")
  case None
  then show ?thesis using assms by (auto simp: TryRecv_def settles_def intro!: moved_stay)
next
  case (Some a)
  obtain v ch1 where a: "RecvImpl ch = Some (v, ch1)" using Some by (cases a) auto
  note ok1 = RecvImpl_ok(1) [OF assms(2) a]
  have "transfers [] [v] ch1 r"
    using assms(1) ok1 by (auto simp: TryRecv_def a settles_def split: if_splits elim!: still_moved intro: receive_parts(1))
  then show ?thesis by (rule took [OF assms(2) a])
qed

lemma RecvAcquired_moved:
  assumes "RecvAcquired c ch s = Some r" "ring_ok ch"
  shows "transfers [] [] ch r"
  using assms
  by (auto simp: RecvAcquired_def bind_eq_Some_conv split: option.splits
      intro: release_return_moved took Recv_after_moved RecvImpl_ok(1))

lemma Recv_loop_moved:
  assumes "Recv_loop c x ch s = Some r" "ring_ok ch"
  shows "transfers [] [] ch r"
proof -
  have "ring_ok ch \<longrightarrow> transfers [] [] ch r"
  proof (rule Recv_loop.raw_induct [where P = "\<lambda>c x ch s r. ring_ok ch \<longrightarrow> transfers [] [] ch r"
        and xa = "(((c, x), ch), s)" and y = r, unfolded prod.case], goal_cases)
    case (1 loop c x ch s r)
    show ?case
      using 1
      by (cases r) (auto simp: bind_eq_Some_conv settles_def split: option.splits if_splits
          intro: release_return_moved took Recv_after_moved RecvImpl_ok(1) intro!: moved_stay)
  qed (rule assms(1))
  then show ?thesis using assms(2) by simp
qed

lemma still_SomeE:
  assumes "still c at ch so go = Some r"
  obtains s1 where "so = Some s1" "m_scheduled s1 = c" "go s1 = Some r"
    | s1 where "so = Some s1" "m_scheduled s1 \<noteq> c" "r = (Suspended at, ch, s1)"
  using assms by (cases so) (auto simp: still_def split: if_splits)

lemma TryRecv_send_True: "TryRecv_send c v ch s = Some (Return b vs, ch1, s1) \<Longrightarrow> b"
  by (auto simp: TryRecv_send_def release_return_def split: if_splits elim!: still_SomeE)

lemma TryRecv_False:
  assumes "TryRecv c x ch s = Some (Return False vs, ch1, s1)"
  shows "ch1 = ch" "s1 = s" "vs = []" "chan_IsEmpty ch"
proof -
  have "RecvImpl ch = None"
    using assms TryRecv_send_True
    by (cases "RecvImpl ch") (fastforce simp: TryRecv_def split: if_splits elim!: still_SomeE)+
  then show "ch1 = ch" "s1 = s" "vs = []" "chan_IsEmpty ch"
    using assms by (simp_all add: TryRecv_def RecvImpl_None [symmetric])
qed

lemma Recv_moved:
  assumes "Recv c x ch s = Some r" "ring_ok ch"
  shows "transfers [] [] ch r"
proof -
  obtain out ch1 s1 where tr: "TryRecv c x ch s = Some (out, ch1, s1)"
    using assms(1) by (auto simp: Recv_def bind_eq_Some_conv)
  note mv = TryRecv_moved [OF tr assms(2)]
  show ?thesis
  proof (cases "\<exists>vs. out = Return False vs")
    case True
    then obtain vs where out: "out = Return False vs" by blast
    have "ch1 = ch" "out = Return False []"
      using TryRecv_False [OF tr [unfolded out]] out by simp_all
    then have body: "(if m_shutdown ch then
        (if held s1 (m_recv ch) then release_return (m_recv ch) c False [] ch s1 else Some (Return False [], ch, s1))
      else still c AtRecvLoop ch (Acquire (m_recv ch) c x s1) (Recv_loop c x ch)) = Some r"
      using assms(1) tr by (simp add: Recv_def)
    show ?thesis
    proof (cases "m_shutdown ch")
      case True
      then show ?thesis using body assms(2)
        by (auto simp: settles_def split: if_splits intro: release_return_moved intro!: moved_stay)
    next
      case False
      then have "still c AtRecvLoop ch (Acquire (m_recv ch) c x s1) (Recv_loop c x ch) = Some r"
        using body by simp
      then show ?thesis
        by (rule still_moved) (simp_all add: assms(2) settles_def Recv_loop_moved)
    qed
  next
    case False
    then have "r = (out, ch1, s1)"
      using assms(1) tr by (cases out) (simp_all add: Recv_def split: bool.splits)
    then show ?thesis using mv by simp
  qed
qed

lemma drain_loop_ok:
  assumes "drain_loop n ch s = Some (vs, ch', s')" "ring_ok ch"
  shows "ring_ok ch' \<and> same_chan ch ch' \<and> contents ch = vs @ contents ch' \<and> length vs = min n (m_size ch)"
  using assms
proof (induction n arbitrary: ch s vs)
  case 0
  then show ?case by simp
next
  case (Suc n)
  show ?case
  proof (cases "RecvImpl ch")
    case None
    moreover have "m_size ch = 0" using None by (simp add: RecvImpl_None chan_IsEmpty_def)
    ultimately show ?thesis using Suc.prems by simp
  next
    case (Some a)
    obtain v ch1 where a: "RecvImpl ch = Some (v, ch1)" using Some by (cases a) auto
    note ok = RecvImpl_ok [OF Suc.prems(2) a]
    obtain s1 ws where rest: "drain_loop n ch1 s1 = Some (ws, ch', s')" "vs = v # ws"
      using Suc.prems(1) by (auto simp: a bind_eq_Some_conv)
    have sz: "m_size ch = Suc (m_size ch1)" using arg_cong [OF ok(2), of length] by simp
    note ih = Suc.IH [OF rest(1) ok(1)]
    show ?thesis using ih ok(2) rest(2) sz same_chan_trans [OF ok(3)] by simp
  qed
qed

lemma Drain_moved:
  assumes "Drain c x n ch s = Some r" "ring_ok ch"
  shows "transfers [] [] ch r"
proof (cases "chan_IsEmpty ch")
  case True
  then show ?thesis using assms by (auto simp: Drain_def settles_def intro!: moved_stay)
next
  case False
  then obtain vs ch1 s1 where dl: "drain_loop n ch s = Some (vs, ch1, s1)"
    using assms(1) by (auto simp: Drain_def bind_eq_Some_conv)
  note ok = drain_loop_ok [OF dl assms(2)]
  have mv: "transfers [] vs ch1 r"
    using assms(1) False ok
    by (auto simp: Drain_def dl settles_def split: if_splits elim!: still_moved intro!: moved_stay)
  show ?thesis
    by (rule moved_trans [where oweda = "[]" and puta = "[]" and takena = vs and cha = ch1]) (use mv ok in simp_all)
qed

lemma TrySend_fast_moved:
  assumes "SendImpl v ch = Some ch1" "ring_ok ch"
    "(if IsFull ch1 then still c AtTrySendRecv ch1 (Acquire (m_send ch1) c x s) (TrySend_recv c ch1)
      else TrySend_recv c ch1 s) = Some r"
  shows "transfers [v] [] ch r"
proof (rule put [OF assms(2,1)])
  note ok1 = SendImpl_ok(1) [OF assms(2,1)]
  show "transfers [] [] ch1 r"
  proof (cases "IsFull ch1")
    case True
    then have "still c AtTrySendRecv ch1 (Acquire (m_send ch1) c x s) (TrySend_recv c ch1) = Some r"
      using assms(3) by simp
    then show ?thesis
      by (rule still_moved) (simp_all add: ok1 settles_def receive_parts(3))
  next
    case False
    then show ?thesis using assms(3) ok1 by (simp add: receive_parts(3))
  qed
qed

lemma TrySend_moved:
  assumes "TrySend c x v ch s = Some r" "ring_ok ch"
  shows "transfers [v] [] ch r"
proof (cases "m_shutdown ch \<or> IsFull ch")
  case True
  then have "r = (Return False [], ch, s)" using assms(1) by (simp add: TrySend_def)
  then show ?thesis using assms(2) by (simp add: moved_stay settles_def)
next
  case False
  then obtain ch1 where ch1: "SendImpl v ch = Some ch1" by (cases "SendImpl v ch") (auto simp: SendImpl_None)
  show ?thesis
    by (rule TrySend_fast_moved [OF ch1 assms(2), of c x s]) (use assms(1) False ch1 in \<open>simp add: TrySend_def\<close>)
qed

lemma SendAcquired_moved:
  assumes "SendAcquired c v ch s = Some r" "ring_ok ch"
  shows "transfers [v] [] ch r"
proof (cases "m_shutdown ch")
  case True
  then show ?thesis using assms release_return_moved by (fastforce simp: SendAcquired_def)
next
  case False
  then obtain ch1 where ch1: "SendImpl v ch = Some ch1"
    using assms(1) by (auto simp: SendAcquired_def bind_eq_Some_conv)
  note ok1 = SendImpl_ok(1) [OF assms(2) ch1]
  have body: "(if \<not> IsFull ch1 then still c AtSendRecv ch1 (Release (m_send ch1) True s) (Send_recv c ch1)
      else Send_recv c ch1 s) = Some r"
    using assms(1) False ch1 by (simp add: SendAcquired_def)
  show ?thesis
  proof (rule put [OF assms(2) ch1], cases "IsFull ch1")
    case True
    then show "transfers [] [] ch1 r" using body ok1 by (simp add: receive_parts(4))
  next
    case False
    then have "still c AtSendRecv ch1 (Release (m_send ch1) True s) (Send_recv c ch1) = Some r"
      using body by simp
    then show "transfers [] [] ch1 r"
      by (rule still_moved) (simp_all add: ok1 settles_def receive_parts(4))
  qed
qed

lemma Send_moved:
  assumes "Send c x v ch s = Some r" "ring_ok ch"
  shows "transfers [v] [] ch r"
proof (cases "\<not> m_shutdown ch \<and> \<not> IsFull ch")
  case True
  then obtain ch1 where ch1: "SendImpl v ch = Some ch1" by (cases "SendImpl v ch") (auto simp: SendImpl_None)
  show ?thesis
    by (rule TrySend_fast_moved [OF ch1 assms(2), of c x s]) (use assms(1) True ch1 in \<open>simp add: Send_def\<close>)
next
  case False
  then have "still c (AtSendGranted v) ch (Acquire (m_send ch) c x s) (SendAcquired c v ch) = Some r"
    using assms(1) by (auto simp: Send_def)
  then show ?thesis
    by (rule still_moved) (simp_all add: assms(2) settles_def SendAcquired_moved)
qed

lemma SendAll_parts:
  "SendAll_loop c x vs ch s = Some r \<Longrightarrow> ring_ok ch \<Longrightarrow> transfers vs [] ch r"
  "all_put c x v vs ch s = Some r \<Longrightarrow> ring_ok ch \<Longrightarrow> transfers (v # vs) [] ch r"
  "all_full c x vs ch s = Some r \<Longrightarrow> ring_ok ch \<Longrightarrow> transfers vs [] ch r"
proof (induction c x vs ch s and c x v vs ch s and c x vs ch s
    arbitrary: r and r and r rule: SendAll_loop_all_put_all_full.induct)
  case (1 c x ch s)
  then show ?case by (auto simp: settles_def intro!: moved_stay)
next
  case (2 c x v vs ch s)
  show ?case
  proof (cases "IsFull ch")
    case True
    then obtain s1 where s1: "Acquire (m_send ch) c x s = Some s1"
      using 2(3) by (auto simp: bind_eq_Some_conv)
    show ?thesis using 2 True s1
      by (cases r) (auto simp: settles_def split: if_splits intro!: moved_stay intro: release_return_moved)
  next
    case False
    then show ?thesis using 2 by simp
  qed
next
  case (3 c x v vs ch s)
  obtain ch1 where ch1: "SendImpl v ch = Some ch1" using 3(3) by (auto simp: bind_eq_Some_conv)
  note ok1 = SendImpl_ok(1) [OF 3(4) ch1]
  have "transfers vs [] ch1 r"
    using 3(1,2,3) ok1 ch1
    by (cases r) (auto simp: settles_def bind_eq_Some_conv split: if_splits intro!: moved_stay)
  then show ?case by (rule put [OF 3(4) ch1])
next
  case (4 c x vs ch s)
  show ?case
    using 4 by (cases r) (auto simp: settles_def bind_eq_Some_conv split: if_splits intro!: moved_stay)
qed

lemma SendAll_moved: "SendAll c x vs ch s = Some r \<Longrightarrow> ring_ok ch \<Longrightarrow> transfers vs [] ch r"
  by (auto simp: SendAll_def settles_def split: if_splits intro!: moved_stay intro: SendAll_parts(1))

lemma Shutdown_moved:
  assumes "Shutdown c ch s = Some r" "ring_ok ch"
  shows "transfers [] [] ch r"
proof (cases "m_shutdown ch")
  case True
  then show ?thesis using assms by (auto simp: Shutdown_def settles_def intro!: moved_stay)
next
  case False
  let ?ch = "ch\<lparr>m_shutdown := True\<rparr>"
  have ok: "ring_ok ?ch" "contents ?ch = contents ch" "same_chan ch ?ch"
    using assms(2) by (simp_all add: ring_ok_def contents_def same_chan_def)
  have mv: "transfers [] [] ?ch r"
    using assms(1) False ok(1)
    by (cases r) (auto simp: Shutdown_def Let_def settles_def split: if_splits elim!: still_SomeE
        intro!: moved_stay intro: receive_parts(5))
  show ?thesis
    by (rule moved_trans [where oweda = "[]" and puta = "[]" and takena = "[]" and cha = ?ch]) (use mv ok in simp_all)
qed

lemma resume_moved:
  assumes "resume_at c x at ch s = Some r" "ring_ok ch"
  shows "transfers (owes at) (got at) ch r"
proof (cases at)
  case (AtReturn b vs)
  then have "r = (Return b vs, ch, s)" using assms(1) by simp
  then show ?thesis using AtReturn assms(2) by (simp add: moved_stay settles_def)
next
  case (AtDrainReturn vs)
  then have "r = (Return True vs, ch, s)" using assms(1) by simp
  then show ?thesis using AtDrainReturn assms(2) by (simp add: moved_stay settles_def)
next
  case (AtAllGranted vs)
  then show ?thesis
    using assms release_return_moved [of "m_send ch" c False "[]" ch s r vs]
    by (cases vs) (simp_all add: SendAll_parts(2) split: if_splits)
qed (use assms receive_parts Recv_loop_moved SendAcquired_moved SendAll_parts in simp_all)

section \<open>A channel in use\<close>

text \<open>The calls of the interface, and the values a call is to put.\<close>

datatype 'a call =
    CallTryRecv
  | CallRecv
  | CallDrain nat
  | CallRecvAcquired
  | CallTrySend 'a
  | CallSend 'a
  | CallSendAll "'a list"
  | CallSendAcquired 'a
  | CallShutdown

fun call_at :: "addr \<Rightarrow> addr \<Rightarrow> 'a call \<Rightarrow> 'a chan \<Rightarrow> sched \<Rightarrow> 'a result" where
  "call_at c x CallTryRecv ch s = TryRecv c x ch s"
| "call_at c x CallRecv ch s = Recv c x ch s"
| "call_at c x (CallDrain n) ch s = Drain c x n ch s"
| "call_at c x CallRecvAcquired ch s = RecvAcquired c ch s"
| "call_at c x (CallTrySend v) ch s = TrySend c x v ch s"
| "call_at c x (CallSend v) ch s = Send c x v ch s"
| "call_at c x (CallSendAll vs) ch s = SendAll c x vs ch s"
| "call_at c x (CallSendAcquired v) ch s = SendAcquired c v ch s"
| "call_at c x CallShutdown ch s = Shutdown c ch s"

fun brings :: "'a call \<Rightarrow> 'a list" where
  "brings (CallTrySend v) = [v]"
| "brings (CallSend v) = [v]"
| "brings (CallSendAll vs) = vs"
| "brings (CallSendAcquired v) = [v]"
| "brings _ = []"

lemma call_moved:
  assumes "call_at c x cl ch s = Some r" "ring_ok ch"
  shows "transfers (brings cl) [] ch r"
  using assms
  by (cases cl) (simp_all add: TryRecv_moved Recv_moved Drain_moved RecvAcquired_moved TrySend_moved Send_moved
      SendAll_moved SendAcquired_moved Shutdown_moved)

text \<open>
  Any number of contexts use the channel, and between their runs the scheduler state changes in any way
  the rest of the program changes it. Two logs record what went into the buffer and what came out of it.
\<close>

record 'a csys =
  cs_chan :: "'a chan"
  cs_sched :: sched
  cs_pending :: "addr \<Rightarrow> 'a resume option"
  cs_sent :: "'a list"
  cs_received :: "'a list"

datatype 'a cact = Call addr addr "'a call" | Continue addr addr | Others "sched \<Rightarrow> sched"

definition settle :: "addr \<Rightarrow> 'a list \<Rightarrow> 'a list \<Rightarrow> 'a outcome \<times> 'a chan \<times> sched \<Rightarrow> 'a csys \<Rightarrow> 'a csys" where
  "settle c owed had r st = (case r of (out, ch', s') \<Rightarrow>
     let taken = drop (length had) (out_got out);
         n = m_size ch' + length taken - m_size (cs_chan st)
     in st\<lparr>cs_chan := ch', cs_sched := s',
           cs_pending := (cs_pending st)(c := (case out of Return b vs \<Rightarrow> None | Suspended at \<Rightarrow> Some at)),
           cs_sent := cs_sent st @ take n owed, cs_received := cs_received st @ taken\<rparr>)"

fun cstep :: "'a cact \<Rightarrow> 'a csys \<Rightarrow> 'a csys option" where
  "cstep (Call c x cl) st =
     (if m_scheduled (cs_sched st) = c \<and> cs_pending st c = None
      then map_option (\<lambda>r. settle c (brings cl) [] r st) (call_at c x cl (cs_chan st) (cs_sched st)) else None)"
| "cstep (Continue c x) st = (case cs_pending st c of
       None \<Rightarrow> None
     | Some at \<Rightarrow> if m_scheduled (cs_sched st) = c
         then map_option (\<lambda>r. settle c (owes at) (got at) r st) (resume_at c x at (cs_chan st) (cs_sched st)) else None)"
| "cstep (Others f) st = Some (st\<lparr>cs_sched := f (cs_sched st)\<rparr>)"

fun crun :: "'a cact list \<Rightarrow> 'a csys \<Rightarrow> 'a csys option" where
  "crun [] st = Some st"
| "crun (a # as) st = do { st1 \<leftarrow> cstep a st; crun as st1 }"

definition csys_init :: "'a list \<Rightarrow> addr \<Rightarrow> addr \<Rightarrow> sched \<Rightarrow> 'a csys" where
  "csys_init buffer recv send s = (case Channel_new buffer recv send s of (ch, s') \<Rightarrow>
     \<lparr>cs_chan = ch, cs_sched = s', cs_pending = (\<lambda>_. None), cs_sent = [], cs_received = []\<rparr>)"

definition cinv :: "'a csys \<Rightarrow> bool" where
  "cinv st \<longleftrightarrow> ring_ok (cs_chan st) \<and> cs_sent st = cs_received st @ contents (cs_chan st)"

lemma settles_prefix: "settles owed put out \<Longrightarrow> \<exists>rest. owed = put @ rest"
  by (auto simp: settles_def split: outcome.splits resume.splits if_splits bool.splits)

lemma settle_cinv:
  assumes "cinv st" "transfers owed had (cs_chan st) r"
  shows "cinv (settle c owed had r st)"
proof -
  obtain out ch' s' where r: "r = (out, ch', s')" by (cases r)
  obtain put taken rest where m: "ring_ok ch'" "contents (cs_chan st) @ put = taken @ contents ch'"
    "out_got out = had @ taken" "owed = put @ rest"
    using assms(2) settles_prefix by (fastforce simp: transfers_def r)
  have "m_size (cs_chan st) + length put = length taken + m_size ch'"
    using arg_cong [OF m(2), of length] by simp
  then have "take (m_size ch' + length taken - m_size (cs_chan st)) owed = put"
    using m(4) by simp
  then show ?thesis
    using assms(1) m by (simp add: cinv_def settle_def r Let_def)
qed

lemma cstep_cinv: "cstep a st = Some st' \<Longrightarrow> cinv st \<Longrightarrow> cinv st'"
  by (cases a) (auto simp: cinv_def [of "st\<lparr>cs_sched := s\<rparr>" for s] split: if_splits option.splits
      intro!: settle_cinv call_moved resume_moved, auto simp: cinv_def)

lemma crun_cinv: "crun as st = Some st' \<Longrightarrow> cinv st \<Longrightarrow> cinv st'"
  by (induction as arbitrary: st) (auto simp: bind_eq_Some_conv dest: cstep_cinv)

lemma csys_init_cinv: "cinv (csys_init buffer recv send s)"
  by (simp add: cinv_def csys_init_def Channel_new_def ring_ok_def contents_def)

section \<open>Properties\<close>

text \<open>A cooperator with two contexts, of which the first runs and the second is ready.\<close>

definition two_contexts :: sched where
  "two_contexts = \<lparr>ctxs = (\<lambda>c. \<lparr>m_state = (if c = 1 then RUNNING else YIELDED), m_priority = 0, m_currentPriority = 0,
       m_parent = null, m_children = [], m_lastChild = 100 + c, m_killedSignal = 200 + c, m_yields = 0, m_blocks = 0\<rparr>),
     coords = (\<lambda>k. \<lparr>m_held = False, m_blocking = []\<rparr>),
     cds = (\<lambda>x. \<lparr>m_waiter = WaitContext null, m_satisfied = False, m_connected = False\<rparr>),
     m_signaled = (\<lambda>k. False), m_contexts = [1, 2], m_yielded = [2], m_blocked = [], m_scheduled = 1,
     m_pendingContinuations = [], m_directYieldsRemaining = 8, m_inThunk = False, m_locals = (\<lambda>t. []), m_freed = [],
     m_config = \<lparr>directYield = True, directYieldBudget = 8, ioPresentLimit = 0\<rparr>\<rparr>"

lemmas sched_eval = two_contexts_def Acquire_def AddAsBlocked_def Context_Block_def Block_def direct_ok_def push_blocked_def
  push_yielded_def remove_blocked_def remove_yielded_def set_state_def state_of_def switch_next_def set_coord_def set_cd_def
  Release_def ReleaseToNext_def WakeWaiter_def is_continuation_def pop_waiter_def Unblock_def assert_that_def Let_def

lemmas chan_eval = csys_init_def Channel_new_def settle_def still_def release_return_def TryRecv_send_def TryRecv_def
  Recv_send_def Recv_after_def Recv_def Drain_def RecvAcquired_def TrySend_recv_def TrySend_def Send_recv_def SendAcquired_def
  Send_def SendAll_def Shutdown_send_def Shutdown_def RecvImpl_def SendImpl_def chan_IsEmpty_def IsFull_def

text \<open>
  C23. Whatever calls any number of contexts make on a channel, however their runs interleave and whatever
  else happens to the scheduler between them, no index leaves the buffer, and the values received
  followed by the values in the buffer are the values sent, in order: none is lost, duplicated,
  invented or overtaken.
\<close>

theorem channel_fifo:
  assumes "crun acts (csys_init buffer recv send s) = Some st"
  shows "ring_ok (cs_chan st) \<and> cs_sent st = cs_received st @ contents (cs_chan st)"
  using crun_cinv [OF assms csys_init_cinv] by (simp add: cinv_def)

definition demo_chan :: "nat cact list" where
  "demo_chan = [Call 1 301 CallRecv, Call 2 302 (CallSend 7), Continue 1 301, Call 1 301 (CallSendAll [8, 9]), Call 1 301 CallTryRecv]"

theorem channel_fifo_witness:
  "\<exists>st. crun demo_chan (csys_init [0, 0, 0] 50 51 two_contexts) = Some st \<and> cs_received st = [7, 8] \<and>
     contents (cs_chan st) = [9] \<and> cs_sent st = cs_received st @ contents (cs_chan st)"
proof -
  have "\<exists>st. crun demo_chan (csys_init [0, 0, 0] 50 51 two_contexts) = Some st \<and> cs_received st = [7, 8] \<and>
     contents (cs_chan st) = [9]"
    by (subst demo_chan_def, simp add: sched_eval chan_eval contents_def Recv_loop.simps)
  then show ?thesis using channel_fifo [of demo_chan] by blast
qed

end
