(* ===== verification/Channel_Contract.thy ===== *)
theory Channel_Contract
  imports Channel
begin

text \<open>
  The coordinators of a channel: the contract the header of \<open>coop/chan/channel.h\<close> states for \<open>m_recv\<close> and
  \<open>m_send\<close>, which calls keep it, and where it is lost.
\<close>

section \<open>The coordinators of a channel\<close>

text \<open>Switching leaves the coordinators alone; an acquire that finds its coordinator held gives up the processor.\<close>

lemma switching_coords:
  shows "push_yielded c s = Some s' \<Longrightarrow> coords s' = coords s"
    and "push_blocked c s = Some s' \<Longrightarrow> coords s' = coords s"
    and "remove_yielded c s = Some s' \<Longrightarrow> coords s' = coords s"
    and "remove_blocked c s = Some s' \<Longrightarrow> coords s' = coords s"
    and "coords (set_state c v s) = coords s"
    and "coords (switch_next c s) = coords s"
    and "coords (set_cd x w s) = coords s"
  by (auto simp: push_yielded_def push_blocked_def remove_yielded_def remove_blocked_def set_state_def
      switch_next_def set_cd_def bind_eq_Some_conv)

lemma Unblock_coords: "Unblock c b s = Some s' \<Longrightarrow> coords s' = coords s"
  by (auto simp: Unblock_def Let_def switching_coords bind_eq_Some_conv split: if_splits dest!: switching_coords(1,4))

lemma Block_coords: "Block c s = Some s' \<Longrightarrow> coords s' = coords s"
  by (auto simp: Block_def bind_eq_Some_conv push_blocked_def remove_yielded_def set_state_def switch_next_def
      split: if_splits list.splits)

lemma Block_leaves:
  assumes "Block c s = Some s'" "c \<noteq> null"
  shows "m_scheduled s' \<noteq> c"
  using assms
  by (auto simp: Block_def bind_eq_Some_conv push_blocked_def remove_yielded_def set_state_def switch_next_def
      split: if_splits list.splits)

lemma Acquire_keeps_held:
  assumes "Acquire k c x s = Some s'"
  shows "held s' k" "k' \<noteq> k \<Longrightarrow> held s' k' = held s k'"
  using assms
  by (auto simp: Acquire_def AddAsBlocked_def Context_Block_def set_coord_def set_cd_def bind_eq_Some_conv Let_def
      split: if_splits dest!: Block_coords)

lemma Acquire_blocks: "Acquire k c x s = Some s' \<Longrightarrow> held s k \<Longrightarrow> c \<noteq> null \<Longrightarrow> m_scheduled s' \<noteq> c"
  by (auto simp: Acquire_def Context_Block_def bind_eq_Some_conv dest!: Block_leaves)

lemma Release_held_other:
  assumes "Release k b s = Some s'" "k' \<noteq> k"
  shows "held s' k' = held s k'"
  using assms
  by (auto simp: Release_def ReleaseToNext_def WakeWaiter_def pop_waiter_def set_coord_def set_cd_def Let_def bind_eq_Some_conv
      split: if_splits list.splits waiter.splits dest!: Unblock_coords)

lemma Release_quiet: "Release k False s = Some s' \<Longrightarrow> m_scheduled s' = m_scheduled s"
  by (auto simp: Release_def ReleaseToNext_def WakeWaiter_def pop_waiter_def set_coord_def set_cd_def Let_def bind_eq_Some_conv
      Unblock_def push_yielded_def remove_blocked_def set_state_def
      split: if_splits list.splits waiter.splits)

text \<open>
  The contract the header of \<open>channel.h\<close> states for a channel that is not shut down: the receiving
  coordinator is held while the channel is empty, the sending one while it is full.
\<close>

definition chan_held :: "'a chan \<Rightarrow> sched \<Rightarrow> bool" where
  "chan_held ch s \<longleftrightarrow> (\<not> m_shutdown ch \<longrightarrow> (chan_IsEmpty ch \<longrightarrow> held s (m_recv ch)) \<and> (IsFull ch \<longrightarrow> held s (m_send ch)))"

definition keeps_held :: "'a result \<Rightarrow> bool" where
  "keeps_held res = (case res of None \<Rightarrow> True
     | Some (out, ch, s) \<Rightarrow> (\<forall>vs. out \<noteq> Suspended (AtAllReleased vs)) \<longrightarrow> chan_held ch s)"

lemma keeps_held_simps [simp]:
  "keeps_held None" "keeps_held (Some (Return b vs, ch, s)) = chan_held ch s"
  by (simp_all add: keeps_held_def)

lemma keeps_suspended: "chan_held ch s \<Longrightarrow> keeps_held (Some (Suspended at, ch, s))" "keeps_held (Some (Suspended (AtAllReleased vs), ch, s))"
  by (simp_all add: keeps_held_def)

lemma still_keeps:
  assumes "\<And>s1. so = Some s1 \<Longrightarrow> chan_held ch s1" "\<And>s1. so = Some s1 \<Longrightarrow> keeps_held (go s1)"
  shows "keeps_held (still c at ch so go)"
  using assms by (cases so) (auto simp: still_def keeps_held_def)

text \<open>A release keeps the contract when the side it opens up is open.\<close>

lemma release_recv_held:
  assumes "Release (m_recv ch) b s = Some s1" "m_recv ch \<noteq> m_send ch" "\<not> chan_IsEmpty ch \<or> m_shutdown ch" "chan_held ch s"
  shows "chan_held ch s1"
  using assms Release_held_other [OF assms(1), of "m_send ch"] by (auto simp: chan_held_def)

lemma release_send_held:
  assumes "Release (m_send ch) b s = Some s1" "m_recv ch \<noteq> m_send ch" "\<not> IsFull ch \<or> m_shutdown ch" "chan_held ch s"
  shows "chan_held ch s1"
  using assms Release_held_other [OF assms(1), of "m_recv ch"] by (auto simp: chan_held_def)

lemma acquire_recv_held:
  assumes "Acquire (m_recv ch) c x s = Some s1" "m_recv ch \<noteq> m_send ch" "IsFull ch \<longrightarrow> m_shutdown ch \<or> held s (m_send ch)"
  shows "chan_held ch s1"
  using assms Acquire_keeps_held [OF assms(1)] by (auto simp: chan_held_def)

lemma acquire_send_held:
  assumes "Acquire (m_send ch) c x s = Some s1" "m_recv ch \<noteq> m_send ch" "chan_IsEmpty ch \<longrightarrow> m_shutdown ch \<or> held s (m_recv ch)"
  shows "chan_held ch s1"
  using assms Acquire_keeps_held [OF assms(1)] by (auto simp: chan_held_def)

lemmas held_intros = release_recv_held release_send_held acquire_recv_held acquire_send_held

lemma tails_keep:
  assumes "m_recv ch \<noteq> m_send ch" "chan_held ch s"
  shows "\<not> IsFull ch \<Longrightarrow> keeps_held (TryRecv_send c v ch s)"
    and "keeps_held (Recv_send c v ch s)"
    and "\<not> chan_IsEmpty ch \<Longrightarrow> keeps_held (TrySend_recv c ch s)"
    and "keeps_held (Send_recv c ch s)"
    and "m_shutdown ch \<Longrightarrow> keeps_held (Shutdown_send c ch s)"
    and "m_shutdown ch \<or> \<not> chan_IsEmpty ch \<Longrightarrow> keeps_held (release_return (m_recv ch) c b vs ch s)"
    and "m_shutdown ch \<or> \<not> IsFull ch \<Longrightarrow> keeps_held (release_return (m_send ch) c b vs ch s)"
  using assms
  by (auto simp: TryRecv_send_def Recv_send_def TrySend_recv_def Send_recv_def Shutdown_send_def release_return_def
      intro!: still_keeps intro: held_intros)

subsection \<open>The receive loop\<close>

text \<open>\<open>Recv\<close> with at most one round of its loop before the context returns or blocks.\<close>

definition Recv_round :: "addr \<Rightarrow> addr \<Rightarrow> 'a chan \<Rightarrow> sched \<Rightarrow> 'a result" where
  "Recv_round c x ch s = (case RecvImpl ch of
       Some (v, ch1) \<Rightarrow> Recv_after c v ch1 s
     | None \<Rightarrow> if m_shutdown ch then release_return (m_recv ch) c False [] ch s
               else map_option (\<lambda>s1. (Suspended AtRecvLoop, ch, s1)) (Acquire (m_recv ch) c x s))"

lemma Recv_loop_round:
  assumes "held s (m_recv ch)" "c \<noteq> null"
  shows "Recv_loop c x ch s = Recv_round c x ch s"
  using assms Acquire_blocks [of "m_recv ch" c x s]
  by (subst Recv_loop.simps) (auto simp: Recv_round_def split: option.splits bind_splits)

lemma Recv_after_keeps:
  assumes "m_recv ch \<noteq> m_send ch" "held s (m_recv ch)" "\<not> IsFull ch"
  shows "keeps_held (Recv_after c v ch s)"
proof -
  have "chan_held ch s" using assms by (simp add: chan_held_def)
  then show ?thesis
    using assms by (auto simp: Recv_after_def intro!: still_keeps tails_keep intro: release_recv_held)
qed

lemma Recv_round_keeps:
  assumes "ring_ok ch" "m_recv ch \<noteq> m_send ch" "held s (m_recv ch)" "chan_held ch s"
  shows "keeps_held (Recv_round c x ch s)"
proof (cases "RecvImpl ch")
  case None
  show ?thesis
  proof (cases "m_shutdown ch")
    case True
    then show ?thesis using None assms by (simp add: Recv_round_def tails_keep)
  next
    case False
    then show ?thesis
      using None assms acquire_recv_held [of ch c x s]
      by (cases "Acquire (m_recv ch) c x s") (auto simp: Recv_round_def keeps_held_def chan_held_def)
  qed
next
  case (Some a)
  obtain v ch1 where a: "RecvImpl ch = Some (v, ch1)" using Some by (cases a) auto
  note ok = RecvImpl_ok [OF assms(1) a]
  show ?thesis
    using assms ok Recv_after_keeps [of ch1 s c v] by (simp add: Recv_round_def a same_chan_def)
qed

lemma RecvAcquired_keeps:
  assumes "ring_ok ch" "m_recv ch \<noteq> m_send ch" "held s (m_recv ch)" "chan_held ch s"
  shows "keeps_held (RecvAcquired c ch s)"
proof (cases "RecvImpl ch")
  case None
  then show ?thesis
    using assms by (cases "m_shutdown ch") (simp_all add: RecvAcquired_def assert_that_def tails_keep)
next
  case (Some a)
  obtain v ch1 where a: "RecvImpl ch = Some (v, ch1)" using Some by (cases a) auto
  note ok = RecvImpl_ok [OF assms(1) a]
  show ?thesis
    using assms ok Recv_after_keeps [of ch1 s c v] by (simp add: RecvAcquired_def a same_chan_def)
qed

lemma TryRecv_keeps:
  assumes "ring_ok ch" "m_recv ch \<noteq> m_send ch" "chan_held ch s"
  shows "keeps_held (TryRecv c x ch s)"
proof (cases "RecvImpl ch")
  case None
  then show ?thesis using assms by (simp add: TryRecv_def)
next
  case (Some a)
  obtain v ch1 where a: "RecvImpl ch = Some (v, ch1)" using Some by (cases a) auto
  note ok = RecvImpl_ok [OF assms(1) a]
  have ne: "m_recv ch1 \<noteq> m_send ch1" using assms(2) ok(3) by (simp add: same_chan_def)
  show ?thesis
  proof (cases "chan_IsEmpty ch1")
    case True
    then show ?thesis
      using ok(5) ne by (auto simp: TryRecv_def a intro!: still_keeps tails_keep(1) intro: acquire_recv_held)
  next
    case False
    then have "chan_held ch1 s" using ok(5) by (simp add: chan_held_def)
    then show ?thesis using False ok(5) ne by (simp add: TryRecv_def a tails_keep(1))
  qed
qed

lemma Recv_keeps:
  assumes "ring_ok ch" "m_recv ch \<noteq> m_send ch" "chan_held ch s" "c \<noteq> null"
  shows "keeps_held (Recv c x ch s)"
proof (cases "TryRecv c x ch s")
  case None
  then show ?thesis by (simp add: Recv_def)
next
  case (Some r)
  obtain out ch1 s1 where tr: "TryRecv c x ch s = Some (out, ch1, s1)" using Some by (cases r) auto
  show ?thesis
  proof (cases "\<exists>vs. out = Return False vs")
    case True
    then obtain vs where out: "out = Return False vs" by blast
    note e = TryRecv_False [OF tr [unfolded out]]
    have "keeps_held (still c AtRecvLoop ch (Acquire (m_recv ch) c x s) (Recv_loop c x ch))"
    proof (rule still_keeps)
      fix s1 assume aq: "Acquire (m_recv ch) c x s = Some s1"
      have h: "held s1 (m_recv ch)" using Acquire_keeps_held(1) [OF aq] .
      show ch1: "chan_held ch s1" using acquire_recv_held [OF aq] assms by (auto simp: chan_held_def)
      show "keeps_held (Recv_loop c x ch s1)"
        using Recv_round_keeps [OF assms(1,2) h ch1] by (simp add: Recv_loop_round [OF h assms(4)])
    qed
    then show ?thesis using assms tr e by (auto simp: Recv_def out intro: tails_keep)
  next
    case False
    then have "Recv c x ch s = Some (out, ch1, s1)"
      using tr by (cases out) (auto simp: Recv_def split: bool.splits)
    then show ?thesis using TryRecv_keeps [OF assms(1,2,3), of c x] tr by simp
  qed
qed

lemma drain_loop_frame:
  assumes "drain_loop n ch s = Some (vs, ch', s')" "m_recv ch \<noteq> m_send ch"
  shows "held s' (m_recv ch) = held s (m_recv ch) \<and> m_shutdown ch' = m_shutdown ch \<and> (vs = [] \<longrightarrow> ch' = ch \<and> s' = s)"
  using assms
proof (induction n arbitrary: ch s vs)
  case 0
  then show ?case by simp
next
  case (Suc n)
  show ?case
  proof (cases "RecvImpl ch")
    case None
    then show ?thesis using Suc.prems by simp
  next
    case (Some a)
    obtain v ch1 where a: "RecvImpl ch = Some (v, ch1)" using Some by (cases a) auto
    have fr: "m_recv ch1 = m_recv ch" "m_send ch1 = m_send ch" "m_shutdown ch1 = m_shutdown ch"
      using a by (auto simp: RecvImpl_def split: if_splits)
    obtain s1 ws where s1: "(if IsFull ch \<and> held s (m_send ch) then Release (m_send ch) False s else Some s) = Some s1"
      and dl: "drain_loop n ch1 s1 = Some (ws, ch', s')" and vs: "vs = v # ws"
      using Suc.prems(1) by (auto simp: a bind_eq_Some_conv)
    have "held s1 (m_recv ch) = held s (m_recv ch)"
      using s1 Suc.prems(2) Release_held_other [of "m_send ch" False s s1 "m_recv ch"] by (simp split: if_splits)
    then show ?thesis using Suc.IH [OF dl] Suc.prems(2) fr vs by simp
  qed
qed

lemma Drain_keeps:
  assumes "ring_ok ch" "m_recv ch \<noteq> m_send ch" "chan_held ch s"
  shows "keeps_held (Drain c x n ch s)"
proof (cases "chan_IsEmpty ch \<or> drain_loop n ch s = None")
  case True
  then show ?thesis using assms by (auto simp: Drain_def)
next
  case False
  then obtain vs ch1 s1 where dl: "drain_loop n ch s = Some (vs, ch1, s1)" by auto
  note ok = drain_loop_ok [OF dl assms(1)] and fr = drain_loop_frame [OF dl assms(2)]
  have ne: "m_recv ch1 \<noteq> m_send ch1" using ok assms(2) by (simp add: same_chan_def)
  have "m_size ch = length vs + m_size ch1" using ok by (metis length_append length_contents)
  then have "vs \<noteq> [] \<Longrightarrow> \<not> IsFull ch1"
    using ok assms(1) by (cases vs) (auto simp: IsFull_def ring_ok_def same_chan_def)
  then have full: "IsFull ch1 \<longrightarrow> m_shutdown ch1 \<or> held s1 (m_send ch1)"
    using fr assms(3) by (cases "vs = []") (auto simp: chan_held_def)
  have aq: "chan_held ch1 s2" if "Acquire (m_recv ch1) c x s1 = Some s2" for s2
    using acquire_recv_held [OF that ne full] .
  show ?thesis
  proof (cases "chan_IsEmpty ch1 \<and> \<not> m_shutdown ch1")
    case True
    have "keeps_held (still c (AtDrainReturn vs) ch1 (Acquire (m_recv ch1) c x s1) (\<lambda>s2. Some (Return True vs, ch1, s2)))"
      by (rule still_keeps) (simp_all add: aq)
    then show ?thesis using True False dl by (simp add: Drain_def)
  next
    case nonempty: False
    then have "chan_held ch1 s1" using full by (auto simp: chan_held_def)
    then show ?thesis using nonempty False dl by (auto simp: Drain_def)
  qed
qed

subsection \<open>Sending\<close>

lemma TrySend_fast_keeps:
  assumes "ring_ok ch" "SendImpl v ch = Some ch1" "m_recv ch \<noteq> m_send ch"
  shows "keeps_held (if IsFull ch1 then still c AtTrySendRecv ch1 (Acquire (m_send ch1) c x s) (TrySend_recv c ch1)
     else TrySend_recv c ch1 s)"
proof -
  note ok = SendImpl_ok [OF assms(1,2)]
  have ne: "m_recv ch1 \<noteq> m_send ch1" "\<not> chan_IsEmpty ch1"
    using ok assms(3) by (auto simp: same_chan_def IsEmpty_contents)
  show ?thesis
  proof (cases "IsFull ch1")
    case True
    then show ?thesis using ne by (auto intro!: still_keeps tails_keep(3) intro: acquire_send_held)
  next
    case False
    then have "chan_held ch1 s" using ne by (simp add: chan_held_def)
    then show ?thesis using False ne by (simp add: tails_keep(3))
  qed
qed

lemma SendImpl_Some: "\<not> IsFull ch \<Longrightarrow> \<exists>ch1. SendImpl v ch = Some ch1"
  using SendImpl_None [of v ch] by auto

lemma TrySend_keeps:
  assumes "ring_ok ch" "m_recv ch \<noteq> m_send ch" "chan_held ch s"
  shows "keeps_held (TrySend c x v ch s)"
  using assms SendImpl_Some [of ch v] TrySend_fast_keeps [of ch v _ c x s]
  by (cases "m_shutdown ch \<or> IsFull ch") (auto simp: TrySend_def)

lemma SendAcquired_keeps:
  assumes "ring_ok ch" "m_recv ch \<noteq> m_send ch" "held s (m_send ch)" "chan_held ch s"
  shows "keeps_held (SendAcquired c v ch s)"
proof (cases "m_shutdown ch")
  case True
  then show ?thesis using assms by (simp add: SendAcquired_def tails_keep(7))
next
  case False
  show ?thesis
  proof (cases "SendImpl v ch")
    case None
    then show ?thesis using False by (simp add: SendAcquired_def)
  next
    case (Some ch1)
    note ok = SendImpl_ok [OF assms(1) Some]
    have ne: "m_recv ch1 \<noteq> m_send ch1" "\<not> chan_IsEmpty ch1" and ch: "chan_held ch1 s"
      using ok assms(2,3) by (auto simp: same_chan_def IsEmpty_contents chan_held_def)
    then show ?thesis
      using False Some by (auto simp: SendAcquired_def intro!: still_keeps tails_keep(4) intro: release_send_held)
  qed
qed

lemma Send_keeps:
  assumes "ring_ok ch" "m_recv ch \<noteq> m_send ch" "chan_held ch s"
  shows "keeps_held (Send c x v ch s)"
proof (cases "m_shutdown ch \<or> IsFull ch")
  case True
  have empty: "chan_IsEmpty ch \<longrightarrow> m_shutdown ch \<or> held s (m_recv ch)" using assms(3) by (auto simp: chan_held_def)
  have "keeps_held (still c (AtSendGranted v) ch (Acquire (m_send ch) c x s) (SendAcquired c v ch))"
  proof (rule still_keeps)
    fix s1 assume aq: "Acquire (m_send ch) c x s = Some s1"
    show h: "chan_held ch s1" by (rule acquire_send_held [OF aq assms(2) empty])
    show "keeps_held (SendAcquired c v ch s1)"
      by (rule SendAcquired_keeps [OF assms(1,2) Acquire_keeps_held(1) [OF aq] h])
  qed
  moreover have "Send c x v ch s = still c (AtSendGranted v) ch (Acquire (m_send ch) c x s) (SendAcquired c v ch)"
    using True by (auto simp: Send_def)
  ultimately show ?thesis by simp
next
  case False
  then obtain ch1 where ch1: "SendImpl v ch = Some ch1" using SendImpl_Some [of ch v] by auto
  have "Send c x v ch s = (if IsFull ch1 then still c AtTrySendRecv ch1 (Acquire (m_send ch1) c x s) (TrySend_recv c ch1)
     else TrySend_recv c ch1 s)"
    using False by (simp add: Send_def ch1)
  then show ?thesis using TrySend_fast_keeps [OF assms(1) ch1 assms(2), of c x s] by (simp only:)
qed

text \<open>
  A batch: the loop starts under the contract, the rest of an iteration after the acquire that
  found the channel full puts nothing.
\<close>

lemma SendAll_keeps_parts:
  "ring_ok ch \<Longrightarrow> m_recv ch \<noteq> m_send ch \<Longrightarrow> chan_held ch s \<Longrightarrow> keeps_held (SendAll_loop c x vs ch s)"
  "ring_ok ch \<Longrightarrow> m_recv ch \<noteq> m_send ch \<Longrightarrow> keeps_held (all_put c x v vs ch s)"
  "ring_ok ch \<Longrightarrow> m_recv ch \<noteq> m_send ch \<Longrightarrow> \<not> chan_IsEmpty ch \<Longrightarrow> keeps_held (all_full c x vs ch s)"
proof (induction c x vs ch s and c x v vs ch s and c x vs ch s rule: SendAll_loop_all_put_all_full.induct)
  case (1 c x ch s)
  then show ?case by simp
next
  case (2 c x v vs ch s)
  show ?case
  proof (cases "IsFull ch \<and> Acquire (m_send ch) c x s \<noteq> None")
    case True
    then obtain s1 where s1: "Acquire (m_send ch) c x s = Some s1" by auto
    have "chan_held ch s1" using acquire_send_held [OF s1] 2(4,5) by (auto simp: chan_held_def)
    then show ?thesis
      using True s1 2(1) [OF _ s1] 2(3,4) by (simp add: keeps_suspended tails_keep(7))
  next
    case False
    then show ?thesis using 2(2) 2(3,4) by (auto simp: Option.is_none_def)
  qed
next
  case (3 c x v vs ch s)
  show ?case
  proof (cases "SendImpl v ch")
    case (Some ch1)
    note ok = SendImpl_ok [OF 3(3) Some]
    have ne: "m_recv ch1 \<noteq> m_send ch1" "\<not> chan_IsEmpty ch1"
      using ok 3(4) by (auto simp: same_chan_def IsEmpty_contents)
    show ?thesis
    proof (cases "chan_IsEmpty ch \<and> held s (m_recv ch)")
      case True
      then show ?thesis using Some 3(1) [OF Some True] ok(1) ne
        by (cases "Release (m_recv ch) (vs = []) s") (auto simp: keeps_suspended)
    next
      case False
      then show ?thesis using Some 3(2) [OF Some False] ok(1) ne by auto
    qed
  qed simp
next
  case (4 c x vs ch s)
  show ?case
  proof (cases "IsFull ch")
    case True
    show ?thesis
    proof (cases "Acquire (m_send ch) c x s")
      case (Some s1)
      have "chan_held ch s1" using acquire_send_held [OF Some] 4(4,5) by auto
      then show ?thesis using True Some 4(1) [OF True Some] 4(3,4)
        by (auto simp: keeps_suspended)
    qed (simp add: True)
  next
    case False
    then have "chan_held ch s" using 4(5) by (simp add: chan_held_def)
    then show ?thesis using False 4(2) [OF False] 4(3,4) by simp
  qed
qed

lemma Shutdown_keeps:
  assumes "m_recv ch \<noteq> m_send ch" "chan_held ch s"
  shows "keeps_held (Shutdown c ch s)"
proof -
  have "chan_held (ch\<lparr>m_shutdown := True\<rparr>) s1" for s1 by (simp add: chan_held_def)
  then show ?thesis
    using assms by (auto simp: Shutdown_def Let_def intro!: still_keeps tails_keep(5))
qed

section \<open>Properties\<close>



text \<open>
  C25. \<open>Recv\<close> does not spin: its loop, entered with \<open>m_recv\<close> held as every acquire leaves it, runs its body
  once and then returns or is suspended, so the call ends whenever the coordinator calls it makes do.
\<close>

theorem Recv_one_round:
  assumes "c \<noteq> null"
  shows "Recv c x ch s = do {
     (out, ch1, s1) \<leftarrow> TryRecv c x ch s;
     case out of
       Return False vs \<Rightarrow>
         if m_shutdown ch1 then
           (if held s1 (m_recv ch1) then release_return (m_recv ch1) c False [] ch1 s1 else Some (Return False [], ch1, s1))
         else still c AtRecvLoop ch1 (Acquire (m_recv ch1) c x s1) (Recv_round c x ch1)
     | _ \<Rightarrow> Some (out, ch1, s1) }"
proof -
  have "still c AtRecvLoop ch1 (Acquire (m_recv ch1) c x s1) (Recv_loop c x ch1) =
      still c AtRecvLoop ch1 (Acquire (m_recv ch1) c x s1) (Recv_round c x ch1)" for ch1 s1
    by (cases "Acquire (m_recv ch1) c x s1") (simp_all add: still_def Recv_loop_round Acquire_keeps_held(1) assms)
  note loop = this
  show ?thesis unfolding Recv_def loop ..
qed

theorem Recv_one_round_witness:
  "\<exists>ch' s'. (case Channel_new [0::nat] 50 51 two_contexts of (ch, s) \<Rightarrow> Recv 1 301 ch s) = Some (Suspended AtRecvLoop, ch', s') \<and>
     m_scheduled s' = 2"
  by (simp add: Recv_one_round [of "Suc 0"] Channel_new_def TryRecv_def RecvImpl_def chan_IsEmpty_def still_def sched_eval)

text \<open>
  C26. A channel of capacity 0 is no rendezvous: while it is not shut down and its coordinators are held as the
  constructor leaves them, \<open>TrySend\<close> and \<open>TryRecv\<close> fail, \<open>Send\<close> and \<open>Recv\<close> block without handing a value over,
  and both coordinators stay held, so a blocked sender and a blocked receiver never wake each other.
\<close>

theorem zero_capacity_blocks:
  assumes "m_capacity ch = 0" "m_size ch = 0" "\<not> m_shutdown ch" "held s (m_recv ch)" "held s (m_send ch)"
    and "m_recv ch \<noteq> m_send ch" "c \<noteq> null"
  shows "TrySend c x v ch s = Some (Return False [], ch, s) \<and> TryRecv c x ch s = Some (Return False [], ch, s) \<and>
    (\<forall>r. Send c x v ch s = Some r \<longrightarrow>
      (\<exists>s'. r = (Suspended (AtSendGranted v), ch, s') \<and> held s' (m_recv ch) \<and> held s' (m_send ch))) \<and>
    (\<forall>r. Recv c x ch s = Some r \<longrightarrow>
      (\<exists>s'. r = (Suspended AtRecvLoop, ch, s') \<and> held s' (m_recv ch) \<and> held s' (m_send ch)))"
proof (intro conjI allI impI)
  have e: "chan_IsEmpty ch" "IsFull ch" "RecvImpl ch = None" using assms by (auto simp: chan_IsEmpty_def IsFull_def RecvImpl_def)
  show "TrySend c x v ch s = Some (Return False [], ch, s)" using e by (simp add: TrySend_def)
  show tr: "TryRecv c x ch s = Some (Return False [], ch, s)" using e by (simp add: TryRecv_def)
  have blocked: "m_scheduled s1 \<noteq> c \<and> held s1 (m_recv ch) \<and> held s1 (m_send ch)"
    if "Acquire k c x s = Some s1" "k = m_recv ch \<or> k = m_send ch" for k s1
    using Acquire_keeps_held [OF that(1)] Acquire_blocks [OF that(1)] that(2) assms(4-7) by auto
  show "\<exists>s'. r = (Suspended (AtSendGranted v), ch, s') \<and> held s' (m_recv ch) \<and> held s' (m_send ch)"
    if "Send c x v ch s = Some r" for r
  proof -
    have "still c (AtSendGranted v) ch (Acquire (m_send ch) c x s) (SendAcquired c v ch) = Some r"
      using that e(2) by (simp add: Send_def)
    then show ?thesis by (rule still_SomeE) (use blocked [of "m_send ch"] in auto)
  qed
  show "\<exists>s'. r = (Suspended AtRecvLoop, ch, s') \<and> held s' (m_recv ch) \<and> held s' (m_send ch)"
    if "Recv c x ch s = Some r" for r
  proof -
    have "still c AtRecvLoop ch (Acquire (m_recv ch) c x s) (Recv_loop c x ch) = Some r"
      using that tr assms(3) by (simp add: Recv_def)
    then show ?thesis by (rule still_SomeE) (use blocked [of "m_recv ch"] in auto)
  qed
qed

theorem zero_capacity_blocks_witness:
  "\<exists>ch s r. Channel_new ([] :: nat list) 50 51 two_contexts = (ch, s) \<and> Send 1 301 7 ch s = Some r \<and>
     fst r = Suspended (AtSendGranted 7)"
proof -
  obtain ch s where new: "Channel_new ([] :: nat list) 50 51 two_contexts = (ch, s)" by (cases "Channel_new ([] :: nat list) 50 51 two_contexts")
  obtain r where r: "Send 1 301 7 ch s = Some r" using new by (auto simp: sched_eval chan_eval)
  have "m_capacity ch = 0" "m_size ch = 0" "\<not> m_shutdown ch" "held s (m_recv ch)" "held s (m_send ch)" "m_recv ch \<noteq> m_send ch"
    using new by (auto simp: Channel_new_def set_coord_def)
  then have "\<exists>s'. r = (Suspended (AtSendGranted 7), ch, s')"
    using zero_capacity_blocks [of ch s 1 301 7] r by (metis one_neq_zero)
  then show ?thesis using new r by auto
qed

text \<open>
  C27. The window \<open>Drain\<close> opens: it releases \<open>m_send\<close> to a blocked sender without running it. When the drainer
  then sends itself, it fills the buffer first and blocks inside \<open>TrySend\<close>, and the woken sender finds the
  channel full, so its \<open>assert(sent)\<close> fails.
\<close>

definition drain_window :: "nat cact list" where
  "drain_window = [Call 1 301 (CallSend 1), Others (\<lambda>s. the (YieldFrom 1 \<lparr>HasPendingSubmissions = False, HasPendingCompletions = False,
       m_hasSubmissions = False\<rparr> [] s)), Call 2 302 (CallSend 2), Call 1 301 (CallDrain 1), Call 1 301 (CallTrySend 3)]"


end
