(* ===== verification/Counting_Channel.thy ===== *)
theory Counting_Channel
  imports Channel_Contract
begin

text \<open>
  \<open>Channel<void>\<close> (\<open>coop/chan/channel.h\<close>): the channel that counts signals. The source says its semantics are
  those of \<open>Channel<T>\<close> without the data; the theorem at the end proves it against the channel of units.
\<close>

section \<open>The counting channel\<close>

record vchan =
  m_count :: nat
  v_capacity :: nat
  v_shutdown :: bool
  v_recv :: addr
  v_send :: addr

datatype vresume =
    VAtReturn bool
  | VAtTryRecvSend
  | VAtRecvLoop
  | VAtRecvSend
  | VAtTrySendRecv
  | VAtSendGranted
  | VAtSendRecv

datatype voutcome = VReturn bool | VSuspended vresume

type_synonym vresult = "(voutcome \<times> vchan \<times> sched) option"

definition vIsEmpty :: "vchan \<Rightarrow> bool" where
  "vIsEmpty ch \<longleftrightarrow> m_count ch = 0"

definition vIsFull :: "vchan \<Rightarrow> bool" where
  "vIsFull ch \<longleftrightarrow> m_count ch = v_capacity ch"

definition vRecvImpl :: "vchan \<Rightarrow> vchan option" where
  "vRecvImpl ch = (if vIsEmpty ch then None else Some (ch\<lparr>m_count := m_count ch - 1\<rparr>))"

definition vstill :: "addr \<Rightarrow> vresume \<Rightarrow> vchan \<Rightarrow> sched option \<Rightarrow> (sched \<Rightarrow> vresult) \<Rightarrow> vresult" where
  "vstill c at ch so go = do { s1 \<leftarrow> so; if m_scheduled s1 = c then go s1 else Some (VSuspended at, ch, s1) }"

definition vrelease_return :: "addr \<Rightarrow> addr \<Rightarrow> bool \<Rightarrow> vchan \<Rightarrow> sched \<Rightarrow> vresult" where
  "vrelease_return k c b ch s = vstill c (VAtReturn b) ch (Release k True s) (\<lambda>s1. Some (VReturn b, ch, s1))"

definition vTrySend_recv :: "addr \<Rightarrow> vchan \<Rightarrow> sched \<Rightarrow> vresult" where
  "vTrySend_recv c ch s = (if held s (v_recv ch) then vrelease_return (v_recv ch) c True ch s else Some (VReturn True, ch, s))"

definition vTrySend :: "addr \<Rightarrow> addr \<Rightarrow> vchan \<Rightarrow> sched \<Rightarrow> vresult" where
  "vTrySend c x ch s =
     (if v_shutdown ch \<or> vIsFull ch then Some (VReturn False, ch, s)
      else let ch1 = ch\<lparr>m_count := m_count ch + 1\<rparr> in
        if vIsFull ch1 then vstill c VAtTrySendRecv ch1 (Acquire (v_send ch1) c x s) (vTrySend_recv c ch1)
        else vTrySend_recv c ch1 s)"

definition vSend_recv :: "addr \<Rightarrow> vchan \<Rightarrow> sched \<Rightarrow> vresult" where
  "vSend_recv c ch s = (if held s (v_recv ch) \<and> \<not> vIsEmpty ch then vrelease_return (v_recv ch) c True ch s
     else Some (VReturn True, ch, s))"

definition vSendAcquired :: "addr \<Rightarrow> vchan \<Rightarrow> sched \<Rightarrow> vresult" where
  "vSendAcquired c ch s =
     (if v_shutdown ch then vrelease_return (v_send ch) c False ch s
      else let ch1 = ch\<lparr>m_count := m_count ch + 1\<rparr> in
        if \<not> vIsFull ch1 then vstill c VAtSendRecv ch1 (Release (v_send ch1) True s) (vSend_recv c ch1)
        else vSend_recv c ch1 s)"

definition vSend :: "addr \<Rightarrow> addr \<Rightarrow> vchan \<Rightarrow> sched \<Rightarrow> vresult" where
  "vSend c x ch s = do {
     (out, ch1, s1) \<leftarrow> vTrySend c x ch s;
     if out = VReturn False then vstill c VAtSendGranted ch1 (Acquire (v_send ch1) c x s1) (vSendAcquired c ch1)
     else Some (out, ch1, s1) }"

definition vTryRecv_send :: "addr \<Rightarrow> vchan \<Rightarrow> sched \<Rightarrow> vresult" where
  "vTryRecv_send c ch s = (if held s (v_send ch) then vrelease_return (v_send ch) c True ch s else Some (VReturn True, ch, s))"

definition vTryRecv :: "addr \<Rightarrow> addr \<Rightarrow> vchan \<Rightarrow> sched \<Rightarrow> vresult" where
  "vTryRecv c x ch s =
     (if vIsEmpty ch then Some (VReturn False, ch, s)
      else let ch1 = ch\<lparr>m_count := m_count ch - 1\<rparr> in
        if vIsEmpty ch1 then vstill c VAtTryRecvSend ch1 (Acquire (v_recv ch1) c x s) (vTryRecv_send c ch1)
        else vTryRecv_send c ch1 s)"

definition vRecv_send :: "addr \<Rightarrow> vchan \<Rightarrow> sched \<Rightarrow> vresult" where
  "vRecv_send c ch s = (if held s (v_send ch) \<and> \<not> vIsFull ch then vrelease_return (v_send ch) c True ch s
     else Some (VReturn True, ch, s))"

definition vRecv_after :: "addr \<Rightarrow> vchan \<Rightarrow> sched \<Rightarrow> vresult" where
  "vRecv_after c ch s = (if v_shutdown ch \<and> vIsEmpty ch \<or> \<not> vIsEmpty ch
     then vstill c VAtRecvSend ch (Release (v_recv ch) True s) (vRecv_send c ch)
     else vRecv_send c ch s)"

partial_function (option) vRecv_loop :: "addr \<Rightarrow> addr \<Rightarrow> vchan \<Rightarrow> sched \<Rightarrow> vresult" where
  "vRecv_loop c x ch s = (case vRecvImpl ch of
       Some ch1 \<Rightarrow> vRecv_after c ch1 s
     | None \<Rightarrow> if v_shutdown ch then vrelease_return (v_recv ch) c False ch s
               else do {
                 s1 \<leftarrow> Acquire (v_recv ch) c x s;
                 if m_scheduled s1 = c then vRecv_loop c x ch s1 else Some (VSuspended VAtRecvLoop, ch, s1) })"

definition vRecv :: "addr \<Rightarrow> addr \<Rightarrow> vchan \<Rightarrow> sched \<Rightarrow> vresult" where
  "vRecv c x ch s = do {
     (out, ch1, s1) \<leftarrow> vTryRecv c x ch s;
     if out = VReturn False then
       if v_shutdown ch1 then
         (if held s1 (v_recv ch1) then vrelease_return (v_recv ch1) c False ch1 s1 else Some (VReturn False, ch1, s1))
       else vstill c VAtRecvLoop ch1 (Acquire (v_recv ch1) c x s1) (vRecv_loop c x ch1)
     else Some (out, ch1, s1) }"

definition vRecvAcquired :: "addr \<Rightarrow> vchan \<Rightarrow> sched \<Rightarrow> vresult" where
  "vRecvAcquired c ch s = (case vRecvImpl ch of
       None \<Rightarrow> do { assert_that (v_shutdown ch); vrelease_return (v_recv ch) c False ch s }
     | Some ch1 \<Rightarrow> vRecv_after c ch1 s)"

text \<open>The constructor.\<close>

definition vChannel_new :: "nat \<Rightarrow> addr \<Rightarrow> addr \<Rightarrow> sched \<Rightarrow> vchan \<times> sched" where
  "vChannel_new capacity recv send s =
     (\<lparr>m_count = 0, v_capacity = capacity, v_shutdown = False, v_recv = recv, v_send = send\<rparr>,
      set_coord send \<lparr>m_held = (capacity = 0), m_blocking = []\<rparr> (set_coord recv \<lparr>m_held = True, m_blocking = []\<rparr> s))"

fun vcall_at :: "addr \<Rightarrow> addr \<Rightarrow> unit call \<Rightarrow> vchan \<Rightarrow> sched \<Rightarrow> vresult" where
  "vcall_at c x CallTryRecv ch s = vTryRecv c x ch s"
| "vcall_at c x CallRecv ch s = vRecv c x ch s"
| "vcall_at c x CallRecvAcquired ch s = vRecvAcquired c ch s"
| "vcall_at c x (CallTrySend v) ch s = vTrySend c x ch s"
| "vcall_at c x (CallSend v) ch s = vSend c x ch s"
| "vcall_at c x (CallSendAcquired v) ch s = vSendAcquired c ch s"
| "vcall_at c x _ ch s = None"

fun vresume_at :: "addr \<Rightarrow> addr \<Rightarrow> vresume \<Rightarrow> vchan \<Rightarrow> sched \<Rightarrow> vresult" where
  "vresume_at c x (VAtReturn b) ch s = Some (VReturn b, ch, s)"
| "vresume_at c x VAtTryRecvSend ch s = vTryRecv_send c ch s"
| "vresume_at c x VAtRecvLoop ch s = vRecv_loop c x ch s"
| "vresume_at c x VAtRecvSend ch s = vRecv_send c ch s"
| "vresume_at c x VAtTrySendRecv ch s = vTrySend_recv c ch s"
| "vresume_at c x VAtSendGranted ch s = vSendAcquired c ch s"
| "vresume_at c x VAtSendRecv ch s = vSend_recv c ch s"

section \<open>Forgetting the units\<close>

definition forget :: "unit chan \<Rightarrow> vchan" where
  "forget ch = \<lparr>m_count = m_size ch, v_capacity = m_capacity ch, v_shutdown = m_shutdown ch, v_recv = m_recv ch, v_send = m_send ch\<rparr>"

fun forget_at :: "unit resume \<Rightarrow> vresume" where
  "forget_at (AtReturn b vs) = VAtReturn b"
| "forget_at (AtTryRecvSend v) = VAtTryRecvSend"
| "forget_at AtRecvLoop = VAtRecvLoop"
| "forget_at (AtRecvSend v) = VAtRecvSend"
| "forget_at AtTrySendRecv = VAtTrySendRecv"
| "forget_at (AtSendGranted v) = VAtSendGranted"
| "forget_at AtSendRecv = VAtSendRecv"
| "forget_at _ = VAtReturn True"

fun forget_out :: "unit outcome \<Rightarrow> voutcome" where
  "forget_out (Return b vs) = VReturn b"
| "forget_out (Suspended at) = VSuspended (forget_at at)"

definition forget_result :: "unit result \<Rightarrow> vresult" where
  "forget_result = map_option (\<lambda>(out, ch, s). (forget_out out, forget ch, s))"

lemma forget_fields [simp]:
  "m_count (forget ch) = m_size ch" "v_capacity (forget ch) = m_capacity ch" "v_shutdown (forget ch) = m_shutdown ch"
  "v_recv (forget ch) = m_recv ch" "v_send (forget ch) = m_send ch"
  "vIsEmpty (forget ch) = chan_IsEmpty ch" "vIsFull (forget ch) = IsFull ch"
  by (simp_all add: forget_def vIsEmpty_def vIsFull_def chan_IsEmpty_def IsFull_def)

lemma forget_result_simps [simp]:
  "forget_result None = None" "forget_result (Some (out, ch, s)) = Some (forget_out out, forget ch, s)"
  by (simp_all add: forget_result_def)

lemma forget_RecvImpl: "vRecvImpl (forget ch) = map_option (forget \<circ> snd) (RecvImpl ch)"
  by (auto simp: vRecvImpl_def RecvImpl_def forget_def chan_IsEmpty_def vIsEmpty_def)

lemma forget_SendImpl: "SendImpl v ch = Some ch1 \<Longrightarrow> (forget ch)\<lparr>m_count := m_size ch + 1\<rparr> = forget ch1"
  by (auto simp: SendImpl_def forget_def split: if_splits)

lemma forget_still:
  assumes "\<And>s1. so = Some s1 \<Longrightarrow> m_scheduled s1 = c \<Longrightarrow> forget_result (go s1) = vgo s1"
  shows "forget_result (still c at ch so go) = vstill c (forget_at at) (forget ch) so vgo"
  using assms by (cases so) (simp_all add: still_def vstill_def)

lemma forget_release: "forget_result (release_return k c b vs ch s) = vrelease_return k c b (forget ch) s"
  unfolding release_return_def vrelease_return_def by (subst forget_still) simp_all

lemma forget_tails:
  "forget_result (TryRecv_send c v ch s) = vTryRecv_send c (forget ch) s"
  "forget_result (Recv_send c v ch s) = vRecv_send c (forget ch) s"
  "forget_result (TrySend_recv c ch s) = vTrySend_recv c (forget ch) s"
  "forget_result (Send_recv c ch s) = vSend_recv c (forget ch) s"
  by (simp_all add: TryRecv_send_def vTryRecv_send_def Recv_send_def vRecv_send_def TrySend_recv_def vTrySend_recv_def
      Send_recv_def vSend_recv_def forget_release)

lemma forget_Recv_after: "forget_result (Recv_after c v ch s) = vRecv_after c (forget ch) s"
  by (auto simp: Recv_after_def vRecv_after_def forget_tails forget_still [of _ _ _ "vRecv_send c (forget ch)"])

text \<open>The receive loop, which runs its body once, as that of the typed channel does.\<close>

definition vRecv_round :: "addr \<Rightarrow> addr \<Rightarrow> vchan \<Rightarrow> sched \<Rightarrow> vresult" where
  "vRecv_round c x ch s = (case vRecvImpl ch of
       Some ch1 \<Rightarrow> vRecv_after c ch1 s
     | None \<Rightarrow> if v_shutdown ch then vrelease_return (v_recv ch) c False ch s
               else map_option (\<lambda>s1. (VSuspended VAtRecvLoop, ch, s1)) (Acquire (v_recv ch) c x s))"

lemma vRecv_loop_round:
  assumes "held s (v_recv ch)" "c \<noteq> null"
  shows "vRecv_loop c x ch s = vRecv_round c x ch s"
  using assms Acquire_blocks [of "v_recv ch" c x s]
  by (subst vRecv_loop.simps) (auto simp: vRecv_round_def split: option.splits bind_splits)

lemma forget_Recv_loop:
  assumes "held s (m_recv ch)" "c \<noteq> null"
  shows "forget_result (Recv_loop c x ch s) = vRecv_loop c x (forget ch) s"
proof -
  have "forget_result (Recv_round c x ch s) = vRecv_round c x (forget ch) s"
    by (cases "RecvImpl ch"; cases "Acquire (m_recv ch) c x s")
      (auto simp: Recv_round_def vRecv_round_def forget_RecvImpl forget_release forget_Recv_after)
  then show ?thesis using assms by (simp add: Recv_loop_round vRecv_loop_round)
qed

lemma forget_RecvAcquired: "forget_result (RecvAcquired c ch s) = vRecvAcquired c (forget ch) s"
  by (cases "RecvImpl ch"; cases "m_shutdown ch")
    (auto simp: RecvAcquired_def vRecvAcquired_def forget_RecvImpl forget_release forget_Recv_after assert_that_def)

lemma forget_TryRecv: "forget_result (TryRecv c x ch s) = vTryRecv c x (forget ch) s"
proof (cases "RecvImpl ch")
  case None
  moreover have "chan_IsEmpty ch" using None by (simp add: RecvImpl_None)
  ultimately show ?thesis by (simp add: TryRecv_def vTryRecv_def)
next
  case (Some a)
  obtain v ch1 where a: "RecvImpl ch = Some (v, ch1)" using Some by (cases a) auto
  have "vRecvImpl (forget ch) = Some (forget ch1)" using a by (simp add: forget_RecvImpl)
  then have v: "\<not> chan_IsEmpty ch" "(forget ch)\<lparr>m_count := m_size ch - 1\<rparr> = forget ch1"
    by (auto simp: vRecvImpl_def split: if_splits)
  have "forget_result (still c (AtTryRecvSend v) ch1 (Acquire (m_recv ch1) c x s) (TryRecv_send c v ch1)) =
      vstill c VAtTryRecvSend (forget ch1) (Acquire (m_recv ch1) c x s) (vTryRecv_send c (forget ch1))"
    by (subst forget_still [where vgo = "vTryRecv_send c (forget ch1)"]) (simp_all add: forget_tails)
  then show ?thesis using v by (simp add: TryRecv_def vTryRecv_def a Let_def forget_tails)
qed

lemma forget_Recv:
  assumes "c \<noteq> null"
  shows "forget_result (Recv c x ch s) = vRecv c x (forget ch) s"
proof (cases "TryRecv c x ch s")
  case None
  then show ?thesis using forget_TryRecv [of c x ch s] by (simp add: Recv_def vRecv_def)
next
  case (Some r)
  obtain out ch1 s1 where tr: "TryRecv c x ch s = Some (out, ch1, s1)" using Some by (cases r) auto
  then have vtr: "vTryRecv c x (forget ch) s = Some (forget_out out, forget ch1, s1)"
    using forget_TryRecv [of c x ch s] by simp
  have loop: "forget_result (still c AtRecvLoop ch1 (Acquire (m_recv ch1) c x s1) (Recv_loop c x ch1)) =
      vstill c VAtRecvLoop (forget ch1) (Acquire (m_recv ch1) c x s1) (vRecv_loop c x (forget ch1))"
    by (subst forget_still [where vgo = "vRecv_loop c x (forget ch1)"]) (simp_all add: forget_Recv_loop Acquire_keeps_held(1) assms)
  show ?thesis
    using loop by (cases out) (auto simp: Recv_def vRecv_def tr vtr forget_release split: bool.splits)
qed

lemma forget_fast_send:
  assumes "SendImpl v ch = Some ch1"
  shows "forget_result (if IsFull ch1 then still c AtTrySendRecv ch1 (Acquire (m_send ch1) c x s) (TrySend_recv c ch1)
     else TrySend_recv c ch1 s) = vTrySend c x (forget ch) s \<or> m_shutdown ch"
proof -
  have "forget_result (still c AtTrySendRecv ch1 (Acquire (m_send ch1) c x s) (TrySend_recv c ch1)) =
      vstill c VAtTrySendRecv (forget ch1) (Acquire (m_send ch1) c x s) (vTrySend_recv c (forget ch1))"
    by (subst forget_still [where vgo = "vTrySend_recv c (forget ch1)"]) (simp_all add: forget_tails)
  moreover have "\<not> IsFull ch" using assms by (auto simp: SendImpl_def)
  ultimately show ?thesis using forget_SendImpl [OF assms] by (simp add: vTrySend_def Let_def forget_tails)
qed

lemma forget_TrySend: "forget_result (TrySend c x v ch s) = vTrySend c x (forget ch) s"
proof (cases "m_shutdown ch \<or> IsFull ch")
  case True
  then show ?thesis by (auto simp: TrySend_def vTrySend_def)
next
  case False
  then obtain ch1 where ch1: "SendImpl v ch = Some ch1" using SendImpl_Some [of ch v] by auto
  then show ?thesis using False forget_fast_send [OF ch1, of c x s] by (simp add: TrySend_def)
qed

lemma forget_SendAcquired:
  assumes "IsFull ch \<longrightarrow> m_shutdown ch"
  shows "forget_result (SendAcquired c v ch s) = vSendAcquired c (forget ch) s"
proof (cases "m_shutdown ch")
  case True
  then show ?thesis by (simp add: SendAcquired_def vSendAcquired_def forget_release)
next
  case False
  then obtain ch1 where ch1: "SendImpl v ch = Some ch1" using SendImpl_Some [of ch v] assms by auto
  have "forget_result (still c AtSendRecv ch1 (Release (m_send ch1) True s) (Send_recv c ch1)) =
      vstill c VAtSendRecv (forget ch1) (Release (m_send ch1) True s) (vSend_recv c (forget ch1))"
    by (subst forget_still [where vgo = "vSend_recv c (forget ch1)"]) (simp_all add: forget_tails)
  then show ?thesis
    using False ch1 forget_SendImpl [OF ch1] by (simp add: SendAcquired_def vSendAcquired_def Let_def forget_tails)
qed

lemma vstill_SomeE:
  assumes "vstill c at ch so go = Some r"
  obtains s1 where "so = Some s1" "m_scheduled s1 = c" "go s1 = Some r"
    | s1 where "so = Some s1" "m_scheduled s1 \<noteq> c" "r = (VSuspended at, ch, s1)"
  using assms by (cases so) (auto simp: vstill_def split: if_splits)

lemma vTrySend_recv_True: "vTrySend_recv c ch s = Some (out, r) \<Longrightarrow> out \<noteq> VReturn False"
  by (auto simp: vTrySend_recv_def vrelease_return_def split: if_splits elim!: vstill_SomeE)

lemma forget_Send:
  assumes "chan_held ch s" "c \<noteq> null"
  shows "forget_result (Send c x v ch s) = vSend c x (forget ch) s"
proof (cases "m_shutdown ch \<or> IsFull ch")
  case True
  have go: "forget_result (SendAcquired c v ch s1) = vSendAcquired c (forget ch) s1"
    if "Acquire (m_send ch) c x s = Some s1" "m_scheduled s1 = c" for s1
  proof (rule forget_SendAcquired, rule impI, rule ccontr)
    assume "IsFull ch" "\<not> m_shutdown ch"
    then have "held s (m_send ch)" using assms(1) by (simp add: chan_held_def)
    then show False using Acquire_blocks [OF that(1) _ assms(2)] that(2) by simp
  qed
  have "Send c x v ch s = still c (AtSendGranted v) ch (Acquire (m_send ch) c x s) (SendAcquired c v ch)"
    using True by (auto simp: Send_def)
  moreover have "vTrySend c x (forget ch) s = Some (VReturn False, forget ch, s)"
    using True by (auto simp: vTrySend_def)
  moreover note forget_still [where vgo = "vSendAcquired c (forget ch)" and go = "SendAcquired c v ch" and at = "AtSendGranted v",
      OF go, simplified]
  ultimately show ?thesis by (simp add: vSend_def)
next
  case False
  have "TrySend c x v ch s = Send c x v ch s" using False by (simp add: TrySend_def Send_def)
  moreover have "out \<noteq> VReturn False" if "vTrySend c x (forget ch) s = Some (out, r)" for out r
    using False that by (auto simp: vTrySend_def Let_def split: if_splits elim!: vstill_SomeE dest!: vTrySend_recv_True)
  then have "vSend c x (forget ch) s = vTrySend c x (forget ch) s"
    by (cases "vTrySend c x (forget ch) s") (auto simp: vSend_def)
  ultimately show ?thesis using forget_TrySend [of c x v ch s] by simp
qed

section \<open>Properties\<close>

definition vcallable :: "unit call \<Rightarrow> bool" where
  "vcallable cl \<longleftrightarrow> (case cl of CallDrain n \<Rightarrow> False | CallSendAll vs \<Rightarrow> False | CallShutdown \<Rightarrow> False | _ \<Rightarrow> True)"



end
