(* ===== verification/Ws_Hash.thy ===== *)
theory Ws_Hash
  imports Coop_Prelude
begin

unbundle bit_operations_syntax

text \<open>
  The hash of the WebSocket handshake (\<open>coop/ws/sha1.h\<close>): the incremental SHA-1 with its 64-byte buffer, the
  Base64 encoder, and \<open>ComputeAcceptKey\<close>. The incremental hash is shown equal to the hash of the whole padded message,
  and a decoder recovers what the encoder encodes.
\<close>

section \<open>SHA-1\<close>

record SHA1 =
  state :: "32 word list"
  count :: "64 word"
  buffer :: "u8 list"

definition Init :: SHA1 where
  "Init = \<lparr>state = [0x67452301, 0xEFCDAB89, 0x98BADCFE, 0x10325476, 0xC3D2E1F0], count = 0, buffer = replicate 64 0\<rparr>"

definition RotL :: "32 word \<Rightarrow> nat \<Rightarrow> 32 word" where
  "RotL v n = push_bit n v OR drop_bit (32 - n) v"

text \<open>The message schedule: sixteen words of the block, and the words computed from them.\<close>

definition word_at :: "u8 list \<Rightarrow> nat \<Rightarrow> 32 word" where
  "word_at block i = push_bit 24 (ucast (block ! (i * 4))) OR push_bit 16 (ucast (block ! (i * 4 + 1)))
     OR push_bit 8 (ucast (block ! (i * 4 + 2))) OR ucast (block ! (i * 4 + 3))"

fun expand :: "nat \<Rightarrow> 32 word list \<Rightarrow> 32 word list" where
  "expand 0 w = w"
| "expand (Suc n) w = (let i = length w in
     expand n (w @ [RotL (w ! (i - 3) XOR w ! (i - 8) XOR w ! (i - 14) XOR w ! (i - 16)) 1]))"

definition schedule :: "u8 list \<Rightarrow> 32 word list" where
  "schedule block = expand 64 (map (word_at block) [0..<16])"

type_synonym regs = "32 word \<times> 32 word \<times> 32 word \<times> 32 word \<times> 32 word"

definition sha_round :: "nat \<times> 32 word \<Rightarrow> regs \<Rightarrow> regs" where
  "sha_round = (\<lambda>(i, wi) (a, b, c, d, e).
     let (f, k) = (if i < 20 then ((b AND c) OR (NOT b AND d), 0x5A827999)
                   else if i < 40 then (b XOR c XOR d, 0x6ED9EBA1)
                   else if i < 60 then ((b AND c) OR (b AND d) OR (c AND d), 0x8F1BBCDC)
                   else (b XOR c XOR d, 0xCA62C1D6));
         t = RotL a 5 + f + e + k + wi
     in (t, a, RotL b 30, c, d))"

text \<open>The effect of \<open>Transform\<close> on the five state words.\<close>

definition compress :: "32 word list \<Rightarrow> u8 list \<Rightarrow> 32 word list" where
  "compress st block = (case fold sha_round (enumerate 0 (schedule block)) (st ! 0, st ! 1, st ! 2, st ! 3, st ! 4) of
     (a, b, c, d, e) \<Rightarrow> [st ! 0 + a, st ! 1 + b, st ! 2 + c, st ! 3 + d, st ! 4 + e])"

definition Transform :: "SHA1 \<Rightarrow> SHA1" where
  "Transform s = s\<lparr>state := compress (state s) (buffer s)\<rparr>"

text \<open>
  The loop of \<open>Update\<close>. Its index is that of the next free byte of the buffer, below 64 whenever the loop tests its
  condition; the guard on it only makes the recursion well-founded.
\<close>

function Update_loop :: "nat \<Rightarrow> u8 list \<Rightarrow> SHA1 \<Rightarrow> SHA1" where
  "Update_loop idx p s =
     (if p = [] \<or> 64 \<le> idx then s
      else let n = min (length p) (64 - idx);
               s1 = s\<lparr>buffer := memcpy (buffer s) idx (take n p)\<rparr>
           in if idx + n = 64 then Update_loop 0 (drop n p) (Transform s1)
              else Update_loop (idx + n) (drop n p) s1)"
  by pat_completeness auto
termination
  by (relation "measure (\<lambda>(idx, p, s). length p)") (auto simp: min_def)

declare Update_loop.simps [simp del]

definition Update :: "u8 list \<Rightarrow> SHA1 \<Rightarrow> SHA1" where
  "Update p s = Update_loop (unat (count s AND 63)) p (s\<lparr>count := count s + of_nat (length p)\<rparr>)"

lemma Update_loop_count [simp]: "count (Update_loop idx p s) = count s"
proof (induction idx p s rule: Update_loop.induct)
  case (1 idx p s)
  then show ?case
    by (subst Update_loop.simps) (auto simp: Let_def Transform_def)
qed

lemma count_Update [simp]: "count (Update p s) = count s + of_nat (length p)"
  by (simp add: Update_def)

text \<open>How many zero bytes \<open>Final\<close> still has to add.\<close>

lemma and_63: "unat (w AND 63 :: 64 word) = unat w mod 64"
proof -
  have "w AND 63 = take_bit 6 w" by (simp only: take_bit_eq_mask) (simp add: mask_eq_exp_minus_1)
  then have "unat (w AND 63) = take_bit 6 (unat w)" by (simp only: unsigned_take_bit_eq)
  then show ?thesis by (simp add: take_bit_eq_mod)
qed

lemma unat_Suc_mod: "unat (w + 1 :: 64 word) mod 64 = (unat w + 1) mod 64"
  by (simp add: unat_word_ariths mod_mod_cancel)

definition pad_left :: "64 word \<Rightarrow> nat" where
  "pad_left n = (120 - unat n mod 64) mod 64"

lemma pad_arith:
  assumes "m < 64" "m \<noteq> (56::nat)"
  shows "(120 - m) mod 64 = Suc ((120 - (m + 1) mod 64) mod 64)"
proof -
  have "\<forall>m \<in> set [0..<64]. m \<noteq> 56 \<longrightarrow> (120 - m) mod 64 = Suc ((120 - (m + 1) mod 64) mod (64::nat))"
    by code_simp
  then show ?thesis using assms by simp
qed

lemma pad_left_step:
  assumes "n AND 63 \<noteq> 56"
  shows "pad_left n = Suc (pad_left (n + 1))"
proof -
  have "unat (n AND 63) \<noteq> unat (56 :: 64 word)" using assms by (simp only: word_unat_eq_iff not_False_eq_True)
  then have "unat n mod 64 \<noteq> 56" by (simp add: and_63)
  then have "(120 - unat n mod 64) mod 64 = Suc ((120 - (unat n mod 64 + 1) mod 64) mod 64)"
    by (intro pad_arith) simp_all
  then show ?thesis by (simp only: pad_left_def unat_Suc_mod mod_add_left_eq)
qed

function Final_pad :: "SHA1 \<Rightarrow> SHA1" where
  "Final_pad s = (if count s AND 63 \<noteq> 56 then Final_pad (Update [0] s) else s)"
  by pat_completeness auto
termination
  by (relation "measure (\<lambda>s. pad_left (count s))") (simp_all add: pad_left_step)

declare Final_pad.simps [simp del]

text \<open>The length in bits, most significant byte first.\<close>

fun lenBE :: "nat \<Rightarrow> 64 word \<Rightarrow> u8 list" where
  "lenBE 0 bits = []"
| "lenBE (Suc i) bits = lenBE i (drop_bit 8 bits) @ [ucast bits]"

definition digest :: "32 word list \<Rightarrow> u8 list" where
  "digest st = concat (map (\<lambda>w. [ucast (drop_bit 24 w), ucast (drop_bit 16 w), ucast (drop_bit 8 w), ucast w]) st)"

definition Final :: "SHA1 \<Rightarrow> u8 list" where
  "Final s = (let bits = count s * 8; s1 = Update [0x80] s; s2 = Final_pad s1 in digest (state (Update (lenBE 8 bits) s2)))"

section \<open>Base64\<close>

definition kTable :: string where
  "kTable = ''ABCDEFGHIJKLMNOPQRSTUVWXYZabcdefghijklmnopqrstuvwxyz0123456789+/''"

definition sextet :: "32 word \<Rightarrow> nat \<Rightarrow> char" where
  "sextet v n = kTable ! unat (drop_bit n v AND 0x3F)"

fun Base64Encode :: "u8 list \<Rightarrow> string" where
  "Base64Encode (a # b # c # src) =
     (let v = push_bit 16 (ucast a) OR push_bit 8 (ucast b) OR ucast c
      in [sextet v 18, sextet v 12, sextet v 6, sextet v 0] @ Base64Encode src)"
| "Base64Encode [a, b] =
     (let v = push_bit 16 (ucast a) OR push_bit 8 (ucast b) in [sextet v 18, sextet v 12, sextet v 6, CHR ''=''])"
| "Base64Encode [a] =
     (let v = push_bit 16 (ucast a) in [sextet v 18, sextet v 12, CHR ''='', CHR ''=''])"
| "Base64Encode [] = []"

section \<open>The accept key\<close>

definition kGUID :: string where
  "kGUID = ''258EAFA5-E914-47DA-95CA-5AB5DC65C37B''"

definition bytes_of :: "string \<Rightarrow> u8 list" where
  "bytes_of s = map (\<lambda>c. of_nat (of_char c)) s"

definition ComputeAcceptKey :: "string \<Rightarrow> string" where
  "ComputeAcceptKey clientKey = Base64Encode (Final (Update (bytes_of kGUID) (Update (bytes_of clientKey) Init)))"

section \<open>The hash of a whole message\<close>

text \<open>
  The message as FIPS 180-4 pads it: a one bit, zeros up to 56 bytes modulo 64, and the length in bits; and the
  blocks of 64 bytes it is cut into.
\<close>

function blocks :: "u8 list \<Rightarrow> u8 list list" where
  "blocks m = (if length m < 64 then [] else take 64 m # blocks (drop 64 m))"
  by pat_completeness auto
termination
  by (relation "measure length") auto

declare blocks.simps [simp del]

definition tail_of :: "u8 list \<Rightarrow> u8 list" where
  "tail_of m = drop (64 * (length m div 64)) m"

definition padded :: "u8 list \<Rightarrow> u8 list" where
  "padded m = m @ [0x80] @ replicate (pad_left (of_nat (length m + 1))) 0 @ lenBE 8 (of_nat (length m) * 8)"

definition sha1 :: "u8 list \<Rightarrow> u8 list" where
  "sha1 m = digest (foldl compress (state Init) (blocks (padded m)))"

lemma length_tail_of [simp]: "length (tail_of m) = length m mod 64"
  by (simp add: tail_of_def minus_mult_div_eq_mod)

lemma tail_of_step: "64 \<le> length m \<Longrightarrow> tail_of m = tail_of (drop 64 m)"
  by (simp add: tail_of_def le_div_geq add.commute)

lemma tail_of_short: "length m < 64 \<Longrightarrow> tail_of m = m"
  by (simp add: tail_of_def)

lemma blocks_short: "length m < 64 \<Longrightarrow> blocks m = []"
  by (simp add: blocks.simps)

text \<open>Bytes that do not fill the last block join its beginning; bytes that do complete it.\<close>

lemma blocks_append_short:
  "length (tail_of m) + length q < 64 \<Longrightarrow> blocks (m @ q) = blocks m \<and> tail_of (m @ q) = tail_of m @ q"
proof (induction m rule: blocks.induct)
  case (1 m)
  show ?case
  proof (cases "length m < 64")
    case True
    then have "length (m @ q) < 64" using 1(2) by (simp add: tail_of_short)
    then show ?thesis using True by (simp add: blocks_short tail_of_short)
  next
    case False
    then show ?thesis using 1 tail_of_step [of m] tail_of_step [of "m @ q"]
      by (simp add: blocks.simps [of m] blocks.simps [of "m @ q"])
  qed
qed

lemma blocks_append_full:
  "length (tail_of m) + length q = 64 \<Longrightarrow> blocks (m @ q) = blocks m @ [tail_of m @ q] \<and> tail_of (m @ q) = []"
proof (induction m rule: blocks.induct)
  case (1 m)
  show ?case
  proof (cases "length m < 64")
    case True
    then have "length (m @ q) = 64" using 1(2) by (simp add: tail_of_short)
    then show ?thesis using True tail_of_step [of "m @ q"]
      by (simp add: blocks.simps [of "m @ q"] blocks_short tail_of_short)
  next
    case False
    then show ?thesis using 1 tail_of_step [of m] tail_of_step [of "m @ q"]
      by (simp add: blocks.simps [of m] blocks.simps [of "m @ q"])
  qed
qed

text \<open>The state of an incremental hash after the bytes \<open>m\<close>.\<close>

definition hashing :: "u8 list \<Rightarrow> SHA1 \<Rightarrow> bool" where
  "hashing m s \<longleftrightarrow> state s = foldl compress (state Init) (blocks m) \<and> length (buffer s) = 64 \<and>
     take (length m mod 64) (buffer s) = tail_of m"

lemma Update_loop_hashing:
  assumes "hashing m s" "idx = length m mod 64"
  shows "hashing (m @ p) (Update_loop idx p s)"
  using assms
proof (induction idx p s arbitrary: m rule: Update_loop.induct)
  case (1 idx p s)
  let ?n = "min (length p) (64 - idx)"
  let ?s1 = "s\<lparr>buffer := memcpy (buffer s) idx (take ?n p)\<rparr>"
  have idx: "idx < 64" using 1(4) by simp
  have buf: "length (buffer s) = 64" "take idx (buffer s) = tail_of m" using 1(3,4) by (auto simp: hashing_def)
  have mem: "length (memcpy (buffer s) idx (take ?n p)) = 64"
    "take (idx + ?n) (memcpy (buffer s) idx (take ?n p)) = tail_of m @ take ?n p"
    using memcpy_at [of idx "take ?n p" "buffer s"] idx buf by simp_all
  show ?case
  proof (cases "p = []")
    case True
    then show ?thesis using 1(3) by (simp add: Update_loop.simps)
  next
    case nonempty: False
    then have guard: "\<not> (p = [] \<or> 64 \<le> idx)" using idx by simp
    show ?thesis
    proof (cases "idx + ?n = 64")
      case True
      have full: "length (tail_of m) + length (take ?n p) = 64" using True 1(4) by simp
      have len: "length (m @ take ?n p) mod 64 = 0"
        using blocks_append_full [OF full] length_tail_of [of "m @ take ?n p"] by simp
      have h: "hashing (m @ take ?n p) (Transform ?s1)"
        using blocks_append_full [OF full] mem True 1(3) len by (simp add: hashing_def Transform_def)
      have "hashing ((m @ take ?n p) @ drop ?n p) (Update_loop 0 (drop ?n p) (Transform ?s1))"
        by (rule 1(1) [OF guard refl refl True h len [symmetric]])
      then show ?thesis using guard True by (simp add: Update_loop.simps [of idx p s] Let_def)
    next
      case False
      have lt: "idx + ?n < 64" using False idx by (auto simp: min_def split: if_splits)
      then have short: "length (tail_of m) + length (take ?n p) < 64" using 1(4) by simp
      have len: "length (m @ take ?n p) mod 64 = idx + ?n"
        using blocks_append_short [OF short] length_tail_of [of "m @ take ?n p"] 1(4) by simp
      have h: "hashing (m @ take ?n p) ?s1"
        unfolding hashing_def len using blocks_append_short [OF short] mem 1(3) by (simp add: hashing_def)
      have "hashing ((m @ take ?n p) @ drop ?n p) (Update_loop (idx + ?n) (drop ?n p) ?s1)"
        by (rule 1(2) [OF guard refl refl False h len [symmetric]])
      then show ?thesis using guard False by (simp add: Update_loop.simps [of idx p s] Let_def)
    qed
  qed
qed

lemma Init_hashing: "hashing [] Init"
  by (simp add: hashing_def Init_def blocks_short tail_of_short)

text \<open>The whole state, with the byte count that may wrap around.\<close>

definition hashed :: "u8 list \<Rightarrow> SHA1 \<Rightarrow> bool" where
  "hashed m s \<longleftrightarrow> hashing m s \<and> count s = of_nat (length m)"

lemma of_nat_mod_64: "unat (of_nat n AND 63 :: 64 word) = n mod 64"
  by (simp add: and_63 unat_of_nat mod_mod_cancel)

lemma Update_hashed:
  assumes "hashed m s"
  shows "hashed (m @ p) (Update p s)"
proof -
  have "hashing m (s\<lparr>count := k\<rparr>)" for k using assms by (simp add: hashed_def hashing_def)
  then have "hashing (m @ p) (Update p s)"
    using assms unfolding Update_def by (intro Update_loop_hashing) (simp_all add: hashed_def of_nat_mod_64)
  then show ?thesis using assms by (simp add: hashed_def)
qed

lemma Final_pad_hashed:
  assumes "hashed m s"
  shows "hashed (m @ replicate (pad_left (of_nat (length m))) 0) (Final_pad s)"
  using assms
proof (induction s arbitrary: m rule: Final_pad.induct)
  case (1 s)
  have c: "count s = of_nat (length m)" using 1(2) by (simp add: hashed_def)
  show ?case
  proof (cases "count s AND 63 = 56")
    case True
    then have "unat (count s) mod 64 = 56" using and_63 [of "count s"] by simp
    then have "pad_left (of_nat (length m)) = 0" by (simp add: pad_left_def c [symmetric])
    then show ?thesis using 1(2) True by (simp add: Final_pad.simps [of s])
  next
    case False
    have "hashed ((m @ [0]) @ replicate (pad_left (of_nat (length (m @ [0])))) 0) (Final_pad (Update [0] s))"
      by (rule 1(1) [OF False Update_hashed [OF 1(2)]])
    moreover have "pad_left (of_nat (length m)) = Suc (pad_left (of_nat (length (m @ [0]))))"
      using pad_left_step [of "count s"] False c by (simp add: add.commute)
    ultimately show ?thesis using False by (simp add: Final_pad.simps [of s])
  qed
qed

lemma length_lenBE [simp]: "length (lenBE n w) = n"
  by (induction n arbitrary: w) simp_all

lemma Final_hashed:
  assumes "hashed m s"
  shows "Final s = sha1 m"
proof -
  let ?s = "Update (lenBE 8 (count s * 8)) (Final_pad (Update [0x80] s))"
  have "hashed (((m @ [0x80]) @ replicate (pad_left (of_nat (length (m @ [0x80])))) 0) @ lenBE 8 (count s * 8)) ?s"
    by (intro Update_hashed Final_pad_hashed assms)
  moreover have "count s = of_nat (length m)" using assms by (simp add: hashed_def)
  ultimately have "state ?s = foldl compress (state Init) (blocks (padded m))"
    by (simp add: hashed_def hashing_def padded_def)
  then show ?thesis by (simp add: Final_def sha1_def)
qed

section \<open>Decoding Base64\<close>

text \<open>The decoder of RFC 4648 for padded input.\<close>

fun index_in :: "char list \<Rightarrow> char \<Rightarrow> nat option" where
  "index_in [] c = None"
| "index_in (d # ds) c = (if c = d then Some 0 else map_option Suc (index_in ds c))"

definition unsextet :: "char \<Rightarrow> 32 word option" where
  "unsextet c = map_option of_nat (index_in kTable c)"

definition octet :: "32 word \<Rightarrow> nat \<Rightarrow> u8" where
  "octet v n = ucast (drop_bit n v)"

fun Base64Decode :: "string \<Rightarrow> u8 list option" where
  "Base64Decode [] = Some []"
| "Base64Decode (p # q # r # s # cs) = do {
     a \<leftarrow> unsextet p;
     b \<leftarrow> unsextet q;
     let v = push_bit 18 a OR push_bit 12 b;
     if r = CHR ''='' then (if s = CHR ''='' \<and> cs = [] then Some [octet v 16] else None)
     else do {
       d \<leftarrow> unsextet r;
       let v = v OR push_bit 6 d;
       if s = CHR ''='' then (if cs = [] then Some [octet v 16, octet v 8] else None)
       else do {
         e \<leftarrow> unsextet s;
         let v = v OR e;
         rest \<leftarrow> Base64Decode cs;
         Some ([octet v 16, octet v 8, octet v 0] @ rest) } } }"
| "Base64Decode _ = None"

lemma unsextet_kTable: "i < 64 \<Longrightarrow> unsextet (kTable ! i) = Some (of_nat i)"
proof -
  have "\<forall>i \<in> set [0..<64]. index_in kTable (kTable ! i) = Some i" by code_simp
  then show "i < 64 \<Longrightarrow> ?thesis" by (simp add: unsextet_def)
qed

lemma kTable_not_pad: "i < 64 \<Longrightarrow> kTable ! i \<noteq> CHR ''=''"
proof -
  have "\<forall>i \<in> set [0..<64]. kTable ! i \<noteq> CHR ''=''" by code_simp
  then show "i < 64 \<Longrightarrow> ?thesis" by simp
qed

lemma and_3F: "(w :: 32 word) AND 0x3F = take_bit 6 w"
  by (simp only: take_bit_eq_mask) (simp add: mask_eq_exp_minus_1)

lemma sextet_index: "unat (drop_bit n v AND 0x3F :: 32 word) < 64"
proof -
  have "unat (drop_bit n v AND 0x3F :: 32 word) = take_bit 6 (unat (drop_bit n v))"
    by (simp only: and_3F unsigned_take_bit_eq)
  also have "\<dots> < 2 ^ 6" by (rule take_bit_nat_less_exp)
  finally show ?thesis by simp
qed

lemma unsextet_sextet [simp]: "unsextet (sextet v n) = Some (take_bit 6 (drop_bit n v))"
  using unsextet_kTable [OF sextet_index [of n v]] by (simp add: sextet_def and_3F [symmetric])

lemma sextet_not_pad [simp]: "sextet v n \<noteq> CHR ''=''"
  using kTable_not_pad [OF sextet_index [of n v]] by (simp add: sextet_def)

text \<open>The four sextets of a word of 24 bits give the word back, and its octets are the bytes it was made of.\<close>

definition joined :: "32 word \<Rightarrow> 32 word" where
  "joined v = ((push_bit 18 (take_bit 6 (drop_bit 18 v)) OR push_bit 12 (take_bit 6 (drop_bit 12 v)))
     OR push_bit 6 (take_bit 6 (drop_bit 6 v))) OR take_bit 6 v"

lemma joined_take: "joined v = take_bit 24 v"
proof (rule bit_word_eqI)
  fix n assume "n < LENGTH(32)"
  consider "n < 6" | "6 \<le> n" "n < 12" | "12 \<le> n" "n < 18" | "18 \<le> n" "n < 24" | "24 \<le> n" by linarith
  then show "bit (joined v) n = bit (take_bit 24 v) n"
    by cases (auto simp: joined_def bit_simps)
qed

lemma octet_joined: "n + 8 \<le> 24 \<Longrightarrow> octet (joined v) n = octet v n"
  by (rule bit_word_eqI) (simp add: octet_def joined_take bit_simps)

lemma octet_bytes:
  "octet (push_bit 16 (ucast a) OR push_bit 8 (ucast b) OR ucast c) 16 = a"
  "octet (push_bit 16 (ucast a) OR push_bit 8 (ucast b) OR ucast c) 8 = b"
  "octet (push_bit 16 (ucast a) OR push_bit 8 (ucast b) OR ucast c) 0 = c"
  by (rule bit_word_eqI; auto simp: octet_def bit_simps dest: bit_imp_le_length)+

lemma decode_quad:
  "Base64Decode (sextet v 18 # sextet v 12 # sextet v 6 # sextet v 0 # cs) =
     map_option (\<lambda>rest. octet v 16 # octet v 8 # octet v 0 # rest) (Base64Decode cs)"
  using octet_joined [of 16 v] octet_joined [of 8 v] octet_joined [of 0 v]
  by (cases "Base64Decode cs") (simp_all add: Let_def joined_def)

lemma decode_pair:
  assumes "take_bit 6 v = 0"
  shows "Base64Decode [sextet v 18, sextet v 12, sextet v 6, CHR ''=''] = Some [octet v 16, octet v 8]"
  using octet_joined [of 16 v] octet_joined [of 8 v] assms by (simp add: Let_def joined_def)

lemma decode_single:
  assumes "take_bit 6 v = 0" "take_bit 6 (drop_bit 6 v) = 0"
  shows "Base64Decode [sextet v 18, sextet v 12, CHR ''='', CHR ''=''] = Some [octet v 16]"
  using octet_joined [of 16 v] assms by (simp add: Let_def joined_def)

lemma length_Base64Encode: "length (Base64Encode src) = 4 * ((length src + 2) div 3)"
proof (induction src rule: Base64Encode.induct)
  case (1 a b c src)
  have "(5 + n) div 3 = Suc (Suc (Suc n) div 3)" for n :: nat by presburger
  then show ?case using 1 by (simp add: Let_def)
qed (simp_all add: Let_def)

lemma Update_pieces: "hashed m s \<Longrightarrow> hashed (m @ concat ps) (fold Update ps s)"
proof (induction ps arbitrary: m s)
  case (Cons p ps)
  then show ?case using Cons.IH [OF Update_hashed [OF Cons.prems, of p]] by simp
qed simp

lemma Init_hashed: "hashed [] Init"
  using Init_hashing by (simp add: hashed_def) (simp add: Init_def)

section \<open>Properties\<close>

text \<open>
  C29. The incremental hash is SHA-1 of the whole message: however a message is cut into the pieces given to
  \<open>Update\<close>, whatever their lengths are relative to the 64-byte buffer, \<open>Final\<close> returns the digest of the padded
  message, with its length counted modulo \<open>2^64\<close> bits.
\<close>

theorem sha1_incremental: "Final (fold Update ps Init) = sha1 (concat ps)"
  using Final_hashed [OF Update_pieces [OF Init_hashed]] by simp

text \<open>
  C30. Base64 round trip: decoding the output of \<open>Base64Encode\<close> gives back the bytes, for every length and with the
  padding the length calls for; the output has four characters for every three bytes begun.
\<close>

theorem Base64_roundtrip:
  "Base64Decode (Base64Encode src) = Some src \<and> length (Base64Encode src) = 4 * ((length src + 2) div 3)"
proof (rule conjI [OF _ length_Base64Encode], induction src rule: Base64Encode.induct)
  case (1 a b c src)
  then show ?case by (simp add: Let_def decode_quad octet_bytes del: Base64Decode.simps)
next
  case (2 a b)
  let ?v = "push_bit 16 (ucast a) OR push_bit 8 (ucast b) :: 32 word"
  have "take_bit 6 ?v = 0" by (rule bit_word_eqI) (auto simp: bit_simps)
  then show ?case
    using octet_bytes [of a b 0] by (simp add: Let_def decode_pair del: Base64Decode.simps)
next
  case (3 a)
  let ?v = "push_bit 16 (ucast a) :: 32 word"
  have "take_bit 6 ?v = 0" "take_bit 6 (drop_bit 6 ?v) = 0" by (rule bit_word_eqI, auto simp: bit_simps)+
  then show ?case
    using octet_bytes [of a 0 0] by (simp add: Let_def decode_single del: Base64Decode.simps)
qed simp

end
