(* ===== verification/Ws_Upgrade.thy ===== *)
theory Ws_Upgrade
  imports Ws_Hash
begin

text \<open>
  The server side of the WebSocket handshake (\<open>coop/ws/upgrade.cpp\<close>): the comparison of header values, and \<open>Upgrade\<close>, which
  scans the request headers and answers. The headers come from the HTTP parser as a list of names with the value that
  \<open>ReadHeaderValue\<close> returned for each (none when it returned a null pointer).
\<close>

section \<open>Comparing header values\<close>

definition lower :: "char \<Rightarrow> nat" where
  "lower c = (if of_char CHR ''A'' \<le> (of_char c :: nat) \<and> of_char c \<le> (of_char CHR ''Z'' :: nat) then of_char c + 32 else of_char c)"

fun ci_loop :: "string \<Rightarrow> string \<Rightarrow> bool" where
  "ci_loop (a # as) (b # bs) = (if lower a \<noteq> lower b then False else ci_loop as bs)"
| "ci_loop _ _ = True"

definition CaseInsensitiveEq :: "string \<Rightarrow> string \<Rightarrow> bool" where
  "CaseInsensitiveEq a b = (if length a \<noteq> length b then False else ci_loop a b)"

definition is_blank :: "char \<Rightarrow> bool" where
  "is_blank c \<longleftrightarrow> c = CHR '' '' \<or> c = CHR 0x09"

definition strip_end :: "string \<Rightarrow> string" where
  "strip_end s = rev (dropWhile is_blank (rev s))"

text \<open>The argument is what is left of the list from \<open>pos\<close> on.\<close>

function ContainsToken :: "string \<Rightarrow> string \<Rightarrow> bool" where
  "ContainsToken hay needle =
     (if hay = [] then False
      else let from_start = dropWhile is_blank hay;
               token = takeWhile (\<lambda>c. c \<noteq> CHR '','') from_start;
               at_comma = dropWhile (\<lambda>c. c \<noteq> CHR '','') from_start
           in if CaseInsensitiveEq (strip_end token) needle then True else ContainsToken (drop 1 at_comma) needle)"
  by pat_completeness auto
termination
proof (relation "measure (\<lambda>(hay, needle). length hay)")
  fix hay needle :: string and x y z
  assume hay: "hay \<noteq> []" and x: "x = dropWhile is_blank hay" and z: "z = dropWhile (\<lambda>c. c \<noteq> CHR '','') x"
  have "length z \<le> length hay" unfolding z x by (meson length_dropWhile_le le_trans)
  then have "length z - 1 < length hay" using hay by (cases hay) auto
  then show "((drop 1 z, needle), (hay, needle)) \<in> measure (\<lambda>(hay, needle). length hay)" by simp
qed simp

declare ContainsToken.simps [simp del]

section \<open>The handshake\<close>

record handshake =
  hasUpgrade :: bool
  hasConnection :: bool
  hasVersion13 :: bool
  wsKey :: string

definition scan_header :: "string \<times> string option \<Rightarrow> handshake \<Rightarrow> handshake" where
  "scan_header = (\<lambda>(name, val) h. case val of
       None \<Rightarrow> h
     | Some v \<Rightarrow>
         if CaseInsensitiveEq name ''upgrade'' then
           (if CaseInsensitiveEq v ''websocket'' then h\<lparr>hasUpgrade := True\<rparr> else h)
         else if CaseInsensitiveEq name ''connection'' then
           (if ContainsToken v ''upgrade'' then h\<lparr>hasConnection := True\<rparr> else h)
         else if CaseInsensitiveEq name ''sec-websocket-key'' then h\<lparr>wsKey := take (min (length v) 63) v\<rparr>
         else if CaseInsensitiveEq name ''sec-websocket-version'' then
           (if length v = 2 \<and> v ! 0 = CHR ''1'' \<and> v ! 1 = CHR ''3'' then h\<lparr>hasVersion13 := True\<rparr> else h)
         else h)"

datatype reply = BadHandshake | SwitchingProtocols string

definition crlf :: string where
  "crlf = [CHR 0x0D, CHR 0x0A]"

definition switching_response :: "string \<Rightarrow> string" where
  "switching_response acceptKey = ''HTTP/1.1 101 Switching Protocols'' @ crlf @ ''Upgrade: websocket'' @ crlf @
     ''Connection: Upgrade'' @ crlf @ ''Sec-WebSocket-Accept: '' @ acceptKey @ crlf @ crlf"

text \<open>\<open>Upgrade\<close>, with the result of the final send: its own result and what it sent.\<close>

definition Upgrade :: "(string \<times> string option) list \<Rightarrow> bool \<Rightarrow> bool \<times> reply" where
  "Upgrade headers sent =
     (let h = fold scan_header headers \<lparr>hasUpgrade = False, hasConnection = False, hasVersion13 = False, wsKey = []\<rparr>
      in if \<not> hasUpgrade h \<or> \<not> hasConnection h \<or> length (wsKey h) = 0 \<or> \<not> hasVersion13 h then (False, BadHandshake)
         else (sent, SwitchingProtocols (switching_response (ComputeAcceptKey (wsKey h)))))"

section \<open>What the comparisons compute\<close>

lemma ci_loop_iff: "length a = length b \<Longrightarrow> ci_loop a b \<longleftrightarrow> map lower a = map lower b"
  by (induction a b rule: ci_loop.induct) auto

lemma CaseInsensitiveEq_iff: "CaseInsensitiveEq a b \<longleftrightarrow> map lower a = map lower b"
  by (auto simp: CaseInsensitiveEq_def ci_loop_iff dest: map_eq_imp_length_eq)

lemma CaseInsensitiveEq_length: "CaseInsensitiveEq a b \<Longrightarrow> length a = length b"
  by (simp add: CaseInsensitiveEq_def split: if_splits)

text \<open>The items of a comma-separated list, with blanks removed at both ends.\<close>

function split_commas :: "string \<Rightarrow> string list" where
  "split_commas s = (let item = takeWhile (\<lambda>c. c \<noteq> CHR '','') s; rest = dropWhile (\<lambda>c. c \<noteq> CHR '','') s
     in if rest = [] then [item] else item # split_commas (tl rest))"
  by pat_completeness auto
termination
proof (relation "measure length")
  fix s :: string and x y
  assume y: "y = dropWhile (\<lambda>c. c \<noteq> CHR '','') s" "y \<noteq> []"
  have "length y \<le> length s" unfolding y(1) by (rule length_dropWhile_le)
  then have "length (tl y) < length s" using y(2) by (cases y) (auto simp del: y)
  then show "(tl y, s) \<in> measure length" by simp
qed simp

declare split_commas.simps [simp del]

definition strip :: "string \<Rightarrow> string" where
  "strip s = strip_end (dropWhile is_blank s)"

lemma blank_not_comma: "is_blank c \<Longrightarrow> c \<noteq> CHR '',''"
  by (auto simp: is_blank_def)

lemma takeWhile_after_blanks:
  "takeWhile (\<lambda>c. c \<noteq> CHR '','') (dropWhile is_blank s) = dropWhile is_blank (takeWhile (\<lambda>c. c \<noteq> CHR '','') s)"
  "dropWhile (\<lambda>c. c \<noteq> CHR '','') (dropWhile is_blank s) = dropWhile (\<lambda>c. c \<noteq> CHR '','') s"
  by (induction s) (auto dest: blank_not_comma)

lemma strip_empty [simp]: "strip [] = []"
  by (simp add: strip_def strip_end_def)

lemma ContainsToken_iff:
  assumes "needle \<noteq> []"
  shows "ContainsToken hay needle \<longleftrightarrow> (\<exists>t \<in> set (split_commas hay). CaseInsensitiveEq (strip t) needle)"
proof (induction hay rule: split_commas.induct)
  case (1 hay)
  let ?item = "takeWhile (\<lambda>c. c \<noteq> CHR '','') hay" and ?rest = "dropWhile (\<lambda>c. c \<noteq> CHR '','') hay"
  have none: "\<not> CaseInsensitiveEq [] needle" using assms by (simp add: CaseInsensitiveEq_def)
  show ?case
  proof (cases "hay = []")
    case True
    then show ?thesis using none by (simp add: ContainsToken.simps [of "[]"] split_commas.simps [of "[]"])
  next
    case False
    have step: "ContainsToken hay needle \<longleftrightarrow> CaseInsensitiveEq (strip ?item) needle \<or> ContainsToken (drop 1 ?rest) needle"
      using False by (subst ContainsToken.simps) (simp only: Let_def takeWhile_after_blanks strip_def if_False if_True False split: if_splits, simp)
    show ?thesis
    proof (cases "?rest = []")
      case True
      have "drop 1 ?rest = []" unfolding True by simp
      then show ?thesis
        unfolding step using True by (simp only: ContainsToken.simps [of "[]"] split_commas.simps [of hay] Let_def) simp
    next
      case rest: False
      then show ?thesis unfolding step using 1 [OF refl refl rest]
        by (auto simp: split_commas.simps [of hay] drop_Suc Let_def)
    qed
  qed
qed

section \<open>Properties\<close>

text \<open>The request headers of a given name that have a value.\<close>

definition values_of :: "string \<Rightarrow> (string \<times> string option) list \<Rightarrow> string list" where
  "values_of n hs = map (the \<circ> snd) (filter (\<lambda>(m, v). CaseInsensitiveEq m n \<and> v \<noteq> None) hs)"

lemma values_of_simps [simp]:
  "values_of n [] = []"
  "values_of n ((m, None) # hs) = values_of n hs"
  "values_of n ((m, Some v) # hs) = (if CaseInsensitiveEq m n then v # values_of n hs else values_of n hs)"
  by (simp_all add: values_of_def)

lemma values_of_append [simp]: "values_of n (hs @ hs') = values_of n hs @ values_of n hs'"
  by (simp add: values_of_def)

text \<open>The names \<open>Upgrade\<close> looks for have different lengths, so a header matches at most one of them.\<close>

lemma names_differ:
  "CaseInsensitiveEq m n \<Longrightarrow> length n \<noteq> length n' \<Longrightarrow> \<not> CaseInsensitiveEq m n'"
  by (metis CaseInsensitiveEq_length)

definition scanned :: "(string \<times> string option) list \<Rightarrow> handshake" where
  "scanned hs = \<lparr>hasUpgrade = (\<exists>v \<in> set (values_of ''upgrade'' hs). CaseInsensitiveEq v ''websocket''),
     hasConnection = (\<exists>v \<in> set (values_of ''connection'' hs). ContainsToken v ''upgrade''),
     hasVersion13 = (''13'' \<in> set (values_of ''sec-websocket-version'' hs)),
     wsKey = (case rev (values_of ''sec-websocket-key'' hs) of [] \<Rightarrow> [] | v # vs \<Rightarrow> take 63 v)\<rparr>"

lemma is_13: "length v = 2 \<and> v ! 0 = CHR ''1'' \<and> v ! 1 = CHR ''3'' \<longleftrightarrow> v = ''13''"
  by (auto simp: numeral_2_eq_2 length_Suc_conv)

lemma take_min: "take (min (length v) 63) v = take 63 v"
  by (simp add: min_def)

lemma scan_header_step: "scan_header (m, v) (scanned hs) = scanned (hs @ [(m, v)])"
proof (cases v)
  case None
  then show ?thesis by (simp add: scan_header_def scanned_def)
next
  case (Some w)
  consider "CaseInsensitiveEq m ''upgrade''" | "CaseInsensitiveEq m ''connection''" | "CaseInsensitiveEq m ''sec-websocket-key''"
    | "CaseInsensitiveEq m ''sec-websocket-version''"
    | "\<not> CaseInsensitiveEq m ''upgrade''" "\<not> CaseInsensitiveEq m ''connection''" "\<not> CaseInsensitiveEq m ''sec-websocket-key''"
      "\<not> CaseInsensitiveEq m ''sec-websocket-version''" by blast
  then show ?thesis
    by cases (auto simp: Some scan_header_def scanned_def is_13 [simplified] take_min names_differ)
qed

lemma scan_headers: "fold scan_header hs (scanned hs') = scanned (hs' @ hs)"
  by (induction hs arbitrary: hs') (auto simp: scan_header_step)

lemma Upgrade_scanned: "fold scan_header hs \<lparr>hasUpgrade = False, hasConnection = False, hasVersion13 = False, wsKey = []\<rparr> = scanned hs"
  using scan_headers [of hs "[]"] by (simp add: scanned_def)

text \<open>
  C31. \<open>Upgrade\<close> answers 101 exactly to a WebSocket handshake: some \<open>Upgrade\<close> header is \<open>websocket\<close>, some \<open>Connection\<close> header
  lists \<open>upgrade\<close> among its comma-separated items, the last \<open>Sec-WebSocket-Key\<close> is not empty, and some version header is
  13, with names and tokens compared without regard to case. The answer then carries the accept key of the first 63
  characters of the key; any other request gets 400.
\<close>

theorem Upgrade_correct:
  "Upgrade hs sent =
     (case rev (values_of ''sec-websocket-key'' hs) of
        [] \<Rightarrow> (False, BadHandshake)
      | key # _ \<Rightarrow>
          if key \<noteq> [] \<and> (\<exists>v \<in> set (values_of ''upgrade'' hs). map lower v = map lower ''websocket'') \<and>
             (\<exists>v \<in> set (values_of ''connection'' hs). \<exists>t \<in> set (split_commas v). map lower (strip t) = map lower ''upgrade'') \<and>
             ''13'' \<in> set (values_of ''sec-websocket-version'' hs)
          then (sent, SwitchingProtocols (switching_response (ComputeAcceptKey (take 63 key))))
          else (False, BadHandshake))"
  by (auto simp: Upgrade_def Upgrade_scanned Let_def scanned_def ContainsToken_iff CaseInsensitiveEq_iff split: list.splits)

text \<open>The digest has five words, so the key and the response have a fixed length.\<close>

lemma length_compress [simp]: "length (compress st b) = 5"
  by (simp add: compress_def split: prod.splits)

lemma length_compress_blocks: "length (foldl compress (state Init) bs) = 5"
  by (cases bs rule: rev_cases) (simp_all add: Init_def)

lemma length_digest: "length (digest st) = 4 * length st"
  by (induction st) (simp_all add: digest_def)

lemma length_sha1 [simp]: "length (sha1 m) = 20"
  by (simp add: sha1_def length_digest length_compress_blocks)

lemma length_kTable: "length kTable = 64"
  by (simp add: kTable_def)

lemma sextet_in [simp]: "sextet v n \<in> set kTable"
  unfolding sextet_def by (rule nth_mem) (simp only: length_kTable sextet_index)

lemma set_Base64Encode: "set (Base64Encode src) \<subseteq> insert CHR ''='' (set kTable)"
  by (induction src rule: Base64Encode.induct) (auto simp: Let_def)

lemma ComputeAcceptKey_sha1: "ComputeAcceptKey key = Base64Encode (sha1 (bytes_of key @ bytes_of kGUID))"
  using Final_hashed [OF Update_pieces [OF Init_hashed, of "[bytes_of key, bytes_of kGUID]"]]
  by (simp add: ComputeAcceptKey_def)

text \<open>
  C32. The accept key of any client key is 28 characters of the Base64 alphabet, so with its terminator it fits the 32
  bytes \<open>Upgrade\<close> gives it, and the response has 129 characters and fits the 256 bytes it is printed into.
\<close>

theorem accept_key_type:
  "length (ComputeAcceptKey key) = 28 \<and> set (ComputeAcceptKey key) \<subseteq> insert CHR ''='' (set kTable) \<and>
   length (switching_response (ComputeAcceptKey key)) = 129"
proof -
  have len: "length (ComputeAcceptKey key) = 28"
    by (simp add: ComputeAcceptKey_sha1 length_Base64Encode)
  moreover have "set (ComputeAcceptKey key) \<subseteq> insert CHR ''='' (set kTable)"
    unfolding ComputeAcceptKey_sha1 by (rule set_Base64Encode)
  moreover have "length (switching_response (ComputeAcceptKey key)) = 129"
    by (simp add: switching_response_def crlf_def len)
  ultimately show ?thesis by blast
qed

end
