(* ===== verification/Ws_Connection.thy ===== *)
theory Ws_Connection
  imports Ws_Hash
begin

text \<open>
  The WebSocket connection (\<open>coop/ws/connection.cpp\<close>, \<open>coop/ws/connection.h\<close>, \<open>coop/ws/types.h\<close>): the receive buffer and
  the frame parser with its delivery of payload chunks, and the send buffer and the frame writer.

  The transport is what its calls return: a list of results for the successive receives (some bytes, of which a call
  takes what fits, or a failure), and one for the successive sends. An empty read is the end of the stream.
\<close>

unbundle bit_operations_syntax

section \<open>State\<close>

type_synonym Opcode = u8

abbreviation Continuation :: Opcode where "Continuation \<equiv> 0x0"
abbreviation Text :: Opcode where "Text \<equiv> 0x1"
abbreviation Binary :: Opcode where "Binary \<equiv> 0x2"
abbreviation Close_op :: Opcode where "Close_op \<equiv> 0x8"
abbreviation Ping :: Opcode where "Ping \<equiv> 0x9"
abbreviation Pong :: Opcode where "Pong \<equiv> 0xA"

text \<open>The descriptor of a delivered chunk; \<open>data\<close> is what its pointer and size give before the next call.\<close>

record Frame =
  opcode :: Opcode
  fin :: bool
  data :: "u8 list"
  complete :: bool

datatype ParseState = HEADER | PAYLOAD | DONE

datatype recv_result = Bytes "u8 list" | RecvFail

datatype send_result = Sent | SendFailed nat

record ws =
  m_recvBuf :: "u8 list"
  m_bufLen :: nat
  m_parsePos :: nat
  m_sendBuf :: "u8 list"
  m_sendLen :: nat
  m_parseState :: ParseState
  m_frame :: Frame
  m_maskKey :: "u8 list"
  m_payloadLen :: u64
  m_payloadRemaining :: nat
  m_maskOffset :: nat
  m_continuationOpcode :: Opcode
  m_gotClose :: bool
  m_sentClose :: bool
  m_sendError :: bool
  w_in :: "recv_result list"
  w_sends :: "send_result list"
  w_wire :: "u8 list"

definition RecvBufSize :: "ws \<Rightarrow> nat" where
  "RecvBufSize st = length (m_recvBuf st)"

definition SendBufSize :: "ws \<Rightarrow> nat" where
  "SendBufSize st = length (m_sendBuf st)"

definition Available :: "ws \<Rightarrow> nat" where
  "Available st = m_bufLen st - m_parsePos st"

section \<open>Receiving\<close>

definition Compact :: "ws \<Rightarrow> ws" where
  "Compact st =
     (if m_parsePos st = 0 then st
      else let remaining = m_bufLen st - m_parsePos st;
               buf = (if remaining > 0 then memcpy (m_recvBuf st) 0 (take remaining (drop (m_parsePos st) (m_recvBuf st)))
                      else m_recvBuf st)
           in st\<lparr>m_recvBuf := buf, m_bufLen := remaining, m_parsePos := 0\<rparr>)"

text \<open>The transport's receive into \<open>space\<close> bytes; no bytes stand for a result that is not positive.\<close>

definition TransportRecv :: "nat \<Rightarrow> ws \<Rightarrow> u8 list \<times> ws" where
  "TransportRecv space st = (case w_in st of
       [] \<Rightarrow> ([], st)
     | RecvFail # r \<Rightarrow> ([], st\<lparr>w_in := r\<rparr>)
     | Bytes bs # r \<Rightarrow> (take space bs, st\<lparr>w_in := (if drop space bs = [] then r else Bytes (drop space bs) # r)\<rparr>))"

text \<open>Whether \<open>RecvMore\<close> returned a positive number.\<close>

definition RecvMore :: "ws \<Rightarrow> bool \<times> ws" where
  "RecvMore st =
     (let st1 = (if RecvBufSize st \<le> m_bufLen st then Compact st else st);
          space = RecvBufSize st1 - m_bufLen st1
      in if space = 0 then (False, st1)
         else case TransportRecv space st1 of (bs, st2) \<Rightarrow>
           if bs = [] then (False, st2)
           else (True, st2\<lparr>m_recvBuf := memcpy (m_recvBuf st2) (m_bufLen st2) bs, m_bufLen := m_bufLen st2 + length bs\<rparr>))"

fun result_size :: "recv_result \<Rightarrow> nat" where
  "result_size (Bytes bs) = length bs"
| "result_size RecvFail = 0"

definition in_size :: "ws \<Rightarrow> nat" where
  "in_size st = sum_list (map result_size (w_in st))"

lemma Compact_in [simp]: "w_in (Compact st) = w_in st"
  by (simp add: Compact_def Let_def)

lemma RecvMore_in_size: "RecvMore st = (True, st1) \<Longrightarrow> in_size st1 < in_size st"
  by (auto simp: RecvMore_def TransportRecv_def in_size_def Let_def split: if_splits list.splits recv_result.splits)

text \<open>The loops that wait for the next \<open>k\<close> bytes of a header.\<close>

function fill_header :: "nat \<Rightarrow> ws \<Rightarrow> bool \<times> ws" where
  "fill_header k st =
     (if Available st < k then
        (case RecvMore st of
           (True, st1) \<Rightarrow> fill_header k st1
         | (False, st1) \<Rightarrow> (False, st1\<lparr>m_parseState := DONE\<rparr>))
      else (True, st))"
  by pat_completeness auto
termination
  by (relation "measure (\<lambda>(k, st). in_size st)") (auto simp: RecvMore_in_size)

declare fill_header.simps [simp del]

definition unmask :: "u8 list \<Rightarrow> nat \<Rightarrow> u8 list \<Rightarrow> u8 list" where
  "unmask key off bs = map (\<lambda>i. bs ! i XOR key ! ((off + i) mod 4)) [0..<length bs]"

definition DeliverPayloadChunk :: "ws \<Rightarrow> Frame option \<times> ws" where
  "DeliverPayloadChunk st =
     (case (if Available st = 0 then RecvMore (Compact st) else (True, st)) of
        (False, st1) \<Rightarrow> (None, st1\<lparr>m_parseState := DONE\<rparr>)
      | (True, st1) \<Rightarrow>
          let toDeliver = min (Available st1) (m_payloadRemaining st1);
              chunk = unmask (m_maskKey st1) (m_maskOffset st1) (take toDeliver (drop (m_parsePos st1) (m_recvBuf st1)));
              remaining = m_payloadRemaining st1 - toDeliver;
              frame = (m_frame st1)\<lparr>data := chunk, complete := (remaining = 0)\<rparr>
          in (Some frame, st1\<lparr>m_recvBuf := memcpy (m_recvBuf st1) (m_parsePos st1) chunk, m_frame := frame,
               m_maskOffset := (m_maskOffset st1 + toDeliver) mod 4, m_payloadRemaining := remaining,
               m_parsePos := m_parsePos st1 + toDeliver,
               m_parseState := (if remaining = 0 then HEADER else m_parseState st1)\<rparr>))"

definition extra_header :: "nat \<Rightarrow> bool \<Rightarrow> nat" where
  "extra_header len7 masked = (if len7 = 126 then 2 else if len7 = 127 then 8 else 0) + (if masked then 4 else 0)"

definition at_buf :: "ws \<Rightarrow> nat \<Rightarrow> u8" where
  "at_buf st i = m_recvBuf st ! (m_parsePos st + i)"

text \<open>The extended payload length and the position behind it.\<close>

definition payload_length :: "nat \<Rightarrow> ws \<Rightarrow> u64 \<times> nat" where
  "payload_length len7 st =
     (if len7 \<le> 125 then (of_nat len7, m_parsePos st)
      else if len7 = 126 then (push_bit 8 (ucast (at_buf st 0)) OR ucast (at_buf st 1), m_parsePos st + 2)
      else (fold (\<lambda>i len. push_bit 8 len OR ucast (at_buf st i)) [0..<8] 0, m_parsePos st + 8))"

text \<open>The rest of a header, once all its bytes are in the buffer.\<close>

definition parse_header :: "u8 \<Rightarrow> u8 \<Rightarrow> ws \<Rightarrow> Frame option \<times> ws" where
  "parse_header b0 b1 st =
     (let is_fin = (b0 AND 0x80 \<noteq> 0); op = b0 AND 0x0F; masked = (b1 AND 0x80 \<noteq> 0); len7 = unat (b1 AND 0x7F);
          (len, pos) = payload_length len7 st;
          key = (if masked then take 4 (drop pos (m_recvBuf st)) else replicate 4 0);
          fr = (m_frame st)\<lparr>opcode := (if op = Continuation then m_continuationOpcode st else op), fin := is_fin\<rparr>;
          st1 = st\<lparr>m_parsePos := (if masked then pos + 4 else pos), m_payloadLen := len, m_maskKey := key,
            m_payloadRemaining := unat len, m_maskOffset := 0, m_frame := fr,
            m_continuationOpcode := (if (op = Text \<or> op = Binary) \<and> \<not> is_fin then op else m_continuationOpcode st),
            m_gotClose := (op = Close_op \<or> m_gotClose st)\<rparr>
      in if len = 0 then
           (let fr1 = fr\<lparr>data := [], complete := True\<rparr> in (Some fr1, st1\<lparr>m_frame := fr1, m_parseState := HEADER\<rparr>))
         else DeliverPayloadChunk (st1\<lparr>m_parseState := PAYLOAD\<rparr>))"

definition NextFrame :: "ws \<Rightarrow> Frame option \<times> ws" where
  "NextFrame st =
     (if m_gotClose st \<or> m_parseState st = DONE then (None, st)
      else if m_parseState st = PAYLOAD \<and> m_payloadRemaining st > 0 then DeliverPayloadChunk st
      else case fill_header 2 st of
        (False, st1) \<Rightarrow> (None, st1)
      | (True, st1) \<Rightarrow>
          let b0 = at_buf st1 0; b1 = at_buf st1 1; st2 = st1\<lparr>m_parsePos := m_parsePos st1 + 2\<rparr>
          in case fill_header (extra_header (unat (b1 AND 0x7F)) (b1 AND 0x80 \<noteq> 0)) st2 of
               (False, st3) \<Rightarrow> (None, st3)
             | (True, st3) \<Rightarrow> parse_header b0 b1 st3)"

function SkipPayload :: "ws \<Rightarrow> ws" where
  "SkipPayload st =
     (if m_parseState st = PAYLOAD \<and> m_payloadRemaining st > 0 then
        if Available st = 0 then
          (case RecvMore (Compact st) of
             (False, st1) \<Rightarrow> st1\<lparr>m_parseState := DONE\<rparr>
           | (True, st1) \<Rightarrow>
               let skip = min (Available st1) (m_payloadRemaining st1)
               in SkipPayload (st1\<lparr>m_parsePos := m_parsePos st1 + skip, m_payloadRemaining := m_payloadRemaining st1 - skip,
                    m_maskOffset := (m_maskOffset st1 + skip) mod 4\<rparr>))
        else
          let skip = min (Available st) (m_payloadRemaining st)
          in SkipPayload (st\<lparr>m_parsePos := m_parsePos st + skip, m_payloadRemaining := m_payloadRemaining st - skip,
               m_maskOffset := (m_maskOffset st + skip) mod 4\<rparr>)
      else if m_payloadRemaining st = 0 \<and> m_parseState st = PAYLOAD then st\<lparr>m_parseState := HEADER\<rparr> else st)"
  by pat_completeness auto
termination
  by (relation "measures [in_size, m_payloadRemaining]") (auto simp: in_size_def dest!: RecvMore_in_size [OF sym])

declare SkipPayload.simps [simp del]

section \<open>Sending\<close>

definition TransportSendAll :: "u8 list \<Rightarrow> ws \<Rightarrow> bool \<times> ws" where
  "TransportSendAll bs st = (case w_sends st of
       [] \<Rightarrow> (True, st\<lparr>w_wire := w_wire st @ bs, w_sends := []\<rparr>)
     | Sent # r \<Rightarrow> (True, st\<lparr>w_wire := w_wire st @ bs, w_sends := r\<rparr>)
     | SendFailed k # r \<Rightarrow> (False, st\<lparr>w_wire := w_wire st @ take k bs, w_sends := r\<rparr>))"

definition Flush :: "ws \<Rightarrow> bool \<times> ws" where
  "Flush st =
     (if m_sendLen st = 0 then (True, st)
      else case TransportSendAll (take (m_sendLen st) (m_sendBuf st)) st of
          (False, st1) \<Rightarrow> (False, st1\<lparr>m_sendError := True\<rparr>)
        | (True, st1) \<Rightarrow> (True, st1\<lparr>m_sendLen := 0\<rparr>))"

lemma Flush_sendLen: "Flush st = (True, st1) \<Longrightarrow> m_sendLen st1 = 0"
  by (auto simp: Flush_def split: if_splits prod.splits bool.splits)

text \<open>\<open>Append\<close>, with the flush of a full buffer split off.\<close>

definition make_room :: "ws \<Rightarrow> bool \<times> ws" where
  "make_room st = (if SendBufSize st - m_sendLen st = 0 then Flush st else (True, st))"

function Append :: "u8 list \<Rightarrow> ws \<Rightarrow> bool \<times> ws" where
  "Append p st =
     (if p = [] then (True, st)
      else case make_room st of
          (False, st1) \<Rightarrow> (False, st1)
        | (True, st1) \<Rightarrow>
            let space = SendBufSize st1 - m_sendLen st1
            in if m_sendLen st1 = 0 \<and> length p > space then
                 (case TransportSendAll p st1 of
                    (False, st2) \<Rightarrow> (False, st2\<lparr>m_sendError := True\<rparr>)
                  | (True, st2) \<Rightarrow> (True, st2))
               else
                 let n = min (length p) space
                 in Append (drop n p) (st1\<lparr>m_sendBuf := memcpy (m_sendBuf st1) (m_sendLen st1) (take n p), m_sendLen := m_sendLen st1 + n\<rparr>))"
  by pat_completeness auto
termination
proof (relation "measure (\<lambda>(p, st). length p)", simp, goal_cases)
  case (1 p st x st1 space n)
  have "0 < space"
  proof (cases "SendBufSize st - m_sendLen st = 0")
    case True
    then have "m_sendLen st1 = 0" using 1(2,3) by (auto simp: make_room_def dest: Flush_sendLen [OF sym])
    then show ?thesis using 1(1,5) by (cases p) (auto simp: 1(4))
  next
    case False
    then show ?thesis using 1(2,3,4) by (auto simp: make_room_def)
  qed
  then show ?case using 1(1,6) by (cases p) auto
qed

declare Append.simps [simp del]

text \<open>The header of an unmasked frame.\<close>

definition frame_header :: "Opcode \<Rightarrow> bool \<Rightarrow> nat \<Rightarrow> u8 list" where
  "frame_header op is_fin sz =
     (let b0 = (if is_fin then 0x80 else 0x00) OR op; w = of_nat sz :: u64
      in if sz \<le> 125 then [b0, ucast w]
         else if sz \<le> 65535 then [b0, 126, ucast (drop_bit 8 w), ucast w]
         else [b0, 127] @ map (\<lambda>i. ucast (drop_bit (56 - 8 * i) w)) [0..<8])"

definition SendFrame :: "Opcode \<Rightarrow> bool \<Rightarrow> u8 list \<Rightarrow> ws \<Rightarrow> bool \<times> ws" where
  "SendFrame op is_fin payload st =
     (if m_sendError st then (False, st)
      else case Append (frame_header op is_fin (length payload)) st of
          (False, st1) \<Rightarrow> (False, st1)
        | (True, st1) \<Rightarrow>
            (case (if length payload > 0 then Append payload st1 else (True, st1)) of
               (False, st2) \<Rightarrow> (False, st2)
             | (True, st2) \<Rightarrow> Flush st2))"

definition SendText :: "u8 list \<Rightarrow> ws \<Rightarrow> bool \<times> ws" where
  "SendText p st = SendFrame Text True p st"

definition SendBinary :: "u8 list \<Rightarrow> ws \<Rightarrow> bool \<times> ws" where
  "SendBinary p st = SendFrame Binary True p st"

definition SendPing :: "u8 list \<Rightarrow> ws \<Rightarrow> (bool \<times> ws) option" where
  "SendPing p st = do { assert_that (length p \<le> 125); Some (SendFrame Ping True p st) }"

definition SendPong :: "u8 list \<Rightarrow> ws \<Rightarrow> (bool \<times> ws) option" where
  "SendPong p st = do { assert_that (length p \<le> 125); Some (SendFrame Pong True p st) }"

definition Close :: "u16 \<Rightarrow> ws \<Rightarrow> bool \<times> ws" where
  "Close code st =
     (if m_sentClose st then (True, st)
      else SendFrame Close_op True [ucast (drop_bit 8 code), ucast code] (st\<lparr>m_sentClose := True\<rparr>))"

text \<open>The constructor, with the bytes left over from the HTTP request.\<close>

definition ws_new :: "nat \<Rightarrow> nat \<Rightarrow> u8 list \<Rightarrow> recv_result list \<Rightarrow> send_result list \<Rightarrow> ws" where
  "ws_new recvBufSize sendBufSize initialData ins outs =
     (let fits = (0 < length initialData \<and> length initialData \<le> recvBufSize);
          buf = replicate recvBufSize 0
      in \<lparr>m_recvBuf = (if fits then memcpy buf 0 initialData else buf), m_bufLen = (if fits then length initialData else 0),
          m_parsePos = 0, m_sendBuf = replicate sendBufSize 0, m_sendLen = 0, m_parseState = HEADER,
          m_frame = \<lparr>opcode = 0, fin = False, data = [], complete = False\<rparr>, m_maskKey = replicate 4 0, m_payloadLen = 0,
          m_payloadRemaining = 0, m_maskOffset = 0, m_continuationOpcode = Text, m_gotClose = False, m_sentClose = False,
          m_sendError = False, w_in = ins, w_sends = outs, w_wire = []\<rparr>)"

section \<open>What the sender puts on the wire\<close>

definition all_sent :: "ws \<Rightarrow> bool" where
  "all_sent st \<longleftrightarrow> set (w_sends st) \<subseteq> {Sent}"

text \<open>The bytes accepted so far: those on the wire and those in the send buffer.\<close>

definition accepted :: "ws \<Rightarrow> u8 list" where
  "accepted st = w_wire st @ take (m_sendLen st) (m_sendBuf st)"

definition send_ok :: "ws \<Rightarrow> bool" where
  "send_ok st \<longleftrightarrow> all_sent st \<and> \<not> m_sendError st \<and> m_sendLen st \<le> SendBufSize st"

lemma TransportSendAll_ok:
  assumes "send_ok st"
  shows "\<exists>r. TransportSendAll bs st = (True, st\<lparr>w_wire := w_wire st @ bs, w_sends := r\<rparr>) \<and> set r \<subseteq> {Sent}"
  using assms by (cases "w_sends st") (auto simp: TransportSendAll_def send_ok_def all_sent_def)

lemma Flush_ok:
  assumes "send_ok st"
  shows "\<exists>st1. Flush st = (True, st1) \<and> send_ok st1 \<and> m_sendLen st1 = 0 \<and> accepted st1 = accepted st \<and>
    m_sentClose st1 = m_sentClose st \<and> w_wire st1 = accepted st"
proof (cases "m_sendLen st = 0")
  case True
  then show ?thesis using assms by (simp add: Flush_def accepted_def)
next
  case False
  obtain r where "TransportSendAll (take (m_sendLen st) (m_sendBuf st)) st =
      (True, st\<lparr>w_wire := w_wire st @ take (m_sendLen st) (m_sendBuf st), w_sends := r\<rparr>)" "set r \<subseteq> {Sent}"
    using TransportSendAll_ok [OF assms] by blast
  then show ?thesis
    using False assms by (auto simp: Flush_def send_ok_def all_sent_def accepted_def SendBufSize_def)
qed

lemma make_room_ok:
  assumes "send_ok st"
  shows "\<exists>st1. make_room st = (True, st1) \<and> send_ok st1 \<and> accepted st1 = accepted st \<and> m_sentClose st1 = m_sentClose st"
  using assms Flush_ok [OF assms] by (auto simp: make_room_def)

lemma Append_ok:
  assumes "send_ok st"
  shows "\<exists>st1. Append p st = (True, st1) \<and> send_ok st1 \<and> accepted st1 = accepted st @ p \<and> m_sentClose st1 = m_sentClose st"
  using assms
proof (induction p st rule: Append.induct)
  case (1 p st)
  show ?case
  proof (cases "p = []")
    case True
    then show ?thesis using 1(2) by (simp add: Append.simps)
  next
    case nonempty: False
    obtain st1 where room: "make_room st = (True, st1)" and ok: "send_ok st1"
      and acc: "accepted st1 = accepted st" "m_sentClose st1 = m_sentClose st"
      using make_room_ok [OF 1(2)] by blast
    let ?space = "SendBufSize st1 - m_sendLen st1"
    show ?thesis
    proof (cases "m_sendLen st1 = 0 \<and> length p > ?space")
      case True
      obtain r where "TransportSendAll p st1 = (True, st1\<lparr>w_wire := w_wire st1 @ p, w_sends := r\<rparr>)" "set r \<subseteq> {Sent}"
        using TransportSendAll_ok [OF ok] by blast
      then show ?thesis
        using nonempty room acc True ok
        by (auto simp: Append.simps [of p st] Let_def send_ok_def all_sent_def accepted_def SendBufSize_def)
    next
      case False
      let ?n = "min (length p) ?space"
      let ?st = "st1\<lparr>m_sendBuf := memcpy (m_sendBuf st1) (m_sendLen st1) (take ?n p), m_sendLen := m_sendLen st1 + ?n\<rparr>"
      have fit: "m_sendLen st1 + length (take ?n p) \<le> length (m_sendBuf st1)"
        using ok by (auto simp: send_ok_def SendBufSize_def)
      have mem: "length (memcpy (m_sendBuf st1) (m_sendLen st1) (take ?n p)) = length (m_sendBuf st1)"
        "take (m_sendLen st1 + ?n) (memcpy (m_sendBuf st1) (m_sendLen st1) (take ?n p)) = take (m_sendLen st1) (m_sendBuf st1) @ take ?n p"
        using memcpy_at [OF fit] by simp_all
      have ok1: "send_ok ?st" using ok mem(1) fit by (simp add: send_ok_def all_sent_def SendBufSize_def)
      have acc1: "accepted ?st = accepted st1 @ take ?n p" using mem(2) by (simp add: accepted_def)
      have "Append p st = Append (drop ?n p) ?st"
        using nonempty room False by (auto simp: Append.simps [of p st] Let_def)
      then show ?thesis
        using 1(1) [OF nonempty room [symmetric] _ refl False refl ok1] acc acc1 by simp
    qed
  qed
qed

lemma SendFrame_ok:
  assumes "send_ok st"
  shows "\<exists>st1. SendFrame op is_fin payload st = (True, st1) \<and> send_ok st1 \<and> m_sendLen st1 = 0 \<and>
    w_wire st1 = accepted st @ frame_header op is_fin (length payload) @ payload"
proof -
  obtain st1 where a: "Append (frame_header op is_fin (length payload)) st = (True, st1)" "send_ok st1"
    "accepted st1 = accepted st @ frame_header op is_fin (length payload)"
    using Append_ok [OF assms] by blast
  obtain st2 where b: "(if length payload > 0 then Append payload st1 else (True, st1)) = (True, st2)" "send_ok st2"
    "accepted st2 = accepted st1 @ payload"
    using Append_ok [OF a(2), of payload] a(2) by (cases "payload = []") auto
  obtain st3 where c: "Flush st2 = (True, st3)" "send_ok st3" "m_sendLen st3 = 0" "w_wire st3 = accepted st2"
    using Flush_ok [OF b(2)] by blast
  show ?thesis
    using assms a b c unfolding SendFrame_def by (simp add: send_ok_def)
qed

section \<open>What the receiver has not read yet\<close>

fun result_bytes :: "recv_result \<Rightarrow> u8 list" where
  "result_bytes (Bytes bs) = bs"
| "result_bytes RecvFail = []"

definition buffered :: "ws \<Rightarrow> u8 list" where
  "buffered st = drop (m_parsePos st) (take (m_bufLen st) (m_recvBuf st))"

definition unread :: "ws \<Rightarrow> u8 list" where
  "unread st = buffered st @ concat (map result_bytes (w_in st))"

text \<open>The buffer has room for every header, and the transport delivers until its input ends.\<close>

definition recv_ok :: "ws \<Rightarrow> bool" where
  "recv_ok st \<longleftrightarrow> m_parsePos st \<le> m_bufLen st \<and> m_bufLen st \<le> RecvBufSize st \<and> 12 \<le> RecvBufSize st \<and>
     (\<forall>r \<in> set (w_in st). \<exists>b bs. r = Bytes (b # bs))"

definition same_parse :: "ws \<Rightarrow> ws \<Rightarrow> bool" where
  "same_parse st st' \<longleftrightarrow> m_parseState st' = m_parseState st \<and> m_frame st' = m_frame st \<and> m_maskKey st' = m_maskKey st \<and>
     m_payloadLen st' = m_payloadLen st \<and> m_payloadRemaining st' = m_payloadRemaining st \<and> m_maskOffset st' = m_maskOffset st \<and>
     m_continuationOpcode st' = m_continuationOpcode st \<and> m_gotClose st' = m_gotClose st"

lemma same_parse_refl [simp]: "same_parse st st"
  by (simp add: same_parse_def)

lemma same_parse_trans: "same_parse a b \<Longrightarrow> same_parse b d \<Longrightarrow> same_parse a d"
  by (simp add: same_parse_def)

lemma length_buffered [simp]: "recv_ok st \<Longrightarrow> length (buffered st) = Available st"
  by (simp add: recv_ok_def buffered_def Available_def RecvBufSize_def)

lemma Compact_ok:
  assumes "recv_ok st"
  shows "recv_ok (Compact st)" "buffered (Compact st) = buffered st" "unread (Compact st) = unread st"
    "same_parse st (Compact st)" "m_parsePos (Compact st) = 0" "RecvBufSize (Compact st) = RecvBufSize st"
proof -
  let ?n = "m_bufLen st - m_parsePos st"
  have fit: "0 + length (take ?n (drop (m_parsePos st) (m_recvBuf st))) \<le> length (m_recvBuf st)" by simp
  note mem = memcpy_at [OF fit]
  have n: "length (take ?n (drop (m_parsePos st) (m_recvBuf st))) = ?n"
    using assms by (auto simp: recv_ok_def RecvBufSize_def)
  show b: "buffered (Compact st) = buffered st"
    using mem(2) n assms by (auto simp: Compact_def buffered_def Let_def recv_ok_def RecvBufSize_def drop_take)
  then show "unread (Compact st) = unread st" by (simp add: unread_def)
  show "recv_ok (Compact st)" using assms mem(1)
    by (auto simp: Compact_def recv_ok_def RecvBufSize_def Let_def)
  show "same_parse st (Compact st)" "m_parsePos (Compact st) = 0"
    by (auto simp: Compact_def same_parse_def Let_def)
  show "RecvBufSize (Compact st) = RecvBufSize st" using mem(1) by (auto simp: Compact_def RecvBufSize_def Let_def)
qed

lemma RecvMore_ok:
  assumes "recv_ok st" "Available st < RecvBufSize st" "w_in st \<noteq> []"
  shows "\<exists>st1. RecvMore st = (True, st1) \<and> recv_ok st1 \<and> unread st1 = unread st \<and> Available st < Available st1 \<and>
    RecvBufSize st1 = RecvBufSize st \<and> same_parse st st1"
proof -
  define st0 where st0: "st0 = (if RecvBufSize st \<le> m_bufLen st then Compact st else st)"
  have c: "recv_ok st0" "buffered st0 = buffered st" "unread st0 = unread st" "same_parse st st0" "RecvBufSize st0 = RecvBufSize st"
    using Compact_ok [OF assms(1)] assms(1) by (auto simp: st0)
  have av: "Available st0 = Available st" using c(1,2) assms(1) by (metis length_buffered)
  have room: "m_bufLen st0 < RecvBufSize st0"
    using assms(2) Compact_ok(5) [OF assms(1)] av c(5) by (auto simp: Available_def st0 split: if_splits)
  obtain b bs r where inp: "w_in st = Bytes (b # bs) # r" "\<forall>r' \<in> set r. \<exists>b bs. r' = Bytes (b # bs)"
    using assms(1,3) by (cases "w_in st") (auto simp: recv_ok_def)
  let ?space = "RecvBufSize st0 - m_bufLen st0"
  let ?got = "take ?space (b # bs)"
  let ?in = "if drop ?space (b # bs) = [] then r else Bytes (drop ?space (b # bs)) # r"
  let ?st1 = "st0\<lparr>w_in := ?in, m_recvBuf := memcpy (m_recvBuf st0) (m_bufLen st0) ?got, m_bufLen := m_bufLen st0 + length ?got\<rparr>"
  have fit: "m_bufLen st0 + length ?got \<le> length (m_recvBuf st0)" using room by (simp add: RecvBufSize_def)
  note mem = memcpy_at [OF fit]
  have "w_in st0 = Bytes (b # bs) # r" using inp(1) by (simp add: st0)
  then have eq: "RecvMore st = (True, ?st1)"
    using room by (simp add: RecvMore_def TransportRecv_def Let_def st0 [symmetric])
  have buf: "buffered ?st1 = buffered st0 @ ?got"
    using mem(2) c(1) fit by (simp add: buffered_def recv_ok_def)
  have "concat (map result_bytes (w_in st0)) = ?got @ concat (map result_bytes ?in)"
    using \<open>w_in st0 = Bytes (b # bs) # r\<close> by (simp add: append_take_drop_id [symmetric] del: append_take_drop_id)
  then have "unread ?st1 = unread st" using buf c(3) by (simp add: unread_def)
  moreover have "recv_ok ?st1"
    using c(1) mem(1) fit inp(2) by (auto simp: recv_ok_def RecvBufSize_def neq_Nil_conv [symmetric])
  moreover have "Available st < Available ?st1"
  proof -
    have "0 < length ?got" using room by simp
    moreover have "Available ?st1 = Available st0 + length ?got" using c(1) by (simp add: Available_def recv_ok_def)
    ultimately show ?thesis using av by linarith
  qed
  moreover have "same_parse st ?st1" using c(4) by (simp add: same_parse_def)
  moreover have "RecvBufSize ?st1 = RecvBufSize st" using c(5) mem(1) by (simp add: RecvBufSize_def)
  ultimately show ?thesis using eq by blast
qed

lemma fill_header_ok:
  assumes "recv_ok st" "k \<le> 12" "k \<le> length (unread st)"
  shows "\<exists>st1. fill_header k st = (True, st1) \<and> recv_ok st1 \<and> unread st1 = unread st \<and> k \<le> Available st1 \<and> same_parse st st1"
  using assms
proof (induction k st rule: fill_header.induct)
  case (1 k st)
  show ?case
  proof (cases "Available st < k")
    case True
    have "w_in st \<noteq> []" using True 1(4) length_buffered [OF 1(2)] by (auto simp: unread_def)
    moreover have "Available st < RecvBufSize st" using True 1(2,3) by (simp add: recv_ok_def)
    ultimately obtain st1 where m: "RecvMore st = (True, st1)" "recv_ok st1" "unread st1 = unread st" "same_parse st st1"
      using RecvMore_ok [OF 1(2)] by blast
    then show ?thesis
      using 1(1) [OF True m(1) [symmetric] refl m(2) 1(3)] 1(4) True same_parse_trans [OF m(4)]
      by (auto simp: fill_header.simps [of k st])
  next
    case False
    then show ?thesis using 1(2) by (simp add: fill_header.simps [of k st])
  qed
qed

lemma at_buf_unread:
  assumes "recv_ok st" "i < Available st"
  shows "at_buf st i = unread st ! i"
  using assms by (simp add: at_buf_def unread_def nth_append) (simp add: buffered_def recv_ok_def Available_def RecvBufSize_def)

lemma map_at_buf: "recv_ok st \<Longrightarrow> k \<le> Available st \<Longrightarrow> map (at_buf st) [0..<k] = take k (unread st)"
  using length_buffered [of st] by (intro nth_equalityI) (auto simp: at_buf_unread unread_def nth_append)

text \<open>Reading past \<open>k\<close> buffered bytes.\<close>

lemma advance_ok:
  assumes "recv_ok st" "k \<le> Available st"
  shows "recv_ok (st\<lparr>m_parsePos := m_parsePos st + k\<rparr>)" "unread (st\<lparr>m_parsePos := m_parsePos st + k\<rparr>) = drop k (unread st)"
    "Available (st\<lparr>m_parsePos := m_parsePos st + k\<rparr>) = Available st - k"
  using assms length_buffered [OF assms(1)]
  by (auto simp: recv_ok_def RecvBufSize_def Available_def unread_def buffered_def add.commute)

section \<open>The layout of a frame\<close>

definition len7_of :: "nat \<Rightarrow> u8" where
  "len7_of n = (if n \<le> 125 then of_nat n else if n \<le> 65535 then 126 else 127)"

definition ext_of :: "nat \<Rightarrow> u8 list" where
  "ext_of n = (if n \<le> 125 then [] else if n \<le> 65535 then lenBE 2 (of_nat n) else lenBE 8 (of_nat n))"

text \<open>A frame of RFC 6455: the two bytes, the extended length, the masking key and the payload, masked if there is a key.\<close>

definition frame_bytes :: "Opcode \<Rightarrow> bool \<Rightarrow> u8 list option \<Rightarrow> u8 list \<Rightarrow> u8 list" where
  "frame_bytes op is_fin mk payload =
     [(if is_fin then 0x80 else 0x00) OR op, (if mk = None then 0 else 0x80) OR len7_of (length payload)] @
     ext_of (length payload) @ (case mk of None \<Rightarrow> payload | Some key \<Rightarrow> key @ unmask key 0 payload)"

lemma frame_header_bytes: "frame_header op is_fin (length p) @ p = frame_bytes op is_fin None p"
proof -
  have "map (\<lambda>i. ucast (drop_bit (56 - 8 * i) w) :: u8) [0..<8] = lenBE 8 w" for w :: u64
    by (simp add: upt_rec numeral_eq_Suc drop_bit_drop_bit)
  moreover have "lenBE 2 w = [ucast (drop_bit 8 w), ucast w]" for w :: u64
    by (simp add: numeral_2_eq_2)
  moreover have "ucast (of_nat n :: u64) = (of_nat n :: u8)" for n
    by (rule bit_word_eqI) (auto simp: bit_simps)
  ultimately show ?thesis by (simp add: frame_header_def frame_bytes_def len7_of_def ext_of_def Let_def)
qed

text \<open>Reading the length back.\<close>

lemma foldl_lenBE: "foldl (\<lambda>len b. push_bit 8 len OR ucast b) 0 (lenBE k w) = (take_bit (8 * k) w :: u64)"
proof (induction k arbitrary: w)
  case (Suc k)
  have "push_bit 8 (take_bit (8 * k) (drop_bit 8 w)) OR ucast (ucast w :: u8) = (take_bit (8 * Suc k) w :: u64)"
    by (rule bit_word_eqI) (auto simp: bit_simps)
  then show ?case using Suc.IH [of "drop_bit 8 w"] by simp
qed simp

lemma fold_at_buf:
  "fold (\<lambda>i len. push_bit 8 len OR ucast (at_buf st i)) [0..<k] (0 :: u64) =
     foldl (\<lambda>len b. push_bit 8 len OR ucast b) 0 (map (at_buf st) [0..<k])"
  by (simp add: foldl_conv_fold fold_map comp_def)

lemma len7_of_cases:
  "n \<le> 125 \<Longrightarrow> unat (len7_of n) = n" "125 < n \<Longrightarrow> n \<le> 65535 \<Longrightarrow> unat (len7_of n) = 126" "65535 < n \<Longrightarrow> unat (len7_of n) = 127"
  by (simp_all add: len7_of_def unat_of_nat)

lemma len7_of_small: "unat (len7_of n) < 128"
  by (cases "n \<le> 125"; cases "n \<le> 65535") (simp_all add: len7_of_cases)

lemma and_7F: "unat w < 128 \<Longrightarrow> w AND 0x7F = (w :: u8)"
proof -
  assume "unat w < 128"
  then have "take_bit 7 (unat w) = unat w" by (simp add: take_bit_nat_eq_self)
  then have "take_bit 7 w = w" by (metis unsigned_take_bit_eq word_unat_eq_iff)
  then show ?thesis by (simp only: take_bit_eq_mask) (simp add: mask_eq_exp_minus_1)
qed

lemma second_byte:
  "((if m then 0x80 else 0) OR len7_of n) AND 0x7F = len7_of n"
  "((if m then 0x80 else 0) OR len7_of n) AND 0x80 \<noteq> 0 \<longleftrightarrow> m"
proof -
  have a: "len7_of n AND 0x7F = len7_of n" by (rule and_7F [OF len7_of_small])
  then have "len7_of n AND 0x80 = len7_of n AND (0x7F AND 0x80)" by (metis and.assoc)
  then have b: "len7_of n AND 0x80 = 0" by simp
  show "((if m then 0x80 else 0) OR len7_of n) AND 0x7F = len7_of n"
    using a by (simp add: bit.conj_disj_distrib2)
  show "((if m then 0x80 else 0) OR len7_of n) AND 0x80 \<noteq> 0 \<longleftrightarrow> m"
    using b by (simp add: bit.conj_disj_distrib2)
qed

lemma first_byte:
  assumes "op AND 0x0F = (op :: u8)"
  shows "((if f then 0x80 else 0) OR op) AND 0x0F = op" "((if f then 0x80 else 0) OR op) AND 0x80 \<noteq> 0 \<longleftrightarrow> f"
proof -
  have "op AND 0x80 = op AND (0x0F AND 0x80)" using assms by (metis and.assoc)
  then have b: "op AND 0x80 = 0" by simp
  show "((if f then 0x80 else 0) OR op) AND 0x0F = op" using assms by (simp add: bit.conj_disj_distrib2)
  show "((if f then 0x80 else 0) OR op) AND 0x80 \<noteq> 0 \<longleftrightarrow> f" using b by (simp add: bit.conj_disj_distrib2)
qed

lemma payload_length_ok:
  assumes "recv_ok st" "length (ext_of n) \<le> Available st" "take (length (ext_of n)) (unread st) = ext_of n" "n < 2 ^ 64"
  shows "payload_length (unat (len7_of n)) st = (of_nat n, m_parsePos st + length (ext_of n))"
proof -
  have bytes: "map (at_buf st) [0..<length (ext_of n)] = ext_of n"
    using map_at_buf [OF assms(1,2)] assms(3) by simp
  consider "n \<le> 125" | "125 < n" "n \<le> 65535" | "65535 < n" by linarith
  then show ?thesis
  proof cases
    case 1
    then show ?thesis by (simp add: payload_length_def len7_of_cases ext_of_def)
  next
    case 2
    have e: "ext_of n = lenBE 2 (of_nat n)" using 2 by (simp add: ext_of_def)
    then have "foldl (\<lambda>len b. push_bit 8 len OR ucast b) 0 [at_buf st 0, at_buf st 1] = (take_bit 16 (of_nat n) :: u64)"
      using bytes foldl_lenBE [of 2 "of_nat n"] by (simp add: upt_rec)
    moreover have "take_bit 16 (of_nat n :: u64) = of_nat n"
      using 2 by (simp add: take_bit_of_nat take_bit_nat_eq_self)
    ultimately show ?thesis using 2 e by (simp add: payload_length_def len7_of_cases)
  next
    case 3
    have e: "ext_of n = lenBE 8 (of_nat n)" using 3 by (simp add: ext_of_def)
    then have "foldl (\<lambda>len b. push_bit 8 len OR ucast b) 0 (map (at_buf st) [0..<8]) = (take_bit 64 (of_nat n) :: u64)"
      using bytes foldl_lenBE [of 8 "of_nat n"] by simp
    moreover have "take_bit 64 (of_nat n :: u64) = of_nat n" by (simp add: take_bit_word_eq_self)
    ultimately show ?thesis using 3 e unfolding payload_length_def fold_at_buf by (simp add: len7_of_cases)
  qed
qed

section \<open>Delivering a payload\<close>

lemma length_unmask [simp]: "length (unmask key off bs) = length bs"
  by (simp add: unmask_def)

lemma unmask_append: "unmask key off (as @ bs) = unmask key off as @ unmask key ((off + length as) mod 4) bs"
  by (rule nth_equalityI) (auto simp: unmask_def nth_append mod_add_left_eq)

lemma unmask_unmask: "unmask key off (unmask key off bs) = bs"
  by (rule nth_equalityI) (simp_all add: unmask_def xor.assoc)

lemma unmask_zero: "unmask (replicate 4 0) off bs = bs"
  by (rule nth_equalityI) (simp_all add: unmask_def)

text \<open>In the middle of a payload of which \<open>wire\<close> is still to come, masked.\<close>

definition in_payload :: "u8 list \<Rightarrow> u8 list \<Rightarrow> ws \<Rightarrow> bool" where
  "in_payload wire rest st \<longleftrightarrow> recv_ok st \<and> unread st = wire @ rest \<and> m_payloadRemaining st = length wire \<and>
     m_parseState st = (if wire = [] then HEADER else PAYLOAD) \<and> \<not> m_gotClose st"

lemma deliver_buffered:
  assumes "in_payload wire rest st" "0 < Available st" "wire \<noteq> []"
  shows "\<exists>n f st1. 0 < n \<and> n \<le> length wire \<and> DeliverPayloadChunk st = (Some f, st1) \<and> in_payload (drop n wire) rest st1 \<and>
    f = (m_frame st)\<lparr>data := unmask (m_maskKey st) (m_maskOffset st) (take n wire), complete := (n = length wire)\<rparr> \<and>
    m_frame st1 = f \<and> m_maskKey st1 = m_maskKey st \<and> m_maskOffset st1 = (m_maskOffset st + n) mod 4 \<and>
    m_continuationOpcode st1 = m_continuationOpcode st"
proof -
  have ok: "recv_ok st" and un: "unread st = wire @ rest" and rem: "m_payloadRemaining st = length wire"
    using assms(1) by (auto simp: in_payload_def)
  define n where n: "n = min (Available st) (length wire)"
  have n0: "0 < n" "n \<le> length wire" "n \<le> Available st" using assms(2,3) by (auto simp: n)
  have "take n (drop (m_parsePos st) (m_recvBuf st)) = take n (buffered st)"
    using n0(3) ok by (simp add: buffered_def drop_take Available_def)
  also have "\<dots> = take n (unread st)" using n0(3) length_buffered [OF ok] by (simp add: unread_def)
  also have "\<dots> = take n wire" using n0(2) un by simp
  finally have chunk: "take n (drop (m_parsePos st) (m_recvBuf st)) = take n wire" .
  let ?c = "unmask (m_maskKey st) (m_maskOffset st) (take n wire)"
  let ?f = "(m_frame st)\<lparr>data := ?c, complete := (length wire - n = 0)\<rparr>"
  let ?st1 = "st\<lparr>m_recvBuf := memcpy (m_recvBuf st) (m_parsePos st) ?c, m_frame := ?f, m_maskOffset := (m_maskOffset st + n) mod 4,
    m_payloadRemaining := length wire - n, m_parsePos := m_parsePos st + n, m_parseState := (if length wire - n = 0 then HEADER else m_parseState st)\<rparr>"
  have eq: "DeliverPayloadChunk st = (Some ?f, ?st1)"
    using assms(2) rem chunk by (simp add: DeliverPayloadChunk_def Let_def n)
  have fit: "m_parsePos st + length ?c \<le> length (m_recvBuf st)"
    using n0 ok by (auto simp: recv_ok_def RecvBufSize_def Available_def)
  have len: "length (memcpy (m_recvBuf st) (m_parsePos st) ?c) = length (m_recvBuf st)" by (rule memcpy_at(1) [OF fit])
  have tail: "drop (m_parsePos st + n) (memcpy (m_recvBuf st) (m_parsePos st) ?c) = drop (m_parsePos st + n) (m_recvBuf st)"
    using fit n0(2) by (simp add: memcpy_def)
  have buf: "buffered ?st1 = drop n (buffered st)"
    using tail by (simp add: buffered_def drop_take add.commute)
  then have un1: "unread ?st1 = drop n wire @ rest"
    using n0 un length_buffered [OF ok] by (simp add: unread_def) (metis append_eq_append_conv_if drop_append diff_is_0_eq drop0)
  have "recv_ok ?st1" using ok len n0 by (auto simp: recv_ok_def RecvBufSize_def Available_def)
  then have "in_payload (drop n wire) rest ?st1"
    using un1 n0 assms(1,3) by (auto simp: in_payload_def)
  moreover have "?f = (m_frame st)\<lparr>data := ?c, complete := (n = length wire)\<rparr>"
  proof -
    have "(length wire - n = 0) = (n = length wire)" using n0(2) by auto
    then show ?thesis by (simp only:)
  qed
  ultimately show ?thesis using eq n0 by (intro exI [of _ n] exI [of _ ?f] exI [of _ ?st1]) simp
qed

lemma deliver_chunk:
  assumes "in_payload wire rest st" "wire \<noteq> []"
  shows "\<exists>n f st1. 0 < n \<and> n \<le> length wire \<and> DeliverPayloadChunk st = (Some f, st1) \<and> in_payload (drop n wire) rest st1 \<and>
    f = (m_frame st)\<lparr>data := unmask (m_maskKey st) (m_maskOffset st) (take n wire), complete := (n = length wire)\<rparr> \<and>
    m_frame st1 = f \<and> m_maskKey st1 = m_maskKey st \<and> m_maskOffset st1 = (m_maskOffset st + n) mod 4 \<and>
    m_continuationOpcode st1 = m_continuationOpcode st"
proof (cases "Available st = 0")
  case False
  then show ?thesis using deliver_buffered [OF assms(1) _ assms(2)] by simp
next
  case True
  have ok: "recv_ok st" and un: "unread st = wire @ rest" using assms(1) by (auto simp: in_payload_def)
  note c = Compact_ok [OF ok]
  have av: "Available (Compact st) = 0" using True c(1,2) ok by (metis length_buffered)
  have "w_in (Compact st) \<noteq> []"
    using True assms(2) un length_buffered [OF ok] by (auto simp: unread_def)
  moreover have "Available (Compact st) < RecvBufSize (Compact st)" using av c(1) by (simp add: recv_ok_def)
  ultimately obtain st0 where m: "RecvMore (Compact st) = (True, st0)" "recv_ok st0" "unread st0 = unread st"
      "0 < Available st0" "same_parse st st0"
    using RecvMore_ok [OF c(1)] c(3) same_parse_trans [OF c(4)] av by metis
  have "in_payload wire rest st0" using assms(1) m(2,3,5) by (simp add: in_payload_def same_parse_def)
  moreover have "DeliverPayloadChunk st = DeliverPayloadChunk st0"
    using True m(1,4) by (simp add: DeliverPayloadChunk_def)
  ultimately show ?thesis using deliver_buffered [OF _ m(4) assms(2)] m(5) by (simp add: same_parse_def)
qed

text \<open>A reader that calls \<open>NextFrame\<close> until a frame is complete, at most \<open>n\<close> times.\<close>

fun collect :: "nat \<Rightarrow> ws \<Rightarrow> (Frame \<times> u8 list) option \<times> ws" where
  "collect 0 st = (None, st)"
| "collect (Suc n) st = (case NextFrame st of
       (None, st1) \<Rightarrow> (None, st1)
     | (Some f, st1) \<Rightarrow>
         if complete f then (Some (f, data f), st1)
         else (case collect n st1 of
                 (None, st2) \<Rightarrow> (None, st2)
               | (Some (g, ds), st2) \<Rightarrow> (Some (g, data f @ ds), st2)))"

text \<open>What is read of a frame after its first chunk.\<close>

definition delivers :: "(Frame \<times> u8 list) option \<times> ws \<Rightarrow> u8 list \<Rightarrow> u8 list \<Rightarrow> ws \<Rightarrow> bool" where
  "delivers r payload rest st \<longleftrightarrow> (\<exists>f st1. r = (Some (f, payload), st1) \<and> in_payload [] rest st1 \<and>
     opcode f = opcode (m_frame st) \<and> fin f = fin (m_frame st) \<and> complete f \<and> m_continuationOpcode st1 = m_continuationOpcode st)"

lemma chunks_collected:
  assumes "in_payload wire rest st" "wire \<noteq> []" "DeliverPayloadChunk st = (Some f, st1)" "length wire \<le> Suc k"
  shows "delivers (if complete f then (Some (f, data f), st1)
     else (case collect k st1 of (None, st2) \<Rightarrow> (None, st2) | (Some (g, ds), st2) \<Rightarrow> (Some (g, data f @ ds), st2)))
     (unmask (m_maskKey st) (m_maskOffset st) wire) rest st"
  using assms
proof (induction k arbitrary: wire st f st1)
  case 0
  obtain n where n: "0 < n" "n \<le> length wire" "in_payload (drop n wire) rest st1"
    "f = (m_frame st)\<lparr>data := unmask (m_maskKey st) (m_maskOffset st) (take n wire), complete := (n = length wire)\<rparr>"
    "m_continuationOpcode st1 = m_continuationOpcode st"
    using deliver_chunk [OF 0(1,2)] 0(3) by auto
  then have "n = length wire" using 0(4) by simp
  then show ?case using n by (simp add: delivers_def)
next
  case (Suc k)
  obtain n where n: "0 < n" "n \<le> length wire" "in_payload (drop n wire) rest st1"
    "f = (m_frame st)\<lparr>data := unmask (m_maskKey st) (m_maskOffset st) (take n wire), complete := (n = length wire)\<rparr>"
    "m_frame st1 = f" "m_maskKey st1 = m_maskKey st" "m_maskOffset st1 = (m_maskOffset st + n) mod 4"
    "m_continuationOpcode st1 = m_continuationOpcode st"
    using deliver_chunk [OF Suc(2,3)] Suc(4) by auto
  show ?case
  proof (cases "n = length wire")
    case True
    then show ?thesis using n by (simp add: delivers_def)
  next
    case False
    then have w: "drop n wire \<noteq> []" using n(2) by simp
    obtain f2 st2 where d: "DeliverPayloadChunk st1 = (Some f2, st2)" using deliver_chunk [OF n(3) w] by blast
    have "NextFrame st1 = DeliverPayloadChunk st1"
      using n(3) w by (simp add: NextFrame_def in_payload_def)
    then have "delivers (collect (Suc k) st1) (unmask (m_maskKey st1) (m_maskOffset st1) (drop n wire)) rest st1"
      using Suc.IH [OF n(3) w d] Suc(5) n(1) d by (simp add: d)
    moreover have "unmask (m_maskKey st) (m_maskOffset st) wire =
        data f @ unmask (m_maskKey st1) (m_maskOffset st1) (drop n wire)"
      using unmask_append [of "m_maskKey st" "m_maskOffset st" "take n wire" "drop n wire"] n by simp
    ultimately show ?thesis using False n by (auto simp: delivers_def simp del: collect.simps)
  qed
qed

section \<open>Reading a frame\<close>

definition logical :: "Opcode \<Rightarrow> Opcode \<Rightarrow> Opcode" where
  "logical cont op = (if op = Continuation then cont else op)"

definition next_cont :: "Opcode \<Rightarrow> bool \<Rightarrow> Opcode \<Rightarrow> Opcode" where
  "next_cont op is_fin cont = (if (op = Text \<or> op = Binary) \<and> \<not> is_fin then op else cont)"

lemma extra_header_ok: "extra_header (unat (len7_of n)) m = length (ext_of n) + (if m then 4 else 0)"
  by (cases "n \<le> 125"; cases "n \<le> 65535") (simp_all add: extra_header_def len7_of_cases ext_of_def)

lemma extra_header_le: "extra_header k m \<le> 12"
  by (simp add: extra_header_def)

lemma key_unread:
  assumes "recv_ok st" "k + 4 \<le> Available st"
  shows "take 4 (drop (m_parsePos st + k) (m_recvBuf st)) = take 4 (drop k (unread st))"
proof -
  have "take 4 (drop k (unread st)) = take 4 (drop k (buffered st))"
    using assms length_buffered [OF assms(1)] by (simp add: unread_def)
  also have "\<dots> = take 4 (drop (m_parsePos st + k) (m_recvBuf st))"
    using assms by (simp add: buffered_def drop_take Available_def add.commute)
  finally show ?thesis by simp
qed

text \<open>The bytes behind the extended length, and the payload they carry once unmasked.\<close>

definition mask_of :: "u8 list option \<Rightarrow> u8 list" where
  "mask_of mk = (case mk of None \<Rightarrow> replicate 4 0 | Some key \<Rightarrow> key)"

lemma frame_bytes_wire:
  "frame_bytes op is_fin mk p = [(if is_fin then 0x80 else 0x00) OR op, (if mk \<noteq> None then 0x80 else 0) OR len7_of (length p)] @
     ext_of (length p) @ (case mk of None \<Rightarrow> [] | Some key \<Rightarrow> key) @ unmask (mask_of mk) 0 p"
  by (cases mk) (simp_all add: frame_bytes_def mask_of_def unmask_zero)

lemma parse_header_ok:
  assumes ok: "recv_ok st" and st: "\<not> m_gotClose st" and op: "op AND 0x0F = op" "op \<noteq> Close_op"
    and key: "\<And>k. mk = Some k \<Longrightarrow> length k = 4" and n: "length p < 2 ^ 64"
    and un: "unread st = ext_of (length p) @ (case mk of None \<Rightarrow> [] | Some key \<Rightarrow> key) @ unmask (mask_of mk) 0 p @ rest"
    and av: "extra_header (unat (len7_of (length p))) (mk \<noteq> None) \<le> Available st"
  shows "\<exists>st1. parse_header ((if is_fin then 0x80 else 0x00) OR op) ((if mk \<noteq> None then 0x80 else 0) OR len7_of (length p)) st =
      (if p = [] then (Some (m_frame st1), st1) else DeliverPayloadChunk st1) \<and>
    in_payload (unmask (mask_of mk) 0 p) rest st1 \<and> opcode (m_frame st1) = logical (m_continuationOpcode st) op \<and>
    fin (m_frame st1) = is_fin \<and> m_continuationOpcode st1 = next_cont op is_fin (m_continuationOpcode st) \<and>
    m_maskKey st1 = mask_of mk \<and> m_maskOffset st1 = 0 \<and> (p = [] \<longrightarrow> data (m_frame st1) = [] \<and> complete (m_frame st1))"
proof -
  let ?m = "mk \<noteq> None" and ?e = "ext_of (length p)"
  let ?x = "length ?e + (if ?m then 4 else 0)"
  have ex: "?x \<le> Available st" using av by (simp add: extra_header_ok)
  have len: "payload_length (unat (len7_of (length p))) st = (of_nat (length p), m_parsePos st + length ?e)"
    by (rule payload_length_ok) (use ok ex un n in auto)
  have keyb: "(if ?m then take 4 (drop (m_parsePos st + length ?e) (m_recvBuf st)) else replicate 4 0) = mask_of mk"
    using key_unread [OF ok, of "length ?e"] ex un key by (cases mk) (auto simp: mask_of_def)
  have pos: "(if ?m then m_parsePos st + length ?e + 4 else m_parsePos st + length ?e) = m_parsePos st + ?x" by simp
  have adv: "recv_ok (st\<lparr>m_parsePos := m_parsePos st + ?x\<rparr>)" "unread (st\<lparr>m_parsePos := m_parsePos st + ?x\<rparr>) = unmask (mask_of mk) 0 p @ rest"
    using advance_ok [OF ok ex] un key by (cases mk; simp)+
  have n0: "unat (of_nat (length p) :: u64) = length p" using n by (simp add: unat_of_nat)
  have "unat (of_nat (length p) :: u64) = 0 \<longleftrightarrow> (of_nat (length p) :: u64) = 0" by (rule unsigned_eq_0_iff)
  then have n1: "(of_nat (length p) :: u64) = 0 \<longleftrightarrow> p = []" by (simp only: n0 length_0_conv)
  define fr where "fr = (m_frame st)\<lparr>opcode := logical (m_continuationOpcode st) op, fin := is_fin\<rparr>"
  define st1 where "st1 = st\<lparr>m_parsePos := m_parsePos st + ?x, m_payloadLen := of_nat (length p), m_maskKey := mask_of mk,
    m_payloadRemaining := length p, m_maskOffset := 0, m_frame := (if p = [] then fr\<lparr>data := [], complete := True\<rparr> else fr),
    m_continuationOpcode := next_cont op is_fin (m_continuationOpcode st), m_gotClose := m_gotClose st,
    m_parseState := (if p = [] then HEADER else PAYLOAD)\<rparr>"
  have "parse_header ((if is_fin then 0x80 else 0x00) OR op) ((if ?m then 0x80 else 0) OR len7_of (length p)) st =
      (if p = [] then (Some (m_frame st1), st1) else DeliverPayloadChunk st1)"
    unfolding parse_header_def Let_def first_byte [OF op(1)] second_byte len prod.case keyb pos n0 n1
    using op(2) by (cases "p = []") (simp_all add: st1_def fr_def logical_def next_cont_def)
  moreover have "recv_ok st1" "unread st1 = unmask (mask_of mk) 0 p @ rest"
    using adv by (simp_all add: st1_def recv_ok_def unread_def buffered_def RecvBufSize_def)
  ultimately show ?thesis
    using st by (intro exI [of _ st1]) (auto simp: st1_def fr_def in_payload_def unmask_def)
qed

lemma next_frame:
  assumes at: "in_payload [] (frame_bytes op is_fin mk p @ rest) st" and op: "op AND 0x0F = op" "op \<noteq> Close_op"
    and key: "\<And>k. mk = Some k \<Longrightarrow> length k = 4" and n: "length p < 2 ^ 64"
  shows "\<exists>st1. NextFrame st = (if p = [] then (Some (m_frame st1), st1) else DeliverPayloadChunk st1) \<and>
    in_payload (unmask (mask_of mk) 0 p) rest st1 \<and> opcode (m_frame st1) = logical (m_continuationOpcode st) op \<and>
    fin (m_frame st1) = is_fin \<and> m_continuationOpcode st1 = next_cont op is_fin (m_continuationOpcode st) \<and>
    m_maskKey st1 = mask_of mk \<and> m_maskOffset st1 = 0 \<and> (p = [] \<longrightarrow> data (m_frame st1) = [] \<and> complete (m_frame st1))"
proof -
  let ?b0 = "(if is_fin then 0x80 else 0x00) OR op" and ?b1 = "(if mk \<noteq> None then 0x80 else 0) OR len7_of (length p)"
  let ?body = "ext_of (length p) @ (case mk of None \<Rightarrow> [] | Some key \<Rightarrow> key) @ unmask (mask_of mk) 0 p @ rest"
  have un: "unread st = [?b0, ?b1] @ ?body" and ok: "recv_ok st" and st: "\<not> m_gotClose st" "m_parseState st = HEADER"
    using at by (auto simp: in_payload_def frame_bytes_wire)
  have "2 \<le> length (unread st)" unfolding un by simp
  then obtain st1 where f1: "fill_header 2 st = (True, st1)" "recv_ok st1" "unread st1 = unread st" "2 \<le> Available st1" "same_parse st st1"
    using fill_header_ok [OF ok, of 2] by auto
  define st2 where "st2 = st1\<lparr>m_parsePos := m_parsePos st1 + 2\<rparr>"
  have s2: "recv_ok st2" using advance_ok(1) [OF f1(2,4)] by (simp add: st2_def)
  have u2: "unread st2 = ?body" unfolding st2_def advance_ok(2) [OF f1(2,4)] f1(3) un by simp
  let ?x = "extra_header (unat (len7_of (length p))) (mk \<noteq> None)"
  have "?x \<le> length (unread st2)" unfolding u2 using key by (cases mk) (auto simp: extra_header_ok)
  then obtain st3 where f3: "fill_header ?x st2 = (True, st3)" "recv_ok st3" "unread st3 = ?body" "?x \<le> Available st3" "same_parse st2 st3"
    using fill_header_ok [OF s2 extra_header_le] u2 by metis
  have "0 < Available st1" "1 < Available st1" using f1(4) by simp_all
  then have b: "at_buf st1 0 = ?b0" "at_buf st1 1 = ?b1"
    by (simp_all only: at_buf_unread [OF f1(2)] f1(3) un) simp_all
  have "NextFrame st = (case fill_header (extra_header (unat (at_buf st1 1 AND 0x7F)) (at_buf st1 1 AND 0x80 \<noteq> 0)) st2 of
      (False, st3) \<Rightarrow> (None, st3) | (True, st3) \<Rightarrow> parse_header (at_buf st1 0) (at_buf st1 1) st3)"
    using st f1(1) by (simp add: NextFrame_def Let_def st2_def del: One_nat_def)
  also have "\<dots> = parse_header ?b0 ?b1 st3"
    unfolding b second_byte f3(1) prod.case bool.case ..
  finally have nxt: "NextFrame st = parse_header ?b0 ?b1 st3" .
  have same: "m_gotClose st3 = m_gotClose st" "m_continuationOpcode st3 = m_continuationOpcode st"
    using f1(5) f3(5) by (simp_all add: same_parse_def st2_def)
  have close: "\<not> m_gotClose st3" using st(1) same(1) by simp
  show ?thesis
    using parse_header_ok [OF f3(2) close op key n f3(3,4), of is_fin] unfolding same(2) nxt by blast
qed

lemma read_frame:
  assumes "in_payload [] (frame_bytes op is_fin mk p @ rest) st" "op AND 0x0F = op" "op \<noteq> Close_op"
    "\<And>k. mk = Some k \<Longrightarrow> length k = 4" "length p < 2 ^ 64" "length p \<le> k"
  shows "\<exists>f st1. collect (Suc k) st = (Some (f, p), st1) \<and> in_payload [] rest st1 \<and>
    opcode f = logical (m_continuationOpcode st) op \<and> fin f = is_fin \<and>
    m_continuationOpcode st1 = next_cont op is_fin (m_continuationOpcode st)"
proof -
  obtain st1 where s1: "NextFrame st = (if p = [] then (Some (m_frame st1), st1) else DeliverPayloadChunk st1)"
    "in_payload (unmask (mask_of mk) 0 p) rest st1" "opcode (m_frame st1) = logical (m_continuationOpcode st) op"
    "fin (m_frame st1) = is_fin" "m_continuationOpcode st1 = next_cont op is_fin (m_continuationOpcode st)"
    "m_maskKey st1 = mask_of mk" "m_maskOffset st1 = 0" "p = [] \<longrightarrow> data (m_frame st1) = [] \<and> complete (m_frame st1)"
    using next_frame [OF assms(1-5)] by blast
  show ?thesis
  proof (cases "p = []")
    case True
    then show ?thesis using s1 by (simp add: unmask_def)
  next
    case False
    then have w: "unmask (mask_of mk) 0 p \<noteq> []" by (metis length_unmask length_0_conv)
    obtain f2 st2 where d: "DeliverPayloadChunk st1 = (Some f2, st2)" using deliver_chunk [OF s1(2) w] by blast
    have "delivers (collect (Suc k) st) p rest st1"
      using chunks_collected [OF s1(2) w d, of k] s1(1,6,7) assms(6) False d by (simp add: unmask_unmask)
    then show ?thesis using s1 unfolding delivers_def by auto
  qed
qed

declare collect.simps [simp del]

section \<open>Properties\<close>

text \<open>A fresh connection between frames, with all the bytes of the transport still to read.\<close>

lemma ws_new_ok:
  assumes "12 \<le> n" "length initial \<le> n" "\<forall>r \<in> set ins. \<exists>b bs. r = Bytes (b # bs)"
  shows "in_payload [] (initial @ concat (map result_bytes ins)) (ws_new n m initial ins outs)"
  using assms
  by (auto simp: in_payload_def ws_new_def Let_def recv_ok_def RecvBufSize_def unread_def buffered_def memcpy_def)



text \<open>A server that sends frames, and a peer that reads as many.\<close>

fun send_frames :: "(Opcode \<times> bool \<times> u8 list) list \<Rightarrow> ws \<Rightarrow> bool \<times> ws" where
  "send_frames [] st = (True, st)"
| "send_frames ((op, is_fin, p) # fs) st = (case SendFrame op is_fin p st of
       (False, st1) \<Rightarrow> (False, st1)
     | (True, st1) \<Rightarrow> send_frames fs st1)"

fun read_frames :: "nat \<Rightarrow> nat \<Rightarrow> ws \<Rightarrow> (Opcode \<times> bool \<times> u8 list) list \<times> ws" where
  "read_frames k 0 st = ([], st)"
| "read_frames k (Suc n) st = (case collect k st of
       (None, st1) \<Rightarrow> ([], st1)
     | (Some (f, p), st1) \<Rightarrow> (case read_frames k n st1 of (fs, st2) \<Rightarrow> ((opcode f, fin f, p) # fs, st2)))"

text \<open>The frames as a reader sees them: continuation frames carry the opcode of the message.\<close>

fun as_seen :: "Opcode \<Rightarrow> (Opcode \<times> bool \<times> u8 list) list \<Rightarrow> (Opcode \<times> bool \<times> u8 list) list" where
  "as_seen cont [] = []"
| "as_seen cont ((op, is_fin, p) # fs) = (logical cont op, is_fin, p) # as_seen (next_cont op is_fin cont) fs"

definition plain_frame :: "nat \<Rightarrow> Opcode \<times> bool \<times> u8 list \<Rightarrow> bool" where
  "plain_frame k = (\<lambda>(op, is_fin, p). op AND 0x0F = op \<and> op \<noteq> Close_op \<and> length p \<le> k)"

lemma send_frames_ok:
  assumes "send_ok st" "m_sendLen st = 0"
  shows "\<exists>st1. send_frames fs st = (True, st1) \<and>
    w_wire st1 = w_wire st @ concat (map (\<lambda>(op, is_fin, p). frame_bytes op is_fin None p) fs)"
  using assms
proof (induction fs arbitrary: st)
  case (Cons a fs)
  obtain op is_fin p where a: "a = (op, is_fin, p)" by (cases a)
  obtain st1 where s: "SendFrame op is_fin p st = (True, st1)" "send_ok st1" "m_sendLen st1 = 0"
    "w_wire st1 = accepted st @ frame_header op is_fin (length p) @ p"
    using SendFrame_ok [OF Cons.prems(1)] by blast
  have "w_wire st1 = w_wire st @ frame_bytes op is_fin None p"
    using s(4) Cons.prems(2) by (simp add: accepted_def frame_header_bytes)
  then show ?case using Cons.IH [OF s(2,3)] s(1) by (simp add: a)
qed simp

lemma read_frames_ok:
  assumes "in_payload [] (concat (map (\<lambda>(op, is_fin, p). frame_bytes op is_fin None p) fs) @ rest) st"
    "\<forall>f \<in> set fs. plain_frame k f" "k < 2 ^ 64"
  shows "\<exists>st1. read_frames (Suc k) (length fs) st = (as_seen (m_continuationOpcode st) fs, st1) \<and> in_payload [] rest st1"
  using assms
proof (induction fs arbitrary: st)
  case (Cons a fs)
  obtain op is_fin p where a: "a = (op, is_fin, p)" by (cases a)
  have p: "op AND 0x0F = op" "op \<noteq> Close_op" "length p \<le> k" using Cons.prems(2) by (simp_all add: a plain_frame_def)
  have at: "in_payload [] (frame_bytes op is_fin None p @ concat (map (\<lambda>(op, is_fin, p). frame_bytes op is_fin None p) fs) @ rest) st"
    using Cons.prems(1) by (simp add: a)
  have lt: "length p < 2 ^ 64" using p(3) Cons.prems(3) by (rule le_less_trans)
  obtain f st1 where r: "collect (Suc k) st = (Some (f, p), st1)"
    "in_payload [] (concat (map (\<lambda>(op, is_fin, p). frame_bytes op is_fin None p) fs) @ rest) st1"
    "opcode f = logical (m_continuationOpcode st) op" "fin f = is_fin"
    "m_continuationOpcode st1 = next_cont op is_fin (m_continuationOpcode st)"
    using read_frame [OF at p(1,2) _ lt p(3)] by blast
  obtain st2 where "read_frames (Suc k) (length fs) st1 = (as_seen (m_continuationOpcode st1) fs, st2)" "in_payload [] rest st2"
    using Cons.IH [OF r(2) _ Cons.prems(3)] Cons.prems(2) by auto
  then show ?case using r by (simp add: a)
qed simp




end
