(* ===== verification/Http_Connection.thy ===== *)
theory Http_Connection
  imports Coop_Prelude "HOL-Library.Char_ord"
begin

text \<open>
  The HTTP request parser (\<open>coop/http/connection.cpp\<close>, \<open>coop/http/connection.h\<close>, \<open>coop/http/types.h\<close>): the receive
  buffer, the request line, the query arguments, the headers, and the body with its two framings.

  Pointers into the receive buffer are offsets: a view is an offset and a length, a name is the offset of a string that
  ends at a NUL. What a caller sees through one depends on the buffer when it looks. The transport is what its calls
  return: a list of results for the successive receives (some bytes, of which a call takes what fits, a failure, or a kill
  of the context while it waited); when the list is used up the peer has closed.

  A call that does not return is \<open>None\<close>: \<open>AdvanceToPhase\<close> has a loop with no bound, and so have the calls that use it.
\<close>

section \<open>State\<close>

datatype Phase = REQUEST_LINE | ARGS | HEADERS | BODY | DONE

fun phase_value :: "Phase \<Rightarrow> nat" where
  "phase_value REQUEST_LINE = 0"
| "phase_value ARGS = 1"
| "phase_value HEADERS = 2"
| "phase_value BODY = 3"
| "phase_value DONE = 4"

instantiation Phase :: linorder
begin

definition less_eq_Phase :: "Phase \<Rightarrow> Phase \<Rightarrow> bool" where
  "less_eq_Phase a b \<longleftrightarrow> phase_value a \<le> phase_value b"

definition less_Phase :: "Phase \<Rightarrow> Phase \<Rightarrow> bool" where
  "less_Phase a b \<longleftrightarrow> phase_value a < phase_value b"

instance
proof
  fix a b :: Phase
  assume "a \<le> b" "b \<le> a"
  then show "a = b" by (cases a; cases b; simp add: less_eq_Phase_def)
qed (auto simp: less_eq_Phase_def less_Phase_def)

end

lemmas phase_order = less_eq_Phase_def less_Phase_def

text \<open>\<open>std::string_view\<close> and \<open>Chunk\<close>: offsets into the receive buffer.\<close>

type_synonym view = "nat \<times> nat"

record Chunk =
  c_data :: nat
  c_size :: nat
  c_complete :: bool

record RequestLine =
  rl_method :: view
  rl_path :: view

datatype received = Bytes string | RecvFail | RecvKilled

datatype sent = Sent | SendFailed nat

record http =
  m_buf :: string
  m_sendBuf :: string
  m_bufLen :: nat
  m_parsePos :: nat
  m_sendLen :: nat
  m_phase :: Phase
  m_contentLength :: int
  m_chunkedBody :: bool
  m_bodyRemaining :: nat
  m_requestLine :: RequestLine
  m_chunk :: Chunk
  m_requestLineParsed :: bool
  m_chunkedDone :: bool
  m_valueConsumed :: bool
  m_pendingContentLength :: bool
  m_pendingTransferEncoding :: bool
  m_pendingConnection :: bool
  m_chunkedHeadersPending :: bool
  m_chunkedStatus :: int
  m_chunkedContentType :: string
  m_keepAlive :: bool
  m_clientClose :: bool
  m_sendError :: bool
  x_killed :: bool
  x_in :: "received list"
  x_sends :: "sent list"
  x_wire :: string

definition no_line :: RequestLine where
  "no_line = \<lparr>rl_method = (0, 0), rl_path = (0, 0)\<rparr>"

definition no_chunk :: Chunk where
  "no_chunk = \<lparr>c_data = 0, c_size = 0, c_complete = False\<rparr>"

definition http_new :: "nat \<Rightarrow> nat \<Rightarrow> received list \<Rightarrow> sent list \<Rightarrow> http" where
  "http_new recvBufSize sendBufSize ins outs =
     \<lparr>m_buf = replicate recvBufSize (CHR 0x00), m_sendBuf = replicate sendBufSize (CHR 0x00), m_bufLen = 0, m_parsePos = 0,
      m_sendLen = 0, m_phase = REQUEST_LINE, m_contentLength = - 1, m_chunkedBody = False, m_bodyRemaining = 0,
      m_requestLine = no_line, m_chunk = no_chunk, m_requestLineParsed = False, m_chunkedDone = False,
      m_valueConsumed = True, m_pendingContentLength = False, m_pendingTransferEncoding = False,
      m_pendingConnection = False, m_chunkedHeadersPending = False, m_chunkedStatus = 0, m_chunkedContentType = [],
      m_keepAlive = True, m_clientClose = False, m_sendError = False, x_killed = False, x_in = ins, x_sends = outs,
      x_wire = []\<rparr>"

text \<open>What a caller reads through a view, and through a pointer to a string.\<close>

definition view_text :: "http \<Rightarrow> view \<Rightarrow> string" where
  "view_text st v = take (snd v) (drop (fst v) (m_buf st))"

definition chunk_text :: "http \<Rightarrow> Chunk \<Rightarrow> string" where
  "chunk_text st c = view_text st (c_data c, c_size c)"

definition c_string :: "http \<Rightarrow> nat \<Rightarrow> string" where
  "c_string st p = takeWhile (\<lambda>c. c \<noteq> CHR 0x00) (drop p (m_buf st))"

section \<open>The receive buffer\<close>

definition hCompact :: "http \<Rightarrow> http" where
  "hCompact st =
     (if m_parsePos st = 0 then st
      else let remaining = m_bufLen st - m_parsePos st;
               buf = (if remaining > 0 then memcpy (m_buf st) 0 (take remaining (drop (m_parsePos st) (m_buf st)))
                      else m_buf st)
           in st\<lparr>m_buf := buf, m_bufLen := remaining, m_parsePos := 0\<rparr>)"

text \<open>The transport's receive into \<open>space\<close> bytes: what it wrote, whether the context was killed meanwhile, and the results
  to come. No bytes stand for a result that is not positive.\<close>

fun hTransportRecv :: "nat \<Rightarrow> received list \<Rightarrow> string \<times> bool \<times> received list" where
  "hTransportRecv space [] = ([], False, [])"
| "hTransportRecv space (RecvFail # r) = ([], False, r)"
| "hTransportRecv space (RecvKilled # r) = ([], True, r)"
| "hTransportRecv space (Bytes bs # r) = (take space bs, False, if drop space bs = [] then r else Bytes (drop space bs) # r)"

text \<open>Whether \<open>RecvMore\<close> returned a positive number.\<close>

definition hRecvMore :: "http \<Rightarrow> bool \<times> http" where
  "hRecvMore st =
     (if x_killed st then (False, st)
      else let st1 = (if length (m_buf st) \<le> m_bufLen st then hCompact st else st);
               space = length (m_buf st1) - m_bufLen st1
           in if space = 0 then (False, st1)
              else case hTransportRecv space (x_in st1) of (bs, killed, ins) \<Rightarrow>
                if killed \<or> bs = [] then (False, st1\<lparr>x_in := ins, x_killed := killed\<rparr>)
                else (True, st1\<lparr>m_buf := memcpy (m_buf st1) (m_bufLen st1) bs, m_bufLen := m_bufLen st1 + length bs, x_in := ins\<rparr>))"

text \<open>The calls read the buffer by \<open>memchr\<close> and by loops that stop at a delimiter.\<close>

definition memchr :: "char \<Rightarrow> http \<Rightarrow> nat \<Rightarrow> nat \<Rightarrow> nat option" where
  "memchr c st from to = find (\<lambda>i. m_buf st ! i = c) [from..<to]"

definition scan_for :: "char list \<Rightarrow> http \<Rightarrow> nat option" where
  "scan_for cs st = find (\<lambda>i. m_buf st ! i \<in> set cs) [m_parsePos st..<m_bufLen st]"

fun received_size :: "received \<Rightarrow> nat" where
  "received_size (Bytes bs) = length bs"
| "received_size RecvFail = 0"
| "received_size RecvKilled = 0"

definition to_come :: "http \<Rightarrow> nat" where
  "to_come st = sum_list (map received_size (x_in st))"

definition unread_size :: "http \<Rightarrow> nat" where
  "unread_size st = to_come st + (m_bufLen st - m_parsePos st)"

lemma hCompact_in [simp]: "x_in (hCompact st) = x_in st" "to_come (hCompact st) = to_come st"
  by (simp_all add: hCompact_def Let_def to_come_def)

lemma hCompact_unread [simp]: "unread_size (hCompact st) = unread_size st"
  by (simp add: hCompact_def Let_def unread_size_def to_come_def)

lemma hTransportRecv_size:
  "hTransportRecv n ins = (bs, k, ins1) \<Longrightarrow> sum_list (map received_size ins1) + length bs = sum_list (map received_size ins)"
  by (cases "(n, ins)" rule: hTransportRecv.cases) (auto split: if_splits)

lemma hTransportRecv_less:
  "hTransportRecv n ins = (bs, k, ins1) \<Longrightarrow> bs \<noteq> [] \<Longrightarrow> sum_list (map received_size ins1) < sum_list (map received_size ins)"
  using hTransportRecv_size [of n ins bs k ins1] by (cases bs) auto

text \<open>Receiving changes the buffer, its two positions, and the state of the transport and the context.\<close>

definition rebuf :: "http \<Rightarrow> http \<Rightarrow> http" where
  "rebuf st1 st = st\<lparr>m_buf := m_buf st1, m_bufLen := m_bufLen st1, m_parsePos := m_parsePos st1, x_in := x_in st1, x_killed := x_killed st1\<rparr>"

lemma hCompact_frame: "rebuf (hCompact st) st = hCompact st"
  by (simp add: hCompact_def rebuf_def Let_def)

lemma hRecvMore_frame: "hRecvMore st = (b, st1) \<Longrightarrow> rebuf st1 st = st1"
  unfolding hRecvMore_def Let_def hCompact_def by (auto simp: rebuf_def split: if_splits prod.splits)

lemma rebuf_fields:
  assumes "rebuf st1 st = st1"
  shows "m_sendBuf st1 = m_sendBuf st" "m_sendLen st1 = m_sendLen st" "m_phase st1 = m_phase st"
    "m_contentLength st1 = m_contentLength st" "m_chunkedBody st1 = m_chunkedBody st" "m_bodyRemaining st1 = m_bodyRemaining st"
    "m_requestLine st1 = m_requestLine st" "m_chunk st1 = m_chunk st" "m_requestLineParsed st1 = m_requestLineParsed st"
    "m_chunkedDone st1 = m_chunkedDone st" "m_valueConsumed st1 = m_valueConsumed st" "m_pendingContentLength st1 = m_pendingContentLength st"
    "m_pendingTransferEncoding st1 = m_pendingTransferEncoding st" "m_pendingConnection st1 = m_pendingConnection st" "m_keepAlive st1 = m_keepAlive st"
    "m_clientClose st1 = m_clientClose st" "m_sendError st1 = m_sendError st"
  by (subst assms [symmetric], simp add: rebuf_def)+

lemmas hRecvMore_fields = rebuf_fields [OF hRecvMore_frame]
lemmas hCompact_fields [simp] = rebuf_fields [OF hCompact_frame]

lemma hRecvMore_to_come: "hRecvMore st = (True, st1) \<Longrightarrow> to_come st1 < to_come st"
  unfolding hRecvMore_def Let_def hCompact_def to_come_def
  by (auto dest!: hTransportRecv_less split: if_splits prod.splits)

lemma hRecvMore_unread: "hRecvMore st = (b, st1) \<Longrightarrow> unread_size st1 \<le> unread_size st"
  unfolding hRecvMore_def Let_def hCompact_def to_come_def unread_size_def
  by (auto dest!: hTransportRecv_size split: if_splits prod.splits)

lemma unread_size_simps [simp]:
  "unread_size (st\<lparr>m_valueConsumed := b\<rparr>) = unread_size st" "unread_size (st\<lparr>m_phase := ph\<rparr>) = unread_size st"
  "unread_size (st\<lparr>m_bodyRemaining := n\<rparr>) = unread_size st" "unread_size (st\<lparr>m_chunk := c\<rparr>) = unread_size st"
  "unread_size (st\<lparr>m_chunkedDone := b\<rparr>) = unread_size st" "unread_size (st\<lparr>m_pendingConnection := b\<rparr>) = unread_size st"
  "unread_size (st\<lparr>m_pendingContentLength := b\<rparr>) = unread_size st" "unread_size (st\<lparr>m_pendingTransferEncoding := b\<rparr>) = unread_size st"
  by (simp_all add: unread_size_def to_come_def)

lemma hCompact_pos [simp]: "m_parsePos (hCompact st) = 0"
  by (simp add: hCompact_def Let_def)

lemma hRecvMore_pos: "hRecvMore st = (True, st1) \<Longrightarrow> m_parsePos st = 0 \<Longrightarrow> m_parsePos st1 = 0 \<and> 0 < m_bufLen st1"
  unfolding hRecvMore_def Let_def hCompact_def by (auto split: if_splits prod.splits)

section \<open>The request line\<close>

definition has_line :: "http \<Rightarrow> bool" where
  "has_line st = (case memchr (CHR 0x0D) st (m_parsePos st) (m_bufLen st) of
       None \<Rightarrow> False
     | Some cr \<Rightarrow> cr + 1 < m_bufLen st \<and> m_buf st ! (cr + 1) = CHR 0x0A)"

definition ParseRequestLine :: "http \<Rightarrow> bool \<times> http" where
  "ParseRequestLine st =
     (case memchr (CHR '' '') st (m_parsePos st) (m_bufLen st) of
        None \<Rightarrow> (False, st)
      | Some sp \<Rightarrow>
          let st1 = st\<lparr>m_requestLine := (m_requestLine st)\<lparr>rl_method := (m_parsePos st, sp - m_parsePos st)\<rparr>\<rparr>
          in case find (\<lambda>i. m_buf st ! i \<in> {CHR ''?'', CHR '' '', CHR 0x0D}) [sp + 1..<m_bufLen st] of
               None \<Rightarrow> (False, st1)
             | Some i \<Rightarrow>
                 (True, st1\<lparr>m_requestLine := (m_requestLine st1)\<lparr>rl_path := (sp + 1, i - (sp + 1))\<rparr>,
                    m_parsePos := (if m_buf st ! i = CHR ''?'' then i + 1 else i)\<rparr>))"

function request_line_loop :: "http \<Rightarrow> bool \<times> http" where
  "request_line_loop st =
     (if has_line st then
        (case ParseRequestLine st of
           (False, st1) \<Rightarrow> (False, st1)
         | (True, st1) \<Rightarrow> (True, st1\<lparr>m_phase := ARGS\<rparr>))
      else case hRecvMore (hCompact st) of
          (True, st1) \<Rightarrow> request_line_loop st1
        | (False, st1) \<Rightarrow> (False, st1))"
  by pat_completeness auto
termination
  by (relation "measure to_come") (auto dest!: hRecvMore_to_come [OF sym])

declare request_line_loop.simps [simp del]

text \<open>Whether \<open>GetRequestLine\<close> returned a line; it is then in \<open>m_requestLine\<close>.\<close>

definition GetRequestLine :: "http \<Rightarrow> bool \<times> http" where
  "GetRequestLine st =
     (if m_requestLineParsed st then (snd (rl_method (m_requestLine st)) \<noteq> 0, st)
      else request_line_loop (st\<lparr>m_requestLineParsed := True\<rparr>))"

section \<open>The query arguments\<close>

function SkipToHeaders :: "http \<Rightarrow> http" where
  "SkipToHeaders st =
     (case memchr (CHR 0x0A) st (m_parsePos st) (m_bufLen st) of
        Some nl \<Rightarrow> st\<lparr>m_parsePos := nl + 1, m_phase := HEADERS, m_valueConsumed := True\<rparr>
      | None \<Rightarrow>
          (case hRecvMore (hCompact st) of
             (True, st1) \<Rightarrow> SkipToHeaders st1
           | (False, st1) \<Rightarrow> st1\<lparr>m_phase := DONE\<rparr>))"
  by pat_completeness auto
termination
  by (relation "measure to_come") (auto dest!: hRecvMore_to_come [OF sym])

declare SkipToHeaders.simps [simp del]

text \<open>\<open>SkipArgs\<close>, \<open>SkipHeaders\<close> and \<open>SkipBody\<close> first advance to their own phase and stop unless they reach it. The
  definitions whose name ends in \<open>_at\<close> are what follows; \<open>AdvanceToPhase\<close> calls them in their phase, where the first
  part does nothing.\<close>

definition SkipArgs_at :: "http \<Rightarrow> http" where
  "SkipArgs_at st = (if m_phase st \<noteq> ARGS then st else SkipToHeaders st)"

definition arg_delims :: "char list" where
  "arg_delims = [CHR ''&'', CHR '' '', CHR 0x0D]"

function SkipArgValue :: "http \<Rightarrow> http" where
  "SkipArgValue st =
     (if m_valueConsumed st then st
      else case scan_for arg_delims st of
          Some i \<Rightarrow> st\<lparr>m_parsePos := (if m_buf st ! i = CHR ''&'' then i + 1 else i), m_valueConsumed := True\<rparr>
        | None \<Rightarrow>
            (case hRecvMore (hCompact st) of
               (True, st1) \<Rightarrow> SkipArgValue st1
             | (False, st1) \<Rightarrow> st1\<lparr>m_valueConsumed := True\<rparr>))"
  by pat_completeness auto
termination
  by (relation "measure to_come") (auto dest!: hRecvMore_to_come [OF sym])

declare SkipArgValue.simps [simp del]

function arg_name_loop :: "http \<Rightarrow> nat option \<times> http" where
  "arg_name_loop st =
     (case scan_for (CHR ''='' # arg_delims) st of
        Some i \<Rightarrow>
          let c = m_buf st ! i
          in (Some (m_parsePos st), st\<lparr>m_buf := (m_buf st)[i := CHR 0x00],
                m_parsePos := (if c = CHR ''='' \<or> c = CHR ''&'' then i + 1 else i), m_valueConsumed := (c \<noteq> CHR ''='')\<rparr>)
      | None \<Rightarrow>
          (case hRecvMore (hCompact st) of
             (True, st1) \<Rightarrow> arg_name_loop st1
           | (False, st1) \<Rightarrow> (None, st1)))"
  by pat_completeness auto
termination
  by (relation "measure to_come") (auto dest!: hRecvMore_to_come [OF sym])

declare arg_name_loop.simps [simp del]

definition NextArgName_at :: "http \<Rightarrow> nat option \<times> http" where
  "NextArgName_at st =
     (if m_phase st > ARGS then (None, st)
      else let st1 = (if \<not> m_valueConsumed st then SkipArgValue st else st)
           in if m_bufLen st1 \<le> m_parsePos st1 \<or> m_buf st1 ! m_parsePos st1 = CHR '' '' \<or> m_buf st1 ! m_parsePos st1 = CHR 0x0D
              then (None, SkipToHeaders st1)
              else arg_name_loop st1)"

text \<open>Whether \<open>ReadArgValue\<close> returned a chunk; it is then in \<open>m_chunk\<close>.\<close>

function ReadArgValue :: "http \<Rightarrow> bool \<times> http" where
  "ReadArgValue st =
     (if m_valueConsumed st then (False, st)
      else case scan_for arg_delims st of
          Some i \<Rightarrow>
            (True, st\<lparr>m_chunk := \<lparr>c_data = m_parsePos st, c_size = i - m_parsePos st, c_complete = True\<rparr>,
               m_parsePos := (if m_buf st ! i = CHR ''&'' then i + 1 else i), m_valueConsumed := True\<rparr>)
        | None \<Rightarrow>
            let available = m_bufLen st - m_parsePos st
            in if available > 0 then
                 (True, snd (hRecvMore (st\<lparr>m_chunk := \<lparr>c_data = m_parsePos st, c_size = available, c_complete = False\<rparr>,
                    m_parsePos := m_bufLen st\<rparr>)))
               else (case hRecvMore st of
                   (True, st1) \<Rightarrow> ReadArgValue st1
                 | (False, st1) \<Rightarrow> (False, st1\<lparr>m_valueConsumed := True\<rparr>)))"
  by pat_completeness auto
termination
  by (relation "measure to_come") (auto dest!: hRecvMore_to_come [OF sym])

declare ReadArgValue.simps [simp del]

section \<open>The headers\<close>

text \<open>\<open>strncasecmp\<close> against a lower-case literal, over as many characters as the literal has.\<close>

definition tolower :: "char \<Rightarrow> char" where
  "tolower c = (if CHR ''A'' \<le> c \<and> c \<le> CHR ''Z'' then char_of (of_char c + 32 :: nat) else c)"

definition strncasecmp_eq :: "string \<Rightarrow> nat \<Rightarrow> string \<Rightarrow> bool" where
  "strncasecmp_eq buf p lit \<longleftrightarrow> map tolower (take (length lit) (drop p buf)) = lit"

text \<open>The decimal digits of a \<open>Content-Length\<close> value; other characters are passed over. The accumulator is an
  \<open>int64_t\<close>.\<close>

definition digit_value :: "char \<Rightarrow> nat" where
  "digit_value c = of_char c - of_char (CHR ''0'')"

definition is_digit :: "char \<Rightarrow> bool" where
  "is_digit c \<longleftrightarrow> CHR ''0'' \<le> c \<and> c \<le> CHR ''9''"

definition add_digit :: "char \<Rightarrow> int \<Rightarrow> int" where
  "add_digit c n = (if is_digit c then signed_take_bit 63 (n * 10 + int (digit_value c)) else n)"

function fill_two :: "http \<Rightarrow> bool \<times> http" where
  "fill_two st =
     (if m_bufLen st - m_parsePos st < 2 then
        (case hRecvMore (hCompact st) of
           (True, st1) \<Rightarrow> fill_two st1
         | (False, st1) \<Rightarrow> (False, st1))
      else (True, st))"
  by pat_completeness auto
termination
  by (relation "measure to_come") (auto dest!: hRecvMore_to_come [OF sym])

declare fill_two.simps [simp del]

text \<open>The name that ends at the colon at index \<open>i\<close>.\<close>

definition header_name_at :: "nat \<Rightarrow> http \<Rightarrow> http" where
  "header_name_at i st =
     (let nameStart = m_parsePos st; nameLen = i - nameStart; buf = (m_buf st)[i := CHR 0x00];
          pos = (case find (\<lambda>j. buf ! j \<noteq> CHR '' '') [i + 1..<m_bufLen st] of Some j \<Rightarrow> j | None \<Rightarrow> m_bufLen st)
      in st\<lparr>m_buf := buf, m_parsePos := pos,
            m_pendingContentLength := (m_pendingContentLength st \<or> nameLen = 14 \<and> strncasecmp_eq buf nameStart ''content-length''),
            m_pendingTransferEncoding := (m_pendingTransferEncoding st \<or> nameLen = 17 \<and> strncasecmp_eq buf nameStart ''transfer-encoding''),
            m_pendingConnection := (m_pendingConnection st \<or> nameLen = 10 \<and> strncasecmp_eq buf nameStart ''connection''),
            m_valueConsumed := False\<rparr>)"

function header_name_loop :: "http \<Rightarrow> nat option \<times> http" where
  "header_name_loop st =
     (case memchr (CHR '':'') st (m_parsePos st) (m_bufLen st) of
        Some i \<Rightarrow>
          if memchr (CHR 0x0D) st (m_parsePos st) i \<noteq> None then (None, st\<lparr>m_phase := DONE\<rparr>)
          else (Some (m_parsePos st), header_name_at i st)
      | None \<Rightarrow>
          if memchr (CHR 0x0D) st (m_parsePos st) (m_bufLen st) \<noteq> None then (None, st\<lparr>m_phase := DONE\<rparr>)
          else (case hRecvMore (hCompact st) of
                  (True, st1) \<Rightarrow> header_name_loop st1
                | (False, st1) \<Rightarrow> (None, st1)))"
  by pat_completeness auto
termination
  by (relation "measure to_come") (auto dest!: hRecvMore_to_come [OF sym])

declare header_name_loop.simps [simp del]

text \<open>A header value that ends at the carriage return at index \<open>i\<close>.\<close>

definition header_value_at :: "nat \<Rightarrow> http \<Rightarrow> http" where
  "header_value_at i st =
     (let p = m_parsePos st; sz = i - p
      in st\<lparr>m_chunk := \<lparr>c_data = p, c_size = sz, c_complete = True\<rparr>,
            m_contentLength := (if m_pendingContentLength st then fold add_digit (take sz (drop p (m_buf st))) 0 else m_contentLength st),
            m_pendingContentLength := False,
            m_chunkedBody := (m_chunkedBody st \<or> m_pendingTransferEncoding st \<and> 7 \<le> sz \<and> strncasecmp_eq (m_buf st) p ''chunked''),
            m_pendingTransferEncoding := False,
            m_clientClose := (m_clientClose st \<or> m_pendingConnection st \<and> 5 \<le> sz \<and> strncasecmp_eq (m_buf st) p ''close''),
            m_pendingConnection := False,
            m_parsePos := (if i + 1 < m_bufLen st \<and> m_buf st ! (i + 1) = CHR 0x0A then i + 2 else i),
            m_valueConsumed := True\<rparr>)"

function ReadHeaderValue :: "http \<Rightarrow> bool \<times> http" where
  "ReadHeaderValue st =
     (if m_valueConsumed st then (False, st)
      else case memchr (CHR 0x0D) st (m_parsePos st) (m_bufLen st) of
          Some i \<Rightarrow> (True, header_value_at i st)
        | None \<Rightarrow>
            let available = m_bufLen st - m_parsePos st
            in if available > 0 then
                 (True, snd (hRecvMore (st\<lparr>m_chunk := \<lparr>c_data = m_parsePos st, c_size = available, c_complete = False\<rparr>,
                    m_parsePos := m_bufLen st\<rparr>)))
               else (case hRecvMore st of
                   (True, st1) \<Rightarrow> ReadHeaderValue st1
                 | (False, st1) \<Rightarrow> (False, st1\<lparr>m_pendingContentLength := False, m_pendingTransferEncoding := False,
                     m_pendingConnection := False, m_valueConsumed := True\<rparr>)))"
  by pat_completeness auto
termination
  by (relation "measure to_come") (auto dest!: hRecvMore_to_come [OF sym])

declare ReadHeaderValue.simps [simp del]

lemma header_value_at_chunk: "m_chunk (header_value_at i st) = \<lparr>c_data = m_parsePos st, c_size = i - m_parsePos st, c_complete = True\<rparr>"
  by (simp add: header_value_at_def Let_def)

lemma ReadHeaderValue_progress:
  "ReadHeaderValue st = (True, st1) \<Longrightarrow> \<not> c_complete (m_chunk st1) \<Longrightarrow> unread_size st1 < unread_size st"
proof (induction st rule: ReadHeaderValue.induct)
  case (1 st)
  let ?a = "st\<lparr>m_chunk := \<lparr>c_data = m_parsePos st, c_size = m_bufLen st - m_parsePos st, c_complete = False\<rparr>, m_parsePos := m_bufLen st\<rparr>"
  show ?case
  proof (cases "\<not> m_valueConsumed st \<and> memchr (CHR 0x0D) st (m_parsePos st) (m_bufLen st) = None")
    case True
    show ?thesis
    proof (cases "m_bufLen st - m_parsePos st > 0")
      case more: True
      have "unread_size (snd (hRecvMore ?a)) \<le> unread_size ?a" by (rule hRecvMore_unread [of _ "fst (hRecvMore ?a)"]) simp
      moreover have "unread_size ?a < unread_size st" using more by (simp add: unread_size_def to_come_def)
      ultimately show ?thesis using 1(2) True more by (auto simp: ReadHeaderValue.simps [of st] Let_def)
    next
      case False
      obtain b st2 where r: "hRecvMore st = (b, st2)" by fastforce
      then show ?thesis
        using 1 True False hRecvMore_unread [OF r]
        by (cases b) (auto simp: ReadHeaderValue.simps [of st] Let_def intro: less_le_trans)
    qed
  next
    case False
    then show ?thesis
      using 1(2,3) by (cases "m_valueConsumed st") (auto simp: ReadHeaderValue.simps [of st] header_value_at_chunk)
  qed
qed

text \<open>The loop of \<open>SkipHeaderValue\<close> that reads a value the parser itself needs.\<close>

function read_out :: "http \<Rightarrow> http" where
  "read_out st = (case ReadHeaderValue st of
       (True, st1) \<Rightarrow> if c_complete (m_chunk st1) then st1 else read_out st1
     | (False, st1) \<Rightarrow> st1)"
  by pat_completeness auto
termination
  by (relation "measure unread_size") (auto simp: ReadHeaderValue_progress)

declare read_out.simps [simp del]

function skip_value :: "http \<Rightarrow> http" where
  "skip_value st =
     (case memchr (CHR 0x0D) st (m_parsePos st) (m_bufLen st) of
        Some i \<Rightarrow> st\<lparr>m_parsePos := (if i + 1 < m_bufLen st \<and> m_buf st ! (i + 1) = CHR 0x0A then i + 2 else i), m_valueConsumed := True\<rparr>
      | None \<Rightarrow>
          (case hRecvMore (hCompact st) of
             (True, st1) \<Rightarrow> skip_value st1
           | (False, st1) \<Rightarrow> st1\<lparr>m_valueConsumed := True\<rparr>))"
  by pat_completeness auto
termination
  by (relation "measure to_come") (auto dest!: hRecvMore_to_come [OF sym])

declare skip_value.simps [simp del]

definition SkipHeaderValue :: "http \<Rightarrow> http" where
  "SkipHeaderValue st =
     (if m_valueConsumed st then st
      else if m_pendingContentLength st \<or> m_pendingTransferEncoding st \<or> m_pendingConnection st then read_out st
      else skip_value st)"

definition NextHeaderName_at :: "http \<Rightarrow> nat option \<times> http" where
  "NextHeaderName_at st =
     (if m_phase st > HEADERS then (None, st)
      else let st1 = (if \<not> m_valueConsumed st then SkipHeaderValue st else st)
           in case fill_two st1 of
                (False, st2) \<Rightarrow> (None, st2)
              | (True, st2) \<Rightarrow>
                  if m_buf st2 ! m_parsePos st2 = CHR 0x0D \<and> m_buf st2 ! (m_parsePos st2 + 1) = CHR 0x0A
                  then (None, st2\<lparr>m_parsePos := m_parsePos st2 + 2, m_phase := BODY\<rparr>)
                  else header_name_loop st2)"

text \<open>Every name the parser returns takes a byte off what is unread.\<close>

lemma memchr_bounds: "memchr c st from to = Some i \<Longrightarrow> from \<le> i \<and> i < to \<and> m_buf st ! i = c"
  by (auto simp: memchr_def find_Some_iff)

lemma header_name_loop_progress: "header_name_loop st = (Some p, st1) \<Longrightarrow> unread_size st1 < unread_size st"
proof (induction st rule: header_name_loop.induct)
  case (1 st)
  show ?case
  proof (cases "memchr (CHR '':'') st (m_parsePos st) (m_bufLen st)")
    case None
    obtain b st2 where r: "hRecvMore (hCompact st) = (b, st2)" by fastforce
    show ?thesis
      using 1 None r hRecvMore_unread [OF r]
      by (cases b) (auto simp: header_name_loop.simps [of st] intro: less_le_trans split: if_splits)
  next
    case (Some i)
    have pos: "\<And>(P :: nat \<Rightarrow> bool). i + 1 \<le> (case find P [i + 1..<m_bufLen st] of None \<Rightarrow> m_bufLen st | Some j \<Rightarrow> j)"
      using memchr_bounds [OF Some] by (auto simp: find_Some_iff split: option.splits)
    have "m_bufLen st - (case find (\<lambda>j. (m_buf st)[i := CHR 0x00] ! j \<noteq> CHR '' '') [i + 1..<m_bufLen st] of None \<Rightarrow> m_bufLen st | Some j \<Rightarrow> j)
        < m_bufLen st - m_parsePos st"
      using memchr_bounds [OF Some] pos [of "\<lambda>j. (m_buf st)[i := CHR 0x00] ! j \<noteq> CHR '' ''"] by linarith
    then show ?thesis
      using 1(2) Some
      by (auto simp: header_name_loop.simps [of st] header_name_at_def Let_def unread_size_def to_come_def split: if_splits)
  qed
qed

lemma fill_two_unread: "fill_two st = (b, st1) \<Longrightarrow> unread_size st1 \<le> unread_size st"
proof (induction st rule: fill_two.induct)
  case (1 st)
  obtain c st2 where r: "hRecvMore (hCompact st) = (c, st2)" by fastforce
  show ?case
    using 1 r hRecvMore_unread [OF r] by (cases c) (auto simp: fill_two.simps [of st] intro: le_trans split: if_splits)
qed

lemma header_value_at_unread: "unread_size (header_value_at i st) \<le> unread_size st" if "m_parsePos st \<le> i"
  using that by (auto simp: header_value_at_def Let_def unread_size_def to_come_def)

lemma ReadHeaderValue_unread: "ReadHeaderValue st = (b, st1) \<Longrightarrow> unread_size st1 \<le> unread_size st"
proof (induction st rule: ReadHeaderValue.induct)
  case (1 st)
  let ?a = "st\<lparr>m_chunk := \<lparr>c_data = m_parsePos st, c_size = m_bufLen st - m_parsePos st, c_complete = False\<rparr>, m_parsePos := m_bufLen st\<rparr>"
  obtain c st2 where r: "hRecvMore st = (c, st2)" by fastforce
  have le: "unread_size (snd (hRecvMore ?a)) \<le> unread_size st"
    using hRecvMore_unread [of ?a "fst (hRecvMore ?a)" "snd (hRecvMore ?a)"]
    by (simp add: unread_size_def to_come_def)
  consider "m_valueConsumed st" | i where "\<not> m_valueConsumed st" "memchr (CHR 0x0D) st (m_parsePos st) (m_bufLen st) = Some i"
    | "\<not> m_valueConsumed st" "memchr (CHR 0x0D) st (m_parsePos st) (m_bufLen st) = None" "m_bufLen st - m_parsePos st > 0"
    | "\<not> m_valueConsumed st" "memchr (CHR 0x0D) st (m_parsePos st) (m_bufLen st) = None" "\<not> m_bufLen st - m_parsePos st > 0"
    by (cases "memchr (CHR 0x0D) st (m_parsePos st) (m_bufLen st)") auto
  then show ?case
  proof cases
    case 2
    then show ?thesis
      using 1(2) header_value_at_unread [of st i] memchr_bounds [OF 2(2)] by (auto simp: ReadHeaderValue.simps [of st])
  next
    case 3
    then show ?thesis using 1(2) le by (auto simp: ReadHeaderValue.simps [of st] Let_def)
  next
    case 4
    then show ?thesis
      using 1 r hRecvMore_unread [OF r]
      by (cases c) (auto simp: ReadHeaderValue.simps [of st] Let_def intro: le_trans)
  qed (use 1(2) in \<open>simp add: ReadHeaderValue.simps [of st]\<close>)
qed

lemma read_out_unread: "unread_size (read_out st) \<le> unread_size st"
proof (induction st rule: read_out.induct)
  case (1 st)
  obtain b st1 where r: "ReadHeaderValue st = (b, st1)" by fastforce
  show ?case
    using 1 r ReadHeaderValue_unread [OF r] by (cases b) (auto simp: read_out.simps [of st] intro: le_trans)
qed

lemma skip_value_unread: "unread_size (skip_value st) \<le> unread_size st"
proof (induction st rule: skip_value.induct)
  case (1 st)
  obtain b st1 where r: "hRecvMore (hCompact st) = (b, st1)" by fastforce
  show ?case
  proof (cases "memchr (CHR 0x0D) st (m_parsePos st) (m_bufLen st)")
    case None
    then show ?thesis
      using 1 r hRecvMore_unread [OF r]
      by (cases b) (auto simp: skip_value.simps [of st] intro: le_trans)
  next
    case (Some i)
    then show ?thesis using memchr_bounds [OF Some] by (auto simp: skip_value.simps [of st] unread_size_def to_come_def)
  qed
qed

lemma SkipHeaderValue_unread: "unread_size (SkipHeaderValue st) \<le> unread_size st"
  by (simp add: SkipHeaderValue_def read_out_unread skip_value_unread)

lemma NextHeaderName_at_progress: "NextHeaderName_at st = (Some p, st1) \<Longrightarrow> unread_size st1 < unread_size st"
proof -
  assume n: "NextHeaderName_at st = (Some p, st1)"
  let ?s = "if \<not> m_valueConsumed st then SkipHeaderValue st else st"
  obtain b st2 where f: "fill_two ?s = (b, st2)" by fastforce
  then have "header_name_loop st2 = (Some p, st1)"
    using n by (auto simp: NextHeaderName_at_def Let_def split: if_splits bool.splits)
  from header_name_loop_progress [OF this] fill_two_unread [OF f] SkipHeaderValue_unread [of st]
  show ?thesis by (auto split: if_splits)
qed

function skip_headers_loop :: "http \<Rightarrow> http" where
  "skip_headers_loop st = (case NextHeaderName_at st of
       (Some p, st1) \<Rightarrow> skip_headers_loop (SkipHeaderValue st1)
     | (None, st1) \<Rightarrow> st1)"
  by pat_completeness auto
termination
proof (relation "measure unread_size", simp, goal_cases)
  case (1 st x y p)
  then have "NextHeaderName_at st = (Some p, y)" by simp
  from NextHeaderName_at_progress [OF this] SkipHeaderValue_unread [of y] show ?case by simp
qed

declare skip_headers_loop.simps [simp del]

definition SkipHeaders_at :: "http \<Rightarrow> http" where
  "SkipHeaders_at st = (if m_phase st \<noteq> HEADERS then st else skip_headers_loop st)"

section \<open>The body\<close>

text \<open>The first step of every read: receive if nothing is buffered.\<close>

definition have_data :: "http \<Rightarrow> bool \<times> http" where
  "have_data st = (if m_bufLen st - m_parsePos st = 0 then hRecvMore (hCompact st) else (True, st))"

text \<open>\<open>ReadChunkedBody\<close> inside a chunk. A chunk that is used up is followed by a line end, for which the loop may
  receive more.\<close>

definition end_chunk :: "http \<Rightarrow> http" where
  "end_chunk st = (case fill_two st of
       (False, st1) \<Rightarrow> st1\<lparr>m_chunk := (m_chunk st1)\<lparr>c_complete := True\<rparr>, m_chunkedDone := True, m_phase := DONE\<rparr>
     | (True, st1) \<Rightarrow> st1\<lparr>m_parsePos := m_parsePos st1 + 2, m_chunk := (m_chunk st1)\<lparr>c_complete := True\<rparr>\<rparr>)"

definition chunk_data :: "http \<Rightarrow> bool \<times> http" where
  "chunk_data st =
     (case have_data st of
        (False, st1) \<Rightarrow> (False, st1)
      | (True, st1) \<Rightarrow>
          let toDeliver = min (m_bufLen st1 - m_parsePos st1) (m_bodyRemaining st1);
              remaining = m_bodyRemaining st1 - toDeliver;
              st2 = st1\<lparr>m_chunk := (m_chunk st1)\<lparr>c_data := m_parsePos st1, c_size := toDeliver\<rparr>, m_bodyRemaining := remaining,
                      m_parsePos := m_parsePos st1 + toDeliver\<rparr>
          in (True, if remaining = 0 then end_chunk st2 else st2\<lparr>m_chunk := (m_chunk st2)\<lparr>c_complete := False\<rparr>\<rparr>))"

text \<open>The size in the line at the front of a chunk. The source adds 9 to a letter after it has used its low bits, where
  that has no effect.\<close>

definition chunk_size :: "string \<Rightarrow> u64" where
  "chunk_size line = fold (\<lambda>c n. push_bit 4 n + of_nat (of_char c mod 16)) (takeWhile (\<lambda>c. c \<noteq> CHR '';'') line) 0"

function chunk_line_loop :: "http \<Rightarrow> bool \<times> http" where
  "chunk_line_loop st =
     (if has_line st then
        (case memchr (CHR 0x0D) st (m_parsePos st) (m_bufLen st) of
           None \<Rightarrow> (False, st)
         | Some i \<Rightarrow>
             let sz = chunk_size (take (i - m_parsePos st) (drop (m_parsePos st) (m_buf st)));
                 st1 = st\<lparr>m_parsePos := i + 2\<rparr>
             in if sz = 0 then (False, st1\<lparr>m_chunkedDone := True, m_phase := DONE\<rparr>)
                else chunk_data (st1\<lparr>m_bodyRemaining := unat sz\<rparr>))
      else case hRecvMore (hCompact st) of
          (True, st1) \<Rightarrow> chunk_line_loop st1
        | (False, st1) \<Rightarrow> (False, st1))"
  by pat_completeness auto
termination
  by (relation "measure to_come") (auto dest!: hRecvMore_to_come [OF sym])

declare chunk_line_loop.simps [simp del]

definition ReadChunkedBody :: "http \<Rightarrow> bool \<times> http" where
  "ReadChunkedBody st =
     (if m_chunkedDone st then (False, st)
      else if m_bodyRemaining st > 0 then chunk_data st
      else chunk_line_loop st)"

text \<open>A body of known length.\<close>

definition counted_body :: "http \<Rightarrow> bool \<times> http" where
  "counted_body st =
     (case have_data st of
        (False, st1) \<Rightarrow> (False, st1\<lparr>m_phase := DONE\<rparr>)
      | (True, st1) \<Rightarrow>
          let toDeliver = min (m_bufLen st1 - m_parsePos st1) (m_bodyRemaining st1);
              remaining = m_bodyRemaining st1 - toDeliver
          in (True, st1\<lparr>m_chunk := \<lparr>c_data = m_parsePos st1, c_size = toDeliver, c_complete = (remaining = 0)\<rparr>,
                m_bodyRemaining := remaining, m_parsePos := m_parsePos st1 + toDeliver,
                m_phase := (if remaining = 0 then DONE else m_phase st1)\<rparr>))"

definition ReadBody_at :: "http \<Rightarrow> bool \<times> http" where
  "ReadBody_at st =
     (if m_phase st \<noteq> BODY then (False, st)
      else if m_chunkedBody st then ReadChunkedBody st
      else if m_contentLength st \<le> 0 then (False, st\<lparr>m_phase := DONE\<rparr>)
      else let st1 = (if m_bodyRemaining st = 0 \<and> m_contentLength st > 0 then st\<lparr>m_bodyRemaining := nat (m_contentLength st)\<rparr> else st)
           in if m_bodyRemaining st1 = 0 then (False, st1\<lparr>m_phase := DONE\<rparr>) else counted_body st1)"

text \<open>Every chunk of the body takes a byte off what is unread.\<close>

lemma have_data_progress:
  assumes "have_data st = (b, st1)"
  shows "unread_size st1 \<le> unread_size st" "b \<Longrightarrow> m_parsePos st1 < m_bufLen st1" "m_bodyRemaining st1 = m_bodyRemaining st"
  using assms hRecvMore_unread [of "hCompact st" b st1] hRecvMore_pos [of "hCompact st" st1] hRecvMore_fields(6) [of "hCompact st" b st1]
  by (auto simp: have_data_def split: if_splits)

lemma unread_size_pos: "m_parsePos st < p \<Longrightarrow> m_parsePos st < m_bufLen st \<Longrightarrow> unread_size (st\<lparr>m_parsePos := p\<rparr>) < unread_size st"
  "m_parsePos st \<le> p \<Longrightarrow> unread_size (st\<lparr>m_parsePos := p\<rparr>) \<le> unread_size st"
  by (auto simp: unread_size_def to_come_def)

lemma end_chunk_unread: "unread_size (end_chunk st) \<le> unread_size st"
proof -
  obtain b st1 where f: "fill_two st = (b, st1)" by fastforce
  show ?thesis
    using fill_two_unread [OF f] unread_size_pos(2) [of st1 "m_parsePos st1 + 2"]
    by (cases b) (auto simp: end_chunk_def f intro: le_trans)
qed

lemma chunk_data_progress: "chunk_data st = (True, st1) \<Longrightarrow> 0 < m_bodyRemaining st \<Longrightarrow> unread_size st1 < unread_size st"
proof -
  assume c: "chunk_data st = (True, st1)" and rem: "0 < m_bodyRemaining st"
  obtain st0 where h: "have_data st = (True, st0)" using c by (auto simp: chunk_data_def split: prod.splits bool.splits)
  let ?n = "min (m_bufLen st0 - m_parsePos st0) (m_bodyRemaining st0)"
  let ?st2 = "st0\<lparr>m_chunk := (m_chunk st0)\<lparr>c_data := m_parsePos st0, c_size := ?n\<rparr>, m_bodyRemaining := m_bodyRemaining st0 - ?n,
    m_parsePos := m_parsePos st0 + ?n\<rparr>"
  have "unread_size ?st2 = unread_size (st0\<lparr>m_parsePos := m_parsePos st0 + ?n\<rparr>)" by (simp add: unread_size_def to_come_def)
  also have "\<dots> < unread_size st0" using have_data_progress [OF h] rem by (intro unread_size_pos) auto
  also have "\<dots> \<le> unread_size st" by (rule have_data_progress(1) [OF h])
  finally have lt: "unread_size ?st2 < unread_size st" .
  have "st1 = end_chunk ?st2 \<or> st1 = ?st2\<lparr>m_chunk := (m_chunk ?st2)\<lparr>c_complete := False\<rparr>\<rparr>"
    using c by (simp add: chunk_data_def h Let_def split: if_splits)
  then show ?thesis
  proof
    assume "st1 = end_chunk ?st2"
    then show ?thesis using end_chunk_unread [of ?st2] lt by (simp only: le_less_trans)
  next
    assume "st1 = ?st2\<lparr>m_chunk := (m_chunk ?st2)\<lparr>c_complete := False\<rparr>\<rparr>"
    then show ?thesis using lt by (simp only: unread_size_simps)
  qed
qed

lemma chunk_line_loop_progress: "chunk_line_loop st = (True, st1) \<Longrightarrow> unread_size st1 < unread_size st"
proof (induction st rule: chunk_line_loop.induct)
  case (1 st)
  obtain b st2 where r: "hRecvMore (hCompact st) = (b, st2)" by fastforce
  show ?case
  proof (cases "has_line st")
    case True
    then obtain i where i: "memchr (CHR 0x0D) st (m_parsePos st) (m_bufLen st) = Some i" by (auto simp: has_line_def split: option.splits)
    let ?sz = "chunk_size (take (i - m_parsePos st) (drop (m_parsePos st) (m_buf st)))"
    have "chunk_data (st\<lparr>m_parsePos := i + 2, m_bodyRemaining := unat ?sz\<rparr>) = (True, st1)" and "?sz \<noteq> 0"
      using 1(2) True i by (auto simp: chunk_line_loop.simps [of st] Let_def split: if_splits)
    then have "unread_size st1 < unread_size (st\<lparr>m_parsePos := i + 2, m_bodyRemaining := unat ?sz\<rparr>)"
      by (intro chunk_data_progress) (auto simp: unat_gt_0)
    also have "\<dots> \<le> unread_size st" using memchr_bounds [OF i] unread_size_pos(2) [of st "i + 2"] by simp
    finally show ?thesis .
  next
    case False
    then show ?thesis
      using 1 r hRecvMore_unread [OF r] by (cases b) (auto simp: chunk_line_loop.simps [of st] intro: less_le_trans)
  qed
qed

lemma counted_body_progress: "counted_body st = (True, st1) \<Longrightarrow> 0 < m_bodyRemaining st \<Longrightarrow> unread_size st1 < unread_size st"
proof -
  assume c: "counted_body st = (True, st1)" and rem: "0 < m_bodyRemaining st"
  obtain st0 where h: "have_data st = (True, st0)" using c by (auto simp: counted_body_def split: prod.splits bool.splits)
  let ?n = "min (m_bufLen st0 - m_parsePos st0) (m_bodyRemaining st0)"
  have "unread_size st1 = unread_size (st0\<lparr>m_parsePos := m_parsePos st0 + ?n\<rparr>)"
    using c by (auto simp: counted_body_def h Let_def unread_size_def to_come_def)
  also have "\<dots> < unread_size st0" using have_data_progress [OF h] rem by (intro unread_size_pos) auto
  also have "\<dots> \<le> unread_size st" by (rule have_data_progress(1) [OF h])
  finally show ?thesis .
qed

lemma ReadBody_at_progress: "ReadBody_at st = (True, st1) \<Longrightarrow> unread_size st1 < unread_size st"
proof -
  assume r: "ReadBody_at st = (True, st1)"
  let ?st = "st\<lparr>m_bodyRemaining := nat (m_contentLength st)\<rparr>"
  consider "ReadChunkedBody st = (True, st1)" | "m_bodyRemaining st \<noteq> 0" "counted_body st = (True, st1)"
    | "m_contentLength st > 0" "counted_body ?st = (True, st1)"
    using r unfolding ReadBody_at_def Let_def by (simp split: if_splits)
  then show ?thesis
  proof cases
    case 1
    then show ?thesis
      using chunk_data_progress [of st st1] chunk_line_loop_progress [of st st1] unfolding ReadChunkedBody_def by (simp split: if_splits)
  next
    case 2
    then show ?thesis using counted_body_progress [of st st1] by simp
  next
    case 3
    then show ?thesis using counted_body_progress [of ?st st1] by simp
  qed
qed

function skip_body_loop :: "http \<Rightarrow> http" where
  "skip_body_loop st = (case ReadBody_at st of (True, st1) \<Rightarrow> skip_body_loop st1 | (False, st1) \<Rightarrow> st1)"
  by pat_completeness auto
termination
  by (relation "measure unread_size") (auto simp: ReadBody_at_progress)

declare skip_body_loop.simps [simp del]

definition SkipBody_at :: "http \<Rightarrow> http" where
  "SkipBody_at st = (if m_phase st \<noteq> BODY then st else skip_body_loop st)"

section \<open>Phases\<close>

partial_function (option) AdvanceToPhase :: "Phase \<Rightarrow> http \<Rightarrow> (bool \<times> http) option" where
  "AdvanceToPhase target st =
     (if m_phase st < target then
        (case m_phase st of
           REQUEST_LINE \<Rightarrow>
             (case GetRequestLine st of (ok, st1) \<Rightarrow> if ok then AdvanceToPhase target st1 else Some (False, st1))
         | ARGS \<Rightarrow> AdvanceToPhase target (SkipArgs_at st)
         | HEADERS \<Rightarrow> AdvanceToPhase target (SkipHeaders_at st)
         | BODY \<Rightarrow> AdvanceToPhase target (SkipBody_at st)
         | DONE \<Rightarrow> Some (False, st))
      else Some (True, st))"

declare AdvanceToPhase.simps [code]

text \<open>The first part of a call: advance if the phase is earlier, and stop if that fails.\<close>

definition in_phase :: "Phase \<Rightarrow> http \<Rightarrow> (bool \<times> http) option" where
  "in_phase target st = (if m_phase st < target then AdvanceToPhase target st else Some (True, st))"

definition NextArgName :: "http \<Rightarrow> (nat option \<times> http) option" where
  "NextArgName st = do {
     (ok, st1) \<leftarrow> in_phase ARGS st;
     Some (if ok then NextArgName_at st1 else (None, st1)) }"

definition SkipArgs :: "http \<Rightarrow> http option" where
  "SkipArgs st = do {
     (ok, st1) \<leftarrow> in_phase ARGS st;
     Some (if ok then SkipArgs_at st1 else st1) }"

definition NextHeaderName :: "http \<Rightarrow> (nat option \<times> http) option" where
  "NextHeaderName st = do {
     (ok, st1) \<leftarrow> in_phase HEADERS st;
     Some (if ok then NextHeaderName_at st1 else (None, st1)) }"

definition SkipHeaders :: "http \<Rightarrow> http option" where
  "SkipHeaders st = do {
     (ok, st1) \<leftarrow> in_phase HEADERS st;
     Some (if ok then SkipHeaders_at st1 else st1) }"

definition ReadBody :: "http \<Rightarrow> (bool \<times> http) option" where
  "ReadBody st = do {
     (ok, st1) \<leftarrow> in_phase BODY st;
     Some (if ok then ReadBody_at st1 else (False, st1)) }"

definition SkipBody :: "http \<Rightarrow> http option" where
  "SkipBody st = do {
     (ok, st1) \<leftarrow> in_phase BODY st;
     Some (if ok then SkipBody_at st1 else st1) }"

definition ContentLength :: "http \<Rightarrow> (int \<times> http) option" where
  "ContentLength st =
     (if 0 \<le> m_contentLength st then Some (m_contentLength st, st)
      else do {
        (ok, st1) \<leftarrow> in_phase BODY st;
        let st2 = (if m_contentLength st1 < 0 then st1\<lparr>m_contentLength := 0\<rparr> else st1);
        Some (m_contentLength st2, st2) })"

definition hReset :: "http \<Rightarrow> http" where
  "hReset st = (hCompact st)\<lparr>m_parsePos := 0, m_sendLen := 0, m_phase := REQUEST_LINE, m_contentLength := - 1, m_chunkedBody := False,
     m_bodyRemaining := 0, m_requestLine := no_line, m_chunk := no_chunk, m_requestLineParsed := False, m_chunkedDone := False,
     m_valueConsumed := True, m_pendingContentLength := False, m_pendingTransferEncoding := False, m_pendingConnection := False,
     m_chunkedHeadersPending := False, m_chunkedStatus := 0, m_chunkedContentType := [], m_clientClose := False, m_sendError := False\<rparr>"

definition KeepAlive :: "http \<Rightarrow> bool" where
  "KeepAlive st \<longleftrightarrow> m_keepAlive st \<and> \<not> m_clientClose st"

definition LeftoverData :: "http \<Rightarrow> nat" where
  "LeftoverData st = m_parsePos st"

definition LeftoverSize :: "http \<Rightarrow> nat" where
  "LeftoverSize st = (if m_bufLen st > m_parsePos st then m_bufLen st - m_parsePos st else 0)"

end
