(* ===== verification/Http_Safety.thy ===== *)
theory Http_Safety
  imports Http_Connection
begin

text \<open>
  Memory safety of the HTTP parser: whatever the peer sends, however it is segmented, and whichever calls a handler makes in
  whichever order, the positions stay ordered and inside the receive buffer, so that no difference of positions wraps and no
  access leaves the buffer, and every view, chunk and name handed out lies in it.
\<close>

section \<open>The invariant\<close>

definition view_in :: "nat \<Rightarrow> view \<Rightarrow> bool" where
  "view_in n v \<longleftrightarrow> fst v + snd v \<le> n"

definition positions :: "nat \<Rightarrow> http \<Rightarrow> bool" where
  "positions n st \<longleftrightarrow> length (m_buf st) = n \<and> m_parsePos st \<le> m_bufLen st \<and> m_bufLen st \<le> n"

definition views :: "nat \<Rightarrow> http \<Rightarrow> bool" where
  "views n st \<longleftrightarrow> view_in n (rl_method (m_requestLine st)) \<and> view_in n (rl_path (m_requestLine st)) \<and>
     view_in n (c_data (m_chunk st), c_size (m_chunk st))"

definition safe :: "nat \<Rightarrow> http \<Rightarrow> bool" where
  "safe n st \<longleftrightarrow> positions n st \<and> views n st"

text \<open>A pointer to a string that ends inside the buffer.\<close>

definition terminated :: "http \<Rightarrow> nat \<Rightarrow> bool" where
  "terminated st p \<longleftrightarrow> (\<exists>i < length (m_buf st). p \<le> i \<and> m_buf st ! i = CHR 0x00)"

lemma safe_new: "safe n (http_new n m ins outs)"
  by (simp add: safe_def positions_def views_def view_in_def http_new_def no_line_def no_chunk_def)

lemma safe_simps [simp]:
  "safe n (st\<lparr>m_valueConsumed := b\<rparr>) = safe n st" "safe n (st\<lparr>m_phase := ph\<rparr>) = safe n st"
  "safe n (st\<lparr>m_bodyRemaining := k\<rparr>) = safe n st" "safe n (st\<lparr>m_chunkedDone := b\<rparr>) = safe n st"
  "safe n (st\<lparr>m_pendingContentLength := b\<rparr>) = safe n st" "safe n (st\<lparr>m_pendingTransferEncoding := b\<rparr>) = safe n st"
  "safe n (st\<lparr>m_pendingConnection := b\<rparr>) = safe n st" "safe n (st\<lparr>m_requestLineParsed := b\<rparr>) = safe n st"
  "safe n (st\<lparr>m_contentLength := z\<rparr>) = safe n st" "safe n (st\<lparr>x_killed := b\<rparr>) = safe n st"
  by (simp_all add: safe_def positions_def views_def)

section \<open>Receiving\<close>

lemma hCompact_positions: "positions n st \<Longrightarrow> positions n (hCompact st)"
  by (auto simp: positions_def hCompact_def Let_def memcpy_def)

lemma hTransportRecv_length: "hTransportRecv n ins = (bs, k, ins1) \<Longrightarrow> length bs \<le> n"
  by (cases "(n, ins)" rule: hTransportRecv.cases) auto

lemma hRecvMore_positions:
  assumes "hRecvMore st = (b, st1)" and "positions n st"
  shows "positions n st1"
proof -
  let ?st = "if length (m_buf st) \<le> m_bufLen st then hCompact st else st"
  have p: "positions n ?st" using assms(2) hCompact_positions by simp
  show ?thesis
  proof (cases "st1 = st \<or> st1 = ?st")
    case True
    then show ?thesis using p assms(2) by metis
  next
    case False
    obtain bs k ins where t: "hTransportRecv (length (m_buf ?st) - m_bufLen ?st) (x_in ?st) = (bs, k, ins)" by (metis prod_cases3)
    then have "st1 = ?st\<lparr>x_in := ins, x_killed := k\<rparr> \<or>
        st1 = ?st\<lparr>m_buf := memcpy (m_buf ?st) (m_bufLen ?st) bs, m_bufLen := m_bufLen ?st + length bs, x_in := ins\<rparr>"
      using assms(1) False unfolding hRecvMore_def Let_def by (simp split: if_splits)
    then show ?thesis using p hTransportRecv_length [OF t] by (auto simp: positions_def memcpy_def)
  qed
qed

lemma rebuf_views: "rebuf st1 st = st1 \<Longrightarrow> views n st1 = views n st"
  by (simp add: views_def rebuf_fields [of st1 st])

lemma hCompact_safe [simp]: "safe n st \<Longrightarrow> safe n (hCompact st)"
  by (simp add: safe_def hCompact_positions rebuf_views [OF hCompact_frame])

lemma hRecvMore_safe: "hRecvMore st = (b, st1) \<Longrightarrow> safe n st \<Longrightarrow> safe n st1"
  by (simp add: safe_def hRecvMore_positions rebuf_views [OF hRecvMore_frame])

lemma recv_safe: "hRecvMore (hCompact st) = (b, st1) \<Longrightarrow> safe n st \<Longrightarrow> safe n st1"
  by (rule hRecvMore_safe [of "hCompact st"]) simp_all

text \<open>Moving the read position forward, and a new chunk behind it.\<close>

lemma safe_advance: "safe n st \<Longrightarrow> p \<le> m_bufLen st \<Longrightarrow> safe n (st\<lparr>m_parsePos := p\<rparr>)"
  by (simp add: safe_def positions_def views_def)

lemma safe_chunk: "safe n st \<Longrightarrow> d + k \<le> n \<Longrightarrow> c_data c = d \<Longrightarrow> c_size c = k \<Longrightarrow> safe n (st\<lparr>m_chunk := c\<rparr>)"
  by (simp add: safe_def positions_def views_def view_in_def)

lemma safe_poke: "safe n st \<Longrightarrow> safe n (st\<lparr>m_buf := (m_buf st)[i := c]\<rparr>)"
  by (simp add: safe_def positions_def views_def)

lemma safe_bounds: "safe n st \<Longrightarrow> m_parsePos st \<le> m_bufLen st \<and> m_bufLen st \<le> n \<and> length (m_buf st) = n"
  by (simp add: safe_def positions_def)

section \<open>The request line and the arguments\<close>

lemma find_upt: "find P [a..<b] = Some i \<Longrightarrow> a \<le> i \<and> i < b \<and> P i"
  by (auto simp: find_Some_iff)

lemma scan_for_bounds: "scan_for cs st = Some i \<Longrightarrow> m_parsePos st \<le> i \<and> i < m_bufLen st"
  by (auto simp: scan_for_def dest: find_upt)

lemma safe_line:
  "safe n st \<Longrightarrow> view_in n v \<Longrightarrow> safe n (st\<lparr>m_requestLine := (m_requestLine st)\<lparr>rl_method := v\<rparr>\<rparr>)"
  "safe n st \<Longrightarrow> view_in n v \<Longrightarrow> safe n (st\<lparr>m_requestLine := (m_requestLine st)\<lparr>rl_path := v\<rparr>\<rparr>)"
  by (simp_all add: safe_def positions_def views_def)

lemma ParseRequestLine_safe:
  assumes "ParseRequestLine st = (b, st1)" and s: "safe n st"
  shows "safe n st1"
proof (cases "memchr (CHR '' '') st (m_parsePos st) (m_bufLen st)")
  case None
  then show ?thesis using assms by (simp add: ParseRequestLine_def)
next
  case (Some sp)
  let ?st = "st\<lparr>m_requestLine := (m_requestLine st)\<lparr>rl_method := (m_parsePos st, sp - m_parsePos st)\<rparr>\<rparr>"
  note b = memchr_bounds [OF Some] safe_bounds [OF s]
  have s1: "safe n ?st" using b by (intro safe_line s) (simp add: view_in_def)
  show ?thesis
  proof (cases "find (\<lambda>i. m_buf st ! i \<in> {CHR ''?'', CHR '' '', CHR 0x0D}) [sp + 1..<m_bufLen st]")
    case None
    then show ?thesis using assms(1) Some s1 by (simp add: ParseRequestLine_def Let_def)
  next
    case found: (Some i)
    have "safe n (?st\<lparr>m_requestLine := (m_requestLine ?st)\<lparr>rl_path := (sp + 1, i - (sp + 1))\<rparr>,
        m_parsePos := (if m_buf st ! i = CHR ''?'' then i + 1 else i)\<rparr>)"
      using b find_upt [OF found] by (intro safe_advance safe_line s1) (simp_all add: view_in_def)
    then show ?thesis using assms(1) Some found by (simp add: ParseRequestLine_def Let_def)
  qed
qed

lemma request_line_loop_safe: "request_line_loop st = (b, st1) \<Longrightarrow> safe n st \<Longrightarrow> safe n st1"
proof (induction st rule: request_line_loop.induct)
  case (1 st)
  obtain c st2 where r: "hRecvMore (hCompact st) = (c, st2)" by fastforce
  obtain d st3 where q: "ParseRequestLine st = (d, st3)" by fastforce
  show ?case
    using 1 r q recv_safe [OF r 1(3)] ParseRequestLine_safe [OF q 1(3)]
    by (cases c; cases d) (auto simp: request_line_loop.simps [of st] split: if_splits)
qed

lemma GetRequestLine_safe: "GetRequestLine st = (b, st1) \<Longrightarrow> safe n st \<Longrightarrow> safe n st1"
  using request_line_loop_safe [of "st\<lparr>m_requestLineParsed := True\<rparr>" b st1 n] by (auto simp: GetRequestLine_def split: if_splits)

lemma SkipToHeaders_safe: "safe n st \<Longrightarrow> safe n (SkipToHeaders st)"
proof (induction st rule: SkipToHeaders.induct)
  case (1 st)
  obtain c st2 where r: "hRecvMore (hCompact st) = (c, st2)" by fastforce
  show ?case
    using 1 r recv_safe [OF r 1(2)]
    by (cases c) (auto simp: SkipToHeaders.simps [of st] Suc_le_eq dest!: memchr_bounds intro!: safe_advance split: option.splits)
qed

lemma SkipArgs_at_safe: "safe n st \<Longrightarrow> safe n (SkipArgs_at st)"
  by (simp add: SkipArgs_at_def SkipToHeaders_safe)

lemma SkipArgValue_safe: "safe n st \<Longrightarrow> safe n (SkipArgValue st)"
proof (induction st rule: SkipArgValue.induct)
  case (1 st)
  obtain c st2 where r: "hRecvMore (hCompact st) = (c, st2)" by fastforce
  show ?case
    using 1 r recv_safe [OF r 1(2)]
    by (cases c) (auto simp: SkipArgValue.simps [of st] Suc_le_eq dest!: scan_for_bounds intro!: safe_advance split: option.splits)
qed

lemma arg_name_loop_safe:
  "arg_name_loop st = (q, st1) \<Longrightarrow> safe n st \<Longrightarrow> safe n st1 \<and> (\<forall>p. q = Some p \<longrightarrow> terminated st1 p)"
proof (induction st rule: arg_name_loop.induct)
  case (1 st)
  obtain c st2 where r: "hRecvMore (hCompact st) = (c, st2)" by fastforce
  show ?case
  proof (cases "scan_for (CHR ''='' # arg_delims) st")
    case None
    then show ?thesis using 1 r recv_safe [OF r 1(3)] by (cases c) (auto simp: arg_name_loop.simps [of st])
  next
    case (Some i)
    note b = scan_for_bounds [OF Some] safe_bounds [OF 1(3)]
    have "safe n (st\<lparr>m_buf := (m_buf st)[i := CHR 0x00], m_parsePos := j\<rparr>)" if "j \<le> m_bufLen st" for j
      using that 1(3) by (auto simp: safe_def positions_def views_def)
    moreover have "terminated (st\<lparr>m_buf := (m_buf st)[i := CHR 0x00], m_parsePos := j, m_valueConsumed := v\<rparr>) (m_parsePos st)" for j v
      using b by (auto simp: terminated_def intro!: exI [of _ i])
    ultimately show ?thesis
      using 1(2) Some b by (auto simp: arg_name_loop.simps [of st] Let_def)
  qed
qed

lemma NextArgName_at_safe:
  assumes "NextArgName_at st = (q, st1)" and "safe n st"
  shows "safe n st1 \<and> (\<forall>p. q = Some p \<longrightarrow> terminated st1 p)"
proof -
  define s where "s = (if \<not> m_valueConsumed st then SkipArgValue st else st)"
  have s: "safe n s" using assms(2) by (simp add: s_def SkipArgValue_safe)
  define at_end where "at_end \<longleftrightarrow> m_bufLen s \<le> m_parsePos s \<or> m_buf s ! m_parsePos s = CHR '' '' \<or> m_buf s ! m_parsePos s = CHR 0x0D"
  have eq: "(if m_phase st > ARGS then (None, st) else if at_end then (None, SkipToHeaders s) else arg_name_loop s) = (q, st1)"
    using assms(1) unfolding NextArgName_at_def Let_def s_def [symmetric] at_end_def [symmetric] .
  show ?thesis
  proof (cases "m_phase st > ARGS \<or> at_end")
    case True
    then show ?thesis using eq assms(2) SkipToHeaders_safe [OF s] by (auto split: if_splits)
  next
    case False
    then show ?thesis using eq arg_name_loop_safe [OF _ s] by simp
  qed
qed

lemma partial_chunk_safe:
  assumes "safe n st"
  shows "safe n (snd (hRecvMore (st\<lparr>m_chunk := \<lparr>c_data = m_parsePos st, c_size = m_bufLen st - m_parsePos st, c_complete = False\<rparr>,
    m_parsePos := m_bufLen st\<rparr>)))" (is "safe n (snd (hRecvMore ?a))")
proof (rule hRecvMore_safe)
  show "hRecvMore ?a = (fst (hRecvMore ?a), snd (hRecvMore ?a))" by simp
  show "safe n ?a" using assms by (auto simp: safe_def positions_def views_def view_in_def)
qed

lemma safe_value:
  assumes "safe n st" "i \<le> m_bufLen st" "j \<le> m_bufLen st" "m_parsePos st \<le> i"
  shows "safe n (st\<lparr>m_chunk := \<lparr>c_data = m_parsePos st, c_size = i - m_parsePos st, c_complete = x\<rparr>, m_parsePos := j\<rparr>)"
  using assms by (simp add: safe_def positions_def views_def view_in_def)

lemma ReadArgValue_safe: "ReadArgValue st = (b, st1) \<Longrightarrow> safe n st \<Longrightarrow> safe n st1"
proof (induction st rule: ReadArgValue.induct)
  case (1 st)
  obtain c st2 where r: "hRecvMore st = (c, st2)" by fastforce
  consider "m_valueConsumed st" | i where "\<not> m_valueConsumed st" "scan_for arg_delims st = Some i"
    | "\<not> m_valueConsumed st" "scan_for arg_delims st = None" by (cases "scan_for arg_delims st") auto
  then show ?case
  proof cases
    case 2
    have "safe n (st\<lparr>m_chunk := \<lparr>c_data = m_parsePos st, c_size = i - m_parsePos st, c_complete = True\<rparr>, m_parsePos := i\<rparr>)"
      "safe n (st\<lparr>m_chunk := \<lparr>c_data = m_parsePos st, c_size = i - m_parsePos st, c_complete = True\<rparr>, m_parsePos := i + 1\<rparr>)"
      using scan_for_bounds [OF 2(2)] 1(3) by (auto intro!: safe_value)
    then show ?thesis using 1(2) 2 by (auto simp: ReadArgValue.simps [of st])
  next
    case 3
    then show ?thesis
      using 1 r hRecvMore_safe [OF r 1(3)] partial_chunk_safe [OF 1(3)]
      by (cases c) (auto simp: ReadArgValue.simps [of st] Let_def split: if_splits)
  qed (use 1 in \<open>simp add: ReadArgValue.simps [of st]\<close>)
qed

section \<open>The headers\<close>

lemma fill_two_safe: "fill_two st = (b, st1) \<Longrightarrow> safe n st \<Longrightarrow> safe n st1 \<and> (b \<longrightarrow> m_parsePos st1 + 2 \<le> m_bufLen st1)"
proof (induction st rule: fill_two.induct)
  case (1 st)
  obtain c st2 where r: "hRecvMore (hCompact st) = (c, st2)" by fastforce
  show ?case
    using 1 r recv_safe [OF r 1(3)] by (cases c) (auto simp: fill_two.simps [of st] split: if_splits)
qed

lemma header_name_at_safe:
  assumes "safe n st" "m_parsePos st \<le> i" "i < m_bufLen st"
  shows "safe n (header_name_at i st)" "terminated (header_name_at i st) (m_parsePos st)"
proof -
  let ?buf = "(m_buf st)[i := CHR 0x00]"
  let ?pos = "case find (\<lambda>j. ?buf ! j \<noteq> CHR '' '') [i + 1..<m_bufLen st] of Some j \<Rightarrow> j | None \<Rightarrow> m_bufLen st"
  have pos: "?pos \<le> m_bufLen st" by (auto dest: find_upt split: option.splits)
  have f: "m_buf (header_name_at i st) = ?buf" "m_parsePos (header_name_at i st) = ?pos" "m_bufLen (header_name_at i st) = m_bufLen st"
    "m_requestLine (header_name_at i st) = m_requestLine st" "m_chunk (header_name_at i st) = m_chunk st"
    by (simp_all add: header_name_at_def Let_def)
  show "safe n (header_name_at i st)" using assms(1) pos unfolding safe_def positions_def views_def f by simp
  show "terminated (header_name_at i st) (m_parsePos st)"
    unfolding terminated_def f using assms safe_bounds [OF assms(1)] by (intro exI [of _ i]) simp
qed

lemma header_name_loop_safe:
  "header_name_loop st = (q, st1) \<Longrightarrow> safe n st \<Longrightarrow> safe n st1 \<and> (\<forall>p. q = Some p \<longrightarrow> terminated st1 p)"
proof (induction st rule: header_name_loop.induct)
  case (1 st)
  obtain c st2 where r: "hRecvMore (hCompact st) = (c, st2)" by fastforce
  show ?case
  proof (cases "memchr (CHR '':'') st (m_parsePos st) (m_bufLen st)")
    case None
    then show ?thesis
      using 1 r recv_safe [OF r 1(3)] by (cases c) (auto simp: header_name_loop.simps [of st] split: if_splits)
  next
    case (Some i)
    then show ?thesis
      using 1(2,3) header_name_at_safe [OF 1(3), of i] memchr_bounds [OF Some]
      by (auto simp: header_name_loop.simps [of st] split: if_splits)
  qed
qed

lemma header_value_at_safe:
  assumes "safe n st" "m_parsePos st \<le> i" "i < m_bufLen st"
  shows "safe n (header_value_at i st)"
proof -
  let ?c = "\<lparr>c_data = m_parsePos st, c_size = i - m_parsePos st, c_complete = True\<rparr>"
  let ?j = "if i + 1 < m_bufLen st \<and> m_buf st ! (i + 1) = CHR 0x0A then i + 2 else i"
  have "safe n (st\<lparr>m_chunk := ?c, m_parsePos := ?j\<rparr>)" using assms by (intro safe_value) auto
  moreover have "m_buf (header_value_at i st) = m_buf st" "m_parsePos (header_value_at i st) = ?j"
    "m_bufLen (header_value_at i st) = m_bufLen st" "m_requestLine (header_value_at i st) = m_requestLine st"
    "m_chunk (header_value_at i st) = ?c"
    by (simp_all add: header_value_at_def Let_def)
  ultimately show ?thesis by (simp add: safe_def positions_def views_def)
qed

lemma ReadHeaderValue_safe: "ReadHeaderValue st = (b, st1) \<Longrightarrow> safe n st \<Longrightarrow> safe n st1"
proof (induction st rule: ReadHeaderValue.induct)
  case (1 st)
  obtain c st2 where r: "hRecvMore st = (c, st2)" by fastforce
  let ?m = "memchr (CHR 0x0D) st (m_parsePos st) (m_bufLen st)"
  consider "m_valueConsumed st" | i where "\<not> m_valueConsumed st" "?m = Some i"
    | "\<not> m_valueConsumed st" "?m = None" by (cases ?m) auto
  then show ?case
  proof cases
    case 2
    then show ?thesis
      using 1(2) header_value_at_safe [OF 1(3), of i] memchr_bounds [OF 2(2)] by (auto simp: ReadHeaderValue.simps [of st])
  next
    case 3
    then show ?thesis
      using 1 r hRecvMore_safe [OF r 1(3)] partial_chunk_safe [OF 1(3)]
      by (cases c) (auto simp: ReadHeaderValue.simps [of st] Let_def split: if_splits)
  qed (use 1 in \<open>simp add: ReadHeaderValue.simps [of st]\<close>)
qed

lemma read_out_safe: "safe n st \<Longrightarrow> safe n (read_out st)"
proof (induction st rule: read_out.induct)
  case (1 st)
  obtain b st1 where r: "ReadHeaderValue st = (b, st1)" by fastforce
  show ?case using 1 r ReadHeaderValue_safe [OF r 1(2)] by (cases b) (auto simp: read_out.simps [of st])
qed

lemma skip_value_safe: "safe n st \<Longrightarrow> safe n (skip_value st)"
proof (induction st rule: skip_value.induct)
  case (1 st)
  obtain c st2 where r: "hRecvMore (hCompact st) = (c, st2)" by fastforce
  show ?case
    using 1 r recv_safe [OF r 1(2)]
    by (cases c) (auto simp: skip_value.simps [of st] dest!: memchr_bounds intro!: safe_advance split: option.splits)
qed

lemma SkipHeaderValue_safe: "safe n st \<Longrightarrow> safe n (SkipHeaderValue st)"
  by (simp add: SkipHeaderValue_def read_out_safe skip_value_safe)

lemma NextHeaderName_at_safe:
  assumes "NextHeaderName_at st = (q, st1)" and "safe n st"
  shows "safe n st1 \<and> (\<forall>p. q = Some p \<longrightarrow> terminated st1 p)"
proof -
  define s where "s = (if \<not> m_valueConsumed st then SkipHeaderValue st else st)"
  have s: "safe n s" using assms(2) by (simp add: s_def SkipHeaderValue_safe)
  obtain b st2 where f: "fill_two s = (b, st2)" by fastforce
  note f2 = fill_two_safe [OF f s]
  define blank where "blank \<longleftrightarrow> m_buf st2 ! m_parsePos st2 = CHR 0x0D \<and> m_buf st2 ! (m_parsePos st2 + 1) = CHR 0x0A"
  have eq: "(if m_phase st > HEADERS then (None, st) else if b then
      (if blank then (None, st2\<lparr>m_parsePos := m_parsePos st2 + 2, m_phase := BODY\<rparr>) else header_name_loop st2) else (None, st2)) = (q, st1)"
    using assms(1) unfolding NextHeaderName_at_def Let_def s_def [symmetric] f prod.case blank_def by (simp cong: if_cong split: bool.splits split del: if_split)
  show ?thesis
  proof (cases "\<not> m_phase st > HEADERS \<and> b \<and> \<not> blank")
    case True
    then show ?thesis using eq header_name_loop_safe [of st2 q st1 n] f2 by simp
  next
    case False
    have "b \<Longrightarrow> safe n (st2\<lparr>m_parsePos := m_parsePos st2 + 2, m_phase := BODY\<rparr>)"
      using f2 safe_advance [of n st2 "m_parsePos st2 + 2"] by simp
    then show ?thesis using False eq assms(2) f2 by (auto split: if_splits)
  qed
qed

lemma skip_headers_loop_safe: "safe n st \<Longrightarrow> safe n (skip_headers_loop st)"
proof (induction st rule: skip_headers_loop.induct)
  case (1 st)
  obtain q st1 where r: "NextHeaderName_at st = (q, st1)" by fastforce
  show ?case
    using 1 r NextHeaderName_at_safe [OF r 1(2)] SkipHeaderValue_safe [of n st1] by (cases q) (auto simp: skip_headers_loop.simps [of st])
qed

lemma SkipHeaders_at_safe: "safe n st \<Longrightarrow> safe n (SkipHeaders_at st)"
  by (simp add: SkipHeaders_at_def skip_headers_loop_safe)

section \<open>The body\<close>

lemma have_data_safe: "have_data st = (b, st1) \<Longrightarrow> safe n st \<Longrightarrow> safe n st1"
  using recv_safe [of st b st1 n] by (auto simp: have_data_def split: if_splits)

lemma safe_complete: "safe n (st\<lparr>m_chunk := (m_chunk st)\<lparr>c_complete := x\<rparr>\<rparr>) = safe n st"
  by (simp add: safe_def positions_def views_def)

lemma end_chunk_safe: "safe n st \<Longrightarrow> safe n (end_chunk st)"
proof -
  assume s: "safe n st"
  obtain b st1 where f: "fill_two st = (b, st1)" by fastforce
  show ?thesis
  proof (cases b)
    case True
    have "safe n (st1\<lparr>m_parsePos := m_parsePos st1 + 2\<rparr>)" using fill_two_safe [OF f s] True by (intro safe_advance) auto
    then show ?thesis
      using True safe_complete [where st = "st1\<lparr>m_parsePos := m_parsePos st1 + 2\<rparr>"] by (simp add: end_chunk_def f)
  next
    case False
    then show ?thesis using fill_two_safe [OF f s] safe_complete [where st = st1] by (simp add: end_chunk_def f)
  qed
qed

lemma safe_deliver:
  assumes "safe n st" "k = min (m_bufLen st - m_parsePos st) r" "c_data c = m_parsePos st" "c_size c = k"
  shows "safe n (st\<lparr>m_chunk := c, m_bodyRemaining := q, m_parsePos := m_parsePos st + k\<rparr>)"
  using assms by (auto simp: safe_def positions_def views_def view_in_def)

lemma chunk_data_safe:
  assumes "chunk_data st = (b, st1)" and "safe n st"
  shows "safe n st1"
proof -
  obtain c st0 where h: "have_data st = (c, st0)" by fastforce
  note s0 = have_data_safe [OF h assms(2)]
  let ?n = "min (m_bufLen st0 - m_parsePos st0) (m_bodyRemaining st0)"
  let ?st2 = "st0\<lparr>m_chunk := (m_chunk st0)\<lparr>c_data := m_parsePos st0, c_size := ?n\<rparr>, m_bodyRemaining := m_bodyRemaining st0 - ?n,
    m_parsePos := m_parsePos st0 + ?n\<rparr>"
  have s2: "safe n ?st2" by (rule safe_deliver [OF s0 refl]) simp_all
  have "st1 = st0 \<or> st1 = end_chunk ?st2 \<or> st1 = ?st2\<lparr>m_chunk := (m_chunk ?st2)\<lparr>c_complete := False\<rparr>\<rparr>"
    using assms(1) by (cases c) (simp_all add: chunk_data_def h Let_def split: if_splits)
  then show ?thesis
  proof (elim disjE)
    assume "st1 = ?st2\<lparr>m_chunk := (m_chunk ?st2)\<lparr>c_complete := False\<rparr>\<rparr>"
    then show ?thesis using s2 safe_complete [where st = ?st2] by (simp only:)
  qed (use s0 end_chunk_safe [OF s2] in \<open>simp_all only:\<close>)
qed

lemma chunk_line_loop_safe: "chunk_line_loop st = (b, st1) \<Longrightarrow> safe n st \<Longrightarrow> safe n st1"
proof (induction st rule: chunk_line_loop.induct)
  case (1 st)
  obtain c st2 where r: "hRecvMore (hCompact st) = (c, st2)" by fastforce
  show ?case
  proof (cases "has_line st")
    case True
    then obtain i where i: "memchr (CHR 0x0D) st (m_parsePos st) (m_bufLen st) = Some i" and lt: "i + 1 < m_bufLen st"
      by (auto simp: has_line_def split: option.splits)
    have "safe n (st\<lparr>m_parsePos := i + 2\<rparr>)" using lt 1(3) by (intro safe_advance) auto
    then show ?thesis
      using 1(2) True i chunk_data_safe [of "st\<lparr>m_parsePos := i + 2, m_bodyRemaining := k\<rparr>" b st1 n for k]
      by (auto simp: chunk_line_loop.simps [of st] Let_def split: if_splits)
  next
    case False
    then show ?thesis
      using 1 r recv_safe [OF r 1(3)] by (cases c) (auto simp: chunk_line_loop.simps [of st])
  qed
qed

lemma counted_body_safe:
  assumes "counted_body st = (b, st1)" and "safe n st"
  shows "safe n st1"
proof -
  obtain c st0 where h: "have_data st = (c, st0)" by fastforce
  note s0 = have_data_safe [OF h assms(2)]
  let ?n = "min (m_bufLen st0 - m_parsePos st0) (m_bodyRemaining st0)"
  let ?st2 = "st0\<lparr>m_chunk := \<lparr>c_data = m_parsePos st0, c_size = ?n, c_complete = (m_bodyRemaining st0 - ?n = 0)\<rparr>,
    m_bodyRemaining := m_bodyRemaining st0 - ?n, m_parsePos := m_parsePos st0 + ?n\<rparr>"
  have s2: "safe n ?st2" by (rule safe_deliver [OF s0 refl]) simp_all
  have "st1 = st0\<lparr>m_phase := DONE\<rparr> \<or> (\<exists>ph. st1 = ?st2\<lparr>m_phase := ph\<rparr>)"
    using assms(1) by (cases c) (auto simp: counted_body_def h Let_def)
  then show ?thesis using s0 s2 by (elim disjE exE) (simp_all only: safe_simps)
qed

lemma ReadBody_at_safe:
  assumes "ReadBody_at st = (b, st1)" and "safe n st"
  shows "safe n st1"
proof -
  let ?st = "st\<lparr>m_bodyRemaining := nat (m_contentLength st)\<rparr>"
  consider "st1 = st" | "st1 = st\<lparr>m_phase := DONE\<rparr>" | "st1 = ?st\<lparr>m_phase := DONE\<rparr>" | "chunk_data st = (b, st1)"
    | "chunk_line_loop st = (b, st1)" | "counted_body st = (b, st1)" | "counted_body ?st = (b, st1)"
    using assms(1) unfolding ReadBody_at_def ReadChunkedBody_def Let_def by (simp split: if_splits)
  then show ?thesis
    by cases (use assms(2) chunk_data_safe [of st b st1 n] chunk_line_loop_safe [of st b st1 n] counted_body_safe [of st b st1 n]
      counted_body_safe [of ?st b st1 n] in simp_all)
qed

lemma skip_body_loop_safe: "safe n st \<Longrightarrow> safe n (skip_body_loop st)"
proof (induction st rule: skip_body_loop.induct)
  case (1 st)
  obtain b st1 where r: "ReadBody_at st = (b, st1)" by fastforce
  show ?case using 1 r ReadBody_at_safe [OF r 1(2)] by (cases b) (auto simp: skip_body_loop.simps [of st])
qed

lemma SkipBody_at_safe: "safe n st \<Longrightarrow> safe n (SkipBody_at st)"
  by (simp add: SkipBody_at_def skip_body_loop_safe)

section \<open>Calls\<close>

lemma AdvanceToPhase_safe:
  assumes "AdvanceToPhase target st = Some r"
  shows "safe n st \<longrightarrow> safe n (snd r)"
proof (rule AdvanceToPhase.raw_induct [where P = "\<lambda>target st r. safe n st \<longrightarrow> safe n (snd r)", OF _ assms], goal_cases)
  case (1 advance target st r)
  have "safe n st \<Longrightarrow> safe n (snd (GetRequestLine st))" by (rule GetRequestLine_safe [of st "fst (GetRequestLine st)"]) simp
  then show ?case
    using 1 SkipArgs_at_safe [of n st] SkipHeaders_at_safe [of n st] SkipBody_at_safe [of n st]
    by (cases "m_phase st") (auto simp: case_prod_beta split: if_splits)
qed

lemma in_phase_safe: "in_phase target st = Some (b, st1) \<Longrightarrow> safe n st \<Longrightarrow> safe n st1"
  using AdvanceToPhase_safe [of target st "(b, st1)" n] by (auto simp: in_phase_def split: if_splits)

text \<open>The calls of a handler, and a kill of the context while the handler is suspended elsewhere. A call that returns a name
  gives its offset.\<close>

datatype call = Get_line | Next_arg | Read_arg | Skip_arg | Skip_args | Next_header | Read_header | Skip_header | Skip_headers
  | Read_body | Skip_body | Content_length | Reset_call | Kill_call

fun call_step :: "call \<Rightarrow> http \<Rightarrow> (nat option \<times> http) option" where
  "call_step Get_line st = Some (None, snd (GetRequestLine st))"
| "call_step Next_arg st = NextArgName st"
| "call_step Read_arg st = Some (None, snd (ReadArgValue st))"
| "call_step Skip_arg st = Some (None, SkipArgValue st)"
| "call_step Skip_args st = map_option (Pair None) (SkipArgs st)"
| "call_step Next_header st = NextHeaderName st"
| "call_step Read_header st = Some (None, snd (ReadHeaderValue st))"
| "call_step Skip_header st = Some (None, SkipHeaderValue st)"
| "call_step Skip_headers st = map_option (Pair None) (SkipHeaders st)"
| "call_step Read_body st = map_option (\<lambda>r. (None, snd r)) (ReadBody st)"
| "call_step Skip_body st = map_option (Pair None) (SkipBody st)"
| "call_step Content_length st = map_option (\<lambda>r. (None, snd r)) (ContentLength st)"
| "call_step Reset_call st = Some (None, hReset st)"
| "call_step Kill_call st = Some (None, st\<lparr>x_killed := True\<rparr>)"

inductive handled :: "http \<Rightarrow> http \<Rightarrow> bool" for st0 where
  start: "handled st0 st0"
| call: "handled st0 st \<Longrightarrow> call_step c st = Some (q, st1) \<Longrightarrow> handled st0 st1"

lemma hReset_safe: "safe n st \<Longrightarrow> safe n (hReset st)"
proof -
  assume "safe n st"
  then have "safe n (hCompact st)" by simp
  then show ?thesis
    by (simp add: hReset_def safe_def positions_def views_def view_in_def no_line_def no_chunk_def)
qed

lemma call_step_safe:
  assumes "call_step c st = Some (q, st1)" and "safe n st"
  shows "safe n st1 \<and> (\<forall>p. q = Some p \<longrightarrow> terminated st1 p)"
proof -
  note phase = in_phase_safe [OF _ assms(2)]
  show ?thesis
  proof (cases c)
    case Next_arg
    then obtain ok st0 where ph: "in_phase ARGS st = Some (ok, st0)"
      and r: "(if ok then NextArgName_at st0 else (None, st0)) = (q, st1)"
      using assms(1) by (auto simp: NextArgName_def bind_eq_Some_conv)
    show ?thesis
      using r NextArgName_at_safe [of st0 q st1 n, OF _ phase [OF ph]] phase [OF ph] by (cases ok) auto
  next
    case Next_header
    then obtain ok st0 where ph: "in_phase HEADERS st = Some (ok, st0)"
      and r: "(if ok then NextHeaderName_at st0 else (None, st0)) = (q, st1)"
      using assms(1) by (auto simp: NextHeaderName_def bind_eq_Some_conv)
    show ?thesis
      using r NextHeaderName_at_safe [of st0 q st1 n, OF _ phase [OF ph]] phase [OF ph] by (cases ok) auto
  next
    case Skip_args
    then show ?thesis
      using assms(1) phase by (auto simp: SkipArgs_def bind_eq_Some_conv SkipArgs_at_safe split: if_splits)
  next
    case Skip_headers
    then show ?thesis
      using assms(1) phase by (auto simp: SkipHeaders_def bind_eq_Some_conv SkipHeaders_at_safe split: if_splits)
  next
    case Skip_body
    then show ?thesis
      using assms(1) phase by (auto simp: SkipBody_def bind_eq_Some_conv SkipBody_at_safe split: if_splits)
  next
    case Read_body
    then show ?thesis
      using assms(1) phase ReadBody_at_safe by (auto simp: ReadBody_def bind_eq_Some_conv split: if_splits)
  next
    case Content_length
    then show ?thesis
      using assms phase by (auto simp: ContentLength_def Let_def bind_eq_Some_conv split: if_splits)
  next
    case Get_line
    then show ?thesis using assms GetRequestLine_safe [of st "fst (GetRequestLine st)" "snd (GetRequestLine st)" n] by auto
  next
    case Read_arg
    then show ?thesis using assms ReadArgValue_safe [of st "fst (ReadArgValue st)" "snd (ReadArgValue st)" n] by auto
  next
    case Read_header
    then show ?thesis using assms ReadHeaderValue_safe [of st "fst (ReadHeaderValue st)" "snd (ReadHeaderValue st)" n] by auto
  qed (use assms in \<open>auto simp: SkipArgValue_safe SkipHeaderValue_safe hReset_safe\<close>)
qed

text \<open>C36. Whatever a peer sends and however its bytes are segmented, and whichever calls a handler makes in whichever order
  (with the context killed at any point), the parser's positions stay ordered and within the receive buffer, every view and
  chunk it hands out lies in the buffer, and every name it returns is a string that ends inside the buffer.\<close>

theorem parser_safe:
  assumes "handled (http_new n m ins outs) st"
  shows "safe n st \<and> (\<forall>c p st1. call_step c st = Some (Some p, st1) \<longrightarrow> terminated st1 p)"
proof -
  have s: "safe n st" using assms by induction (use safe_new call_step_safe in auto)
  then show ?thesis using call_step_safe by blast
qed

definition sample_request :: "received list" where
  "sample_request = [Bytes (''GET /a?x=1 HT''), Bytes (''TP/1.1'' @ [CHR 0x0D, CHR 0x0A] @ ''Host: b'' @ [CHR 0x0D, CHR 0x0A, CHR 0x0D, CHR 0x0A])]"

theorem parser_safe_witness:
  "\<exists>p st. handled (http_new 64 8 sample_request []) st \<and> c_string st p = ''Host'' \<and> m_phase st = HEADERS \<and> safe 64 st"
proof -
  let ?st0 = "http_new 64 8 sample_request []"
  have "map_option (\<lambda>(q, st). map_option (\<lambda>p. (c_string st p, m_phase st)) q) (call_step Next_header ?st0) = Some (Some (''Host'', HEADERS))"
    by code_simp
  then obtain p st where c: "call_step Next_header ?st0 = Some (Some p, st)" and st: "c_string st p = ''Host''" "m_phase st = HEADERS" by auto
  have "handled ?st0 st" by (rule handled.call [OF handled.start c])
  then show ?thesis using parser_safe [of 64 8 sample_request "[]" st] st by auto
qed

end
