(* ===== verification/Http_Request.thy ===== *)
theory Http_Request
  imports Http_Connection
begin

text \<open>
  What the HTTP parser reads: for a well-formed request whose head arrives with the first receive, \<open>GetRequestLine\<close>, the
  header calls and \<open>ReadBody\<close> give the method, the path, the headers and the body, for any segmentation of the body.
  And what it does otherwise: inputs on which a call never returns, and the size it reads in front of a chunk.
\<close>

section \<open>The buffer as a list\<close>

text \<open>The receive buffer holds the unread bytes \<open>u\<close> between those already read and the free space.\<close>

definition buffered :: "http \<Rightarrow> string \<Rightarrow> string \<Rightarrow> string \<Rightarrow> bool" where
  "buffered st pre u post \<longleftrightarrow> m_buf st = pre @ u @ post \<and> m_parsePos st = length pre \<and> m_bufLen st = length pre + length u"

lemma find_first:
  "P c \<Longrightarrow> \<forall>x \<in> set xs. \<not> P x \<Longrightarrow> length pre + length xs < b \<Longrightarrow>
    find (\<lambda>i. P ((pre @ xs @ c # ys) ! i)) [length pre..<b] = Some (length pre + length xs)"
proof (induction xs arbitrary: pre)
  case Nil
  then show ?case by (simp add: upt_rec [of "length pre" b] nth_append)
next
  case (Cons x xs)
  then show ?case using Cons.IH [of "pre @ [x]"] by (simp add: upt_rec [of "length pre" b] nth_append)
qed

lemma find_none:
  "\<forall>x \<in> set u. \<not> P x \<Longrightarrow> find (\<lambda>i. P ((pre @ u @ post) ! i)) [length pre..<length pre + length u] = None"
  by (auto simp: find_None_iff nth_append)

lemma memchr_first:
  assumes "buffered st pre (xs @ c # ys) post" "c \<notin> set xs"
  shows "memchr c st (m_parsePos st) (m_bufLen st) = Some (length pre + length xs)"
  using assms find_first [of "\<lambda>x. x = c" c xs pre "length pre + length (xs @ c # ys)" "ys @ post"]
  by (auto simp: memchr_def buffered_def)

lemma memchr_none:
  assumes "buffered st pre u post" "c \<notin> set u"
  shows "memchr c st (m_parsePos st) (m_bufLen st) = None"
  using assms find_none [of u "\<lambda>x. x = c" pre post] by (auto simp: memchr_def buffered_def)

section \<open>Requests\<close>

text \<open>A header field: name, number of spaces behind the colon, value.\<close>

type_synonym field = "string \<times> nat \<times> string"

definition ok_field :: "field \<Rightarrow> bool" where
  "ok_field = (\<lambda>(name, k, val). set name \<inter> {CHR '':'', CHR 0x0D, CHR 0x00} = {} \<and> CHR 0x0D \<notin> set val \<and>
     (val = [] \<or> hd val \<noteq> CHR '' ''))"

definition field_bytes :: "field \<Rightarrow> string" where
  "field_bytes = (\<lambda>(name, k, val). name @ CHR '':'' # replicate k (CHR '' '') @ val @ [CHR 0x0D, CHR 0x0A])"

record request =
  q_method :: string
  q_path :: string
  q_rest :: string
  q_fields :: "field list"

text \<open>The rest of the request line starts at the query or at the space before the version.\<close>

definition ok_request :: "request \<Rightarrow> bool" where
  "ok_request q \<longleftrightarrow> q_method q \<noteq> [] \<and> set (q_method q) \<inter> {CHR '' '', CHR 0x0D} = {} \<and>
     set (q_path q) \<inter> {CHR ''?'', CHR '' '', CHR 0x0D} = {} \<and>
     q_rest q \<noteq> [] \<and> hd (q_rest q) \<in> {CHR ''?'', CHR '' ''} \<and> set (q_rest q) \<inter> {CHR 0x0D, CHR 0x0A} = {} \<and>
     (\<forall>f \<in> set (q_fields q). ok_field f)"

definition request_line :: "request \<Rightarrow> string" where
  "request_line q = q_method q @ CHR '' '' # q_path q @ q_rest q"

definition head_bytes :: "request \<Rightarrow> string" where
  "head_bytes q = request_line q @ [CHR 0x0D, CHR 0x0A] @ concat (map field_bytes (q_fields q)) @ [CHR 0x0D, CHR 0x0A]"

text \<open>What the headers say about the body and the connection.\<close>

definition is_field :: "string \<Rightarrow> string \<Rightarrow> bool" where
  "is_field lit name \<longleftrightarrow> map tolower name = lit"

definition starts_with :: "string \<Rightarrow> string \<Rightarrow> bool" where
  "starts_with lit val \<longleftrightarrow> map tolower (take (length lit) val) = lit"

definition frame_field :: "field \<Rightarrow> int \<times> bool \<times> bool \<Rightarrow> int \<times> bool \<times> bool" where
  "frame_field = (\<lambda>(name, k, val) (len, chunked, close).
     (if is_field ''content-length'' name then fold add_digit val 0 else len,
      chunked \<or> is_field ''transfer-encoding'' name \<and> starts_with ''chunked'' val,
      close \<or> is_field ''connection'' name \<and> starts_with ''close'' val))"

definition framing :: "field list \<Rightarrow> int \<times> bool \<times> bool" where
  "framing fs = fold frame_field fs (- 1, False, False)"

section \<open>The request line\<close>

lemma GetRequestLine_reads:
  assumes "buffered st pre (request_line q @ CHR 0x0D # CHR 0x0A # tail) post" "ok_request q" "\<not> m_requestLineParsed st"
  defines "sp \<equiv> length pre + length (q_method q)"
  shows "GetRequestLine st = (True, st\<lparr>m_requestLineParsed := True,
    m_requestLine := \<lparr>rl_method = (length pre, length (q_method q)), rl_path = (sp + 1, length (q_path q))\<rparr>,
    m_parsePos := sp + 1 + length (q_path q) + (if hd (q_rest q) = CHR ''?'' then 1 else 0), m_phase := ARGS\<rparr>)"
proof -
  obtain c rest where rest: "q_rest q = c # rest" "c \<in> {CHR ''?'', CHR '' ''}" using assms(2) by (cases "q_rest q") (auto simp: ok_request_def)
  let ?st = "st\<lparr>m_requestLineParsed := True\<rparr>"
  have b: "buffered ?st pre (request_line q @ CHR 0x0D # CHR 0x0A # tail) post" using assms(1) by (simp add: buffered_def)
  have "CHR 0x0D \<notin> set (request_line q)" using assms(2) by (auto simp: ok_request_def request_line_def)
  from memchr_first [OF b this] b have line: "has_line ?st" by (simp add: has_line_def buffered_def nth_append)
  have "buffered ?st pre (q_method q @ CHR '' '' # q_path q @ q_rest q @ CHR 0x0D # CHR 0x0A # tail) post"
    using b by (simp add: request_line_def)
  from memchr_first [OF this] assms(2) have sp: "memchr (CHR '' '') ?st (m_parsePos ?st) (m_bufLen ?st) = Some sp"
    by (auto simp: sp_def ok_request_def)
  let ?P = "\<lambda>x. x \<in> {CHR ''?'', CHR '' '', CHR 0x0D}" and ?pre = "pre @ q_method q @ [CHR '' '']"
  have buf: "m_buf st = ?pre @ q_path q @ c # rest @ CHR 0x0D # CHR 0x0A # tail @ post" "m_parsePos st = length pre"
    using b rest by (simp_all add: request_line_def buffered_def)
  have "find (\<lambda>i. ?P (m_buf st ! i)) [length ?pre..<m_bufLen st] = Some (length ?pre + length (q_path q))"
    unfolding buf using b rest assms(2) by (intro find_first) (auto simp: ok_request_def buffered_def request_line_def)
  then have path: "find (\<lambda>i. ?P (m_buf st ! i)) [sp + 1..<m_bufLen st] = Some (sp + 1 + length (q_path q))" by (simp add: sp_def)
  have at: "m_buf st ! (sp + 1 + length (q_path q)) = c" unfolding buf sp_def by (simp add: nth_append)
  have parse: "ParseRequestLine ?st = (True, ?st\<lparr>m_requestLine := \<lparr>rl_method = (length pre, length (q_method q)), rl_path = (sp + 1, length (q_path q))\<rparr>,
      m_parsePos := sp + 1 + length (q_path q) + (if c = CHR ''?'' then 1 else 0)\<rparr>)"
    using sp path at buf(2) by (simp add: ParseRequestLine_def Let_def sp_def)
  show ?thesis
    using assms(3) line parse rest by (simp add: GetRequestLine_def request_line_loop.simps [of ?st])
qed

text \<open>The state between two headers, and what parsing a header leaves alone.\<close>

definition at_headers :: "http \<Rightarrow> string \<Rightarrow> string \<Rightarrow> string \<Rightarrow> bool" where
  "at_headers st pre u post \<longleftrightarrow> buffered st pre u post \<and> m_phase st = HEADERS \<and> m_valueConsumed st \<and>
     \<not> m_pendingContentLength st \<and> \<not> m_pendingTransferEncoding st \<and> \<not> m_pendingConnection st"

definition framed :: "http \<Rightarrow> int \<times> bool \<times> bool" where
  "framed st = (m_contentLength st, m_chunkedBody st, m_clientClose st)"

definition untouched :: "http \<Rightarrow> received list \<times> bool \<times> nat \<times> bool \<times> nat" where
  "untouched st = (x_in st, x_killed st, m_bodyRemaining st, m_chunkedDone st, length (m_buf st))"

lemma SkipToHeaders_reads:
  assumes "buffered st pre (xs @ CHR 0x0A # u) post" "CHR 0x0A \<notin> set xs"
  shows "SkipToHeaders st = st\<lparr>m_parsePos := length pre + length xs + 1, m_phase := HEADERS, m_valueConsumed := True\<rparr>"
  using memchr_first [OF assms] by (simp add: SkipToHeaders.simps [of st])

section \<open>A header field\<close>

lemma strncasecmp_name:
  "length lit = n \<Longrightarrow> (length name = n \<and> strncasecmp_eq (pre @ name @ ys) (length pre) lit) = is_field lit name"
  by (auto simp: strncasecmp_eq_def is_field_def dest: map_eq_imp_length_eq)

lemma starts_with_length: "starts_with lit val \<Longrightarrow> length lit \<le> length val"
  unfolding starts_with_def by (metis length_map length_take min.cobounded1)

lemma strncasecmp_value:
  "length lit = n \<Longrightarrow> (n \<le> length val \<and> strncasecmp_eq (pre @ val @ ys) (length pre) lit) = starts_with lit val"
  using starts_with_length [of lit val] by (auto simp: strncasecmp_eq_def starts_with_def)

lemma header_name_at_reads:
  assumes "buffered st pre (name @ CHR '':'' # replicate k (CHR '' '') @ val @ CHR 0x0D # CHR 0x0A # tail) post"
    and "ok_field (name, k, val)"
  defines "buf \<equiv> pre @ name @ CHR 0x00 # replicate k (CHR '' '') @ val @ CHR 0x0D # CHR 0x0A # tail @ post"
  shows "header_name_at (length pre + length name) st = st\<lparr>m_buf := buf, m_parsePos := length pre + length name + 1 + k,
    m_pendingContentLength := (m_pendingContentLength st \<or> is_field ''content-length'' name),
    m_pendingTransferEncoding := (m_pendingTransferEncoding st \<or> is_field ''transfer-encoding'' name),
    m_pendingConnection := (m_pendingConnection st \<or> is_field ''connection'' name), m_valueConsumed := False\<rparr>"
proof -
  let ?i = "length pre + length name" and ?pre = "pre @ name @ [CHR 0x00]"
  have b: "(m_buf st)[?i := CHR 0x00] = buf" "m_parsePos st = length pre"
    "m_bufLen st = length pre + length (name @ CHR '':'' # replicate k (CHR '' '') @ val @ CHR 0x0D # CHR 0x0A # tail)"
    using assms(1) by (simp_all add: buffered_def buf_def list_update_append)
  obtain c ys where c: "val @ CHR 0x0D # CHR 0x0A # tail = c # ys" "c \<noteq> CHR '' ''"
    using assms(2) by (cases val) (auto simp: ok_field_def)
  have "find (\<lambda>i. (?pre @ replicate k (CHR '' '') @ c # ys @ post) ! i \<noteq> CHR '' '') [length ?pre..<m_bufLen st]
      = Some (length ?pre + length (replicate k (CHR '' '')))"
    by (rule find_first) (use c(2) b(3) in auto)
  moreover have "?pre @ replicate k (CHR '' '') @ c # ys @ post = buf"
    using c(1) by (simp add: buf_def flip: append_assoc append_Cons)
  ultimately have pos: "find (\<lambda>j. buf ! j \<noteq> CHR '' '') [?i + 1..<m_bufLen st] = Some (?i + 1 + k)" by simp
  have names: "(length name = 14 \<and> strncasecmp_eq buf (length pre) ''content-length'') = is_field ''content-length'' name"
    "(length name = 17 \<and> strncasecmp_eq buf (length pre) ''transfer-encoding'') = is_field ''transfer-encoding'' name"
    "(length name = 10 \<and> strncasecmp_eq buf (length pre) ''connection'') = is_field ''connection'' name"
    unfolding buf_def by (rule strncasecmp_name, simp)+
  show ?thesis
    unfolding header_name_at_def Let_def b(1,2) pos by (simp add: names)
qed

lemma NextHeaderName_reads:
  assumes "at_headers st pre (field_bytes (name, k, val) @ tail) post" and ok: "ok_field (name, k, val)"
  shows "NextHeaderName st = Some (Some (length pre), header_name_at (length pre + length name) st)"
proof -
  let ?u = "name @ CHR '':'' # replicate k (CHR '' '') @ val @ CHR 0x0D # CHR 0x0A # tail"
  have b: "buffered st pre ?u post" and st: "m_phase st = HEADERS" "m_valueConsumed st"
    using assms(1) by (simp_all add: at_headers_def field_bytes_def)
  then have fill: "fill_two st = (True, st)" by (simp add: fill_two.simps [of st] buffered_def)
  obtain c ys where c: "?u = c # ys" "c \<noteq> CHR 0x0D" using ok by (cases name) (auto simp: ok_field_def)
  then have "m_buf st ! m_parsePos st \<noteq> CHR 0x0D" using b by (simp add: buffered_def nth_append)
  moreover have "memchr (CHR '':'') st (m_parsePos st) (m_bufLen st) = Some (length pre + length name)"
    by (rule memchr_first [OF b]) (use ok in \<open>auto simp: ok_field_def\<close>)
  moreover have "memchr (CHR 0x0D) st (m_parsePos st) (length pre + length name) = None"
    using b ok find_none [of name "\<lambda>x. x = CHR 0x0D" pre "CHR '':'' # replicate k (CHR '' '') @ val @ CHR 0x0D # CHR 0x0A # tail @ post"]
    by (auto simp: memchr_def buffered_def ok_field_def)
  ultimately show ?thesis
    using st fill b by (simp add: NextHeaderName_def in_phase_def NextHeaderName_at_def header_name_loop.simps [of st] buffered_def phase_order)
qed

lemma ReadHeaderValue_reads:
  assumes b: "buffered st pre (val @ CHR 0x0D # CHR 0x0A # tail) post" and "CHR 0x0D \<notin> set val" "\<not> m_valueConsumed st"
  shows "ReadHeaderValue st = (True, st\<lparr>m_chunk := \<lparr>c_data = length pre, c_size = length val, c_complete = True\<rparr>,
    m_contentLength := (if m_pendingContentLength st then fold add_digit val 0 else m_contentLength st), m_pendingContentLength := False,
    m_chunkedBody := (m_chunkedBody st \<or> m_pendingTransferEncoding st \<and> starts_with ''chunked'' val), m_pendingTransferEncoding := False,
    m_clientClose := (m_clientClose st \<or> m_pendingConnection st \<and> starts_with ''close'' val), m_pendingConnection := False,
    m_parsePos := length pre + length val + 2, m_valueConsumed := True\<rparr>)"
proof -
  have pos: "m_parsePos st = length pre" and buf: "m_buf st = pre @ val @ CHR 0x0D # CHR 0x0A # tail @ post"
    and len: "length pre + length val + 1 < m_bufLen st" using b by (simp_all add: buffered_def)
  have "(7 \<le> length val \<and> strncasecmp_eq (m_buf st) (length pre) ''chunked'') = starts_with ''chunked'' val"
    "(5 \<le> length val \<and> strncasecmp_eq (m_buf st) (length pre) ''close'') = starts_with ''close'' val"
    unfolding buf by (rule strncasecmp_value, simp)+
  moreover have "take (length val) (drop (length pre) (m_buf st)) = val" "m_buf st ! (length pre + length val + 1) = CHR 0x0A"
    using buf by (simp_all add: nth_append)
  ultimately show ?thesis
    using memchr_first [OF b assms(2)] assms(3) pos len by (simp add: ReadHeaderValue.simps [of st] header_value_at_def Let_def)
qed

text \<open>The loop of a handler over the headers.\<close>

partial_function (option) read_headers :: "http \<Rightarrow> ((string \<times> string) list \<times> http) option" where
  "read_headers st = do {
     (q, st1) \<leftarrow> NextHeaderName st;
     (case q of
        None \<Rightarrow> Some ([], st1)
      | Some p \<Rightarrow>
          let st2 = snd (ReadHeaderValue st1)
          in do {
            (hs, st3) \<leftarrow> read_headers st2;
            Some ((c_string st1 p, chunk_text st2 (m_chunk st2)) # hs, st3) }) }"

declare read_headers.simps [code]

lemma field_step:
  assumes st: "at_headers st pre (field_bytes (name, k, val) @ tail) post" and ok: "ok_field (name, k, val)"
  obtains p st1 st2 pre2 where "NextHeaderName st = Some (Some p, st1)" "ReadHeaderValue st1 = (True, st2)" "c_string st1 p = name"
    "chunk_text st2 (m_chunk st2) = val" "at_headers st2 pre2 tail post" "framed st2 = frame_field (name, k, val) (framed st)"
    "untouched st2 = untouched st"
proof -
  let ?u = "name @ CHR '':'' # replicate k (CHR '' '') @ val @ CHR 0x0D # CHR 0x0A # tail"
  let ?st1 = "header_name_at (length pre + length name) st" and ?pre1 = "pre @ name @ CHR 0x00 # replicate k (CHR '' '')"
  have b: "buffered st pre ?u post" using st by (simp add: at_headers_def field_bytes_def)
  note st1 = header_name_at_reads [OF b ok]
  have b1: "buffered ?st1 ?pre1 (val @ CHR 0x0D # CHR 0x0A # tail) post" and vc: "\<not> m_valueConsumed ?st1"
    using b unfolding st1 by (simp_all add: buffered_def)
  have cr: "CHR 0x0D \<notin> set val" "CHR 0x00 \<notin> set name" using ok by (auto simp: ok_field_def)
  note rd = ReadHeaderValue_reads [OF b1 cr(1) vc]
  have c: "c_string ?st1 (length pre) = name" using cr(2) unfolding st1 by (simp add: c_string_def takeWhile_append)
  show thesis
    by (rule that [OF NextHeaderName_reads [OF st ok] rd c, of "?pre1 @ val @ [CHR 0x0D, CHR 0x0A]"])
       (use st b1 in \<open>simp_all add: st1 at_headers_def chunk_text_def view_text_def buffered_def framed_def frame_field_def untouched_def field_bytes_def\<close>)
qed

lemma read_headers_fields:
  assumes "at_headers st pre (concat (map field_bytes fs) @ CHR 0x0D # CHR 0x0A # body) post" "\<forall>f \<in> set fs. ok_field f"
  shows "\<exists>st1 pre1. read_headers st = Some (map (\<lambda>(name, k, val). (name, val)) fs, st1) \<and> buffered st1 pre1 body post \<and>
    m_phase st1 = BODY \<and> framed st1 = fold frame_field fs (framed st) \<and> untouched st1 = untouched st"
  using assms
proof (induction fs arbitrary: st pre)
  case Nil
  let ?st1 = "st\<lparr>m_parsePos := m_parsePos st + 2, m_phase := BODY\<rparr>"
  have "NextHeaderName st = Some (None, ?st1)"
    using Nil by (simp add: NextHeaderName_def in_phase_def phase_order NextHeaderName_at_def fill_two.simps [of st] at_headers_def buffered_def nth_append)
  then have "read_headers st = Some ([], ?st1)" by (simp add: read_headers.simps [of st])
  moreover have "buffered ?st1 (pre @ [CHR 0x0D, CHR 0x0A]) body post" "framed ?st1 = framed st" "untouched ?st1 = untouched st"
    using Nil by (simp_all add: at_headers_def buffered_def framed_def untouched_def)
  ultimately show ?case by (intro exI [of _ ?st1] exI [of _ "pre @ [CHR 0x0D, CHR 0x0A]"]) simp
next
  case (Cons f fs)
  obtain name k val where f: "f = (name, k, val)" by (cases f)
  have "at_headers st pre (field_bytes (name, k, val) @ (concat (map field_bytes fs) @ CHR 0x0D # CHR 0x0A # body)) post" "ok_field (name, k, val)"
    using Cons.prems f by simp_all
  from field_step [OF this] obtain p st1 st2 pre2 where r: "NextHeaderName st = Some (Some p, st1)" "ReadHeaderValue st1 = (True, st2)"
    "c_string st1 p = name" "chunk_text st2 (m_chunk st2) = val"
    and st2: "at_headers st2 pre2 (concat (map field_bytes fs) @ CHR 0x0D # CHR 0x0A # body) post"
    "framed st2 = frame_field (name, k, val) (framed st)" "untouched st2 = untouched st" .
  from Cons.IH [OF st2(1)] Cons.prems(2) obtain st3 pre3 where "read_headers st2 = Some (map (\<lambda>(name, k, val). (name, val)) fs, st3)"
    "buffered st3 pre3 body post" "m_phase st3 = BODY" "framed st3 = fold frame_field fs (framed st2)" "untouched st3 = untouched st2" by auto
  then show ?case using r st2 f by (intro exI [of _ st3] exI [of _ pre3]) (simp add: read_headers.simps [of st] Let_def)
qed

section \<open>The body\<close>

lemma recv_when_empty:
  assumes "buffered st pre [] post" "\<not> x_killed st" "x_in st = map Bytes (bs # bss)" "bs \<noteq> []" "m_buf st \<noteq> []" "[] \<notin> set bss"
  obtains st1 u post1 bss1 where "hRecvMore (hCompact st) = (True, st1)" "rebuf st1 st = st1" "buffered st1 [] u post1" "u \<noteq> []"
    "u = take (length (m_buf st)) bs" "\<not> x_killed st1" "length (m_buf st1) = length (m_buf st)" "x_in st1 = map Bytes bss1"
    "[] \<notin> set bss1" "u @ concat bss1 = bs @ concat bss"
proof -
  let ?n = "length (m_buf st)" and ?c = "hCompact st"
  let ?ins = "if drop ?n bs = [] then bss else drop ?n bs # bss" and ?u = "take (length (m_buf st)) bs"
  let ?st1 = "?c\<lparr>m_buf := memcpy (m_buf st) 0 ?u, m_bufLen := length ?u, x_in := map Bytes ?ins\<rparr>"
  have c: "m_bufLen ?c = 0" "m_buf ?c = m_buf st" "x_killed ?c = x_killed st" "x_in ?c = x_in st"
    using assms(1) by (auto simp: hCompact_def Let_def buffered_def)
  have u: "?u \<noteq> []" using assms(4,5) by simp
  have r: "hRecvMore ?c = (True, ?st1)"
    using c assms(2,3,5) u by (simp add: hRecvMore_def Let_def)
  show thesis
  proof (rule that [of ?st1 ?u "drop (length ?u) (m_buf st)" ?ins, OF r])
    show "rebuf ?st1 st = ?st1" using hRecvMore_frame [OF r] hCompact_frame [of st] by (simp add: rebuf_def hCompact_def Let_def)
  qed (use u c assms(2,6) in \<open>auto simp: buffered_def memcpy_def\<close>)
qed

text \<open>The loop of a handler over the body.\<close>

partial_function (option) read_body :: "http \<Rightarrow> (string \<times> http) option" where
  "read_body st = do {
     (ok, st1) \<leftarrow> ReadBody st;
     (if ok then do {
        (bs, st2) \<leftarrow> read_body st1;
        Some (chunk_text st1 (m_chunk st1) @ bs, st2) }
      else Some ([], st1)) }"

declare read_body.simps [code]

text \<open>A state with a body of known length to read, of which \<open>r\<close> bytes are left.\<close>

definition in_body :: "http \<Rightarrow> nat \<Rightarrow> string \<Rightarrow> string list \<Rightarrow> bool" where
  "in_body st r u bss \<longleftrightarrow> (\<exists>pre post. buffered st pre u post) \<and> m_buf st \<noteq> [] \<and> \<not> x_killed st \<and> x_in st = map Bytes bss \<and>
     [] \<notin> set bss \<and> m_phase st = (if r = 0 then DONE else BODY) \<and> \<not> m_chunkedBody st \<and> 0 < m_contentLength st \<and> m_bodyRemaining st = r"

lemma counted_body_step:
  assumes "in_body st r u bss" "0 < r" "r \<le> length (u @ concat bss)"
  obtains st1 k u1 bss1 where "counted_body st = (True, st1)" "chunk_text st1 (m_chunk st1) = take k (u @ concat bss)" "0 < k" "k \<le> r"
    "in_body st1 (r - k) u1 bss1" "u1 @ concat bss1 = drop k (u @ concat bss)"
proof -
  have "\<exists>st0 u0 bss0. have_data st = (True, st0) \<and> u0 \<noteq> [] \<and> in_body st0 r u0 bss0 \<and> u0 @ concat bss0 = u @ concat bss"
  proof (cases "u = []")
    case False
    then show ?thesis using assms(1) by (intro exI [of _ st] exI [of _ u] exI [of _ bss]) (auto simp: have_data_def in_body_def buffered_def)
  next
    case True
    then obtain bs bss' where bss: "bss = bs # bss'" "bs \<noteq> []" using assms by (cases bss) (auto simp: in_body_def)
    obtain pre post where b: "buffered st pre [] post" using assms(1) True by (auto simp: in_body_def)
    have p: "\<not> x_killed st" "x_in st = map Bytes (bs # bss')" "m_buf st \<noteq> []" "[] \<notin> set bss'" using assms(1) bss by (auto simp: in_body_def)
    obtain st1 u1 post1 bss1 where r: "hRecvMore (hCompact st) = (True, st1)" "rebuf st1 st = st1" "buffered st1 [] u1 post1" "u1 \<noteq> []"
      "u1 = take (length (m_buf st)) bs" "\<not> x_killed st1" "length (m_buf st1) = length (m_buf st)" "x_in st1 = map Bytes bss1"
      "[] \<notin> set bss1" "u1 @ concat bss1 = bs @ concat bss'"
      by (rule recv_when_empty [OF b p(1,2) bss(2) p(3,4)])
    have "m_buf st1 \<noteq> []" using r(7) p(3) by auto
    then have "in_body st1 r u1 bss1" using r(3,6,8,9) assms(1) unfolding in_body_def rebuf_fields(3-6) [OF r(2)] by blast
    then show ?thesis using r(1,4,10) b True bss by (intro exI [of _ st1] exI [of _ u1] exI [of _ bss1]) (auto simp: have_data_def buffered_def)
  qed
  then obtain st0 u0 bss0 where h: "have_data st = (True, st0)" and u0: "u0 \<noteq> []" "in_body st0 r u0 bss0" "u0 @ concat bss0 = u @ concat bss" by blast
  obtain pre post where b: "buffered st0 pre u0 post" using u0(2) by (auto simp: in_body_def)
  define k where "k = min (length u0) r"
  have k: "0 < k" "k \<le> r" "k \<le> length u0" using u0(1) assms(2) by (auto simp: k_def)
  have cut: "take k (u @ concat bss) = take k u0" "drop k (u @ concat bss) = drop k u0 @ concat bss0"
    using k(3) u0(3) [symmetric] by simp_all
  let ?st1 = "st0\<lparr>m_chunk := \<lparr>c_data = length pre, c_size = k, c_complete = (r - k = 0)\<rparr>, m_bodyRemaining := r - k,
      m_parsePos := length pre + k, m_phase := (if r - k = 0 then DONE else m_phase st0)\<rparr>"
  have st1: "counted_body st = (True, ?st1)"
    using b u0(2) by (simp add: counted_body_def h Let_def buffered_def in_body_def k_def)
  have "buffered ?st1 (pre @ take k u0) (drop k u0) post" using b k(3) by (simp add: buffered_def)
  then have "\<exists>pre post. buffered ?st1 pre (drop k u0) post" by blast
  then have "in_body ?st1 (r - k) (drop k u0) bss0" using u0(2) assms(2) unfolding in_body_def by simp
  moreover have "chunk_text ?st1 (m_chunk ?st1) = take k u0" using b k(3) by (simp add: chunk_text_def view_text_def buffered_def)
  ultimately show thesis using that [OF st1, of k "drop k u0" bss0] k cut by simp
qed

lemma read_body_counted:
  assumes "in_body st r u bss" "r \<le> length (u @ concat bss)"
  shows "\<exists>st1 u1 bss1. read_body st = Some (take r (u @ concat bss), st1) \<and> in_body st1 0 u1 bss1 \<and> u1 @ concat bss1 = drop r (u @ concat bss)"
  using assms
proof (induction r arbitrary: st u bss rule: less_induct)
  case (less r)
  show ?case
  proof (cases "r = 0")
    case True
    then have "ReadBody st = Some (False, st)"
      using less.prems by (simp add: ReadBody_def in_phase_def phase_order ReadBody_at_def in_body_def)
    then show ?thesis using True less.prems by (intro exI [of _ st] exI [of _ u] exI [of _ bss]) (simp add: read_body.simps [of st])
  next
    case False
    then have r: "0 < r" by simp
    from counted_body_step [OF less.prems(1) r less.prems(2)] obtain st1 k u1 bss1 where c: "counted_body st = (True, st1)"
      "chunk_text st1 (m_chunk st1) = take k (u @ concat bss)" "0 < k" "k \<le> r" "in_body st1 (r - k) u1 bss1"
      "u1 @ concat bss1 = drop k (u @ concat bss)" .
    have rb: "ReadBody st = Some (True, st1)"
      using c(1) less.prems(1) r by (simp add: ReadBody_def in_phase_def phase_order ReadBody_at_def in_body_def)
    have "r - k < r" "r - k \<le> length (u1 @ concat bss1)" using c(3,4,6) r less.prems(2) by simp_all
    from less.IH [OF this(1) c(5) this(2)] obtain st2 u2 bss2 where
      n: "read_body st1 = Some (take (r - k) (u1 @ concat bss1), st2)" "in_body st2 0 u2 bss2" "u2 @ concat bss2 = drop (r - k) (u1 @ concat bss1)" by auto
    have "take k (u @ concat bss) @ take (r - k) (drop k (u @ concat bss)) = take r (u @ concat bss)"
      using c(4) by (metis le_add_diff_inverse take_add)
    moreover have "drop (r - k) (drop k (u @ concat bss)) = drop r (u @ concat bss)" using c(4) by (simp only: drop_drop le_add_diff_inverse2)
    ultimately show ?thesis
      using rb n c by (intro exI [of _ st2] exI [of _ u2] exI [of _ bss2]) (simp add: read_body.simps [of st])
  qed
qed

section \<open>Reading a request\<close>

lemma GetRequestLine_receives:
  assumes "buffered st pre [] post" "hRecvMore (hCompact (st\<lparr>m_requestLineParsed := True\<rparr>)) = (True, st1)" "\<not> m_requestLineParsed st"
  shows "GetRequestLine st = GetRequestLine (st1\<lparr>m_requestLineParsed := False\<rparr>)"
proof -
  let ?st = "st\<lparr>m_requestLineParsed := True\<rparr>"
  have "\<not> has_line ?st" using assms(1) by (simp add: has_line_def memchr_def buffered_def)
  then have loop: "request_line_loop ?st = request_line_loop st1" using assms(2) by (simp add: request_line_loop.simps [of ?st])
  have "m_requestLineParsed st1" using hRecvMore_fields(9) [OF assms(2)] by simp
  then have "st1 = st1\<lparr>m_requestLineParsed := False, m_requestLineParsed := True\<rparr>" by (cases st1) simp
  then show ?thesis using assms(3) loop by (simp add: GetRequestLine_def)
qed

lemma NextHeaderName_from_args:
  assumes "m_phase st = ARGS" "m_phase (SkipToHeaders st) = HEADERS"
  shows "read_headers st = read_headers (SkipToHeaders st)"
proof -
  have "AdvanceToPhase HEADERS st = Some (True, SkipToHeaders st)"
    using assms by (simp add: AdvanceToPhase.simps [of HEADERS st] AdvanceToPhase.simps [of HEADERS "SkipToHeaders st"] SkipArgs_at_def phase_order)
  then have "NextHeaderName st = NextHeaderName (SkipToHeaders st)"
    using assms by (simp add: NextHeaderName_def in_phase_def phase_order)
  then show ?thesis by (simp add: read_headers.simps [of st] read_headers.simps [of "SkipToHeaders st"])
qed

fun received_bytes :: "received \<Rightarrow> string" where
  "received_bytes (Bytes bs) = bs"
| "received_bytes RecvFail = []"
| "received_bytes RecvKilled = []"

text \<open>The bytes no call has read yet: those in the buffer and those to come.\<close>

definition unread_bytes :: "http \<Rightarrow> string" where
  "unread_bytes st = drop (m_parsePos st) (take (m_bufLen st) (m_buf st)) @ concat (map received_bytes (x_in st))"

lemma unread_bytes_buffered: "buffered st pre u post \<Longrightarrow> x_in st = map Bytes bss \<Longrightarrow> unread_bytes st = u @ concat bss"
  by (simp add: unread_bytes_def buffered_def comp_def)

text \<open>The state behind the request line, before the first header.\<close>

definition behind_line :: "http \<Rightarrow> nat \<Rightarrow> string \<Rightarrow> string \<Rightarrow> string list \<Rightarrow> bool" where
  "behind_line st n u post bss \<longleftrightarrow> (\<exists>pre xs. buffered st pre (xs @ CHR 0x0A # u) post \<and> CHR 0x0A \<notin> set xs) \<and> m_phase st = ARGS \<and>
     \<not> m_pendingContentLength st \<and> \<not> m_pendingTransferEncoding st \<and> \<not> m_pendingConnection st \<and>
     framed st = (- 1, False, False) \<and> untouched st = (map Bytes bss, False, 0, False, n)"

lemma line_read:
  assumes q: "ok_request q" and b: "buffered st [] (request_line q @ CHR 0x0D # CHR 0x0A # tail) post"
    and new: "rebuf st (http_new n m ins outs) = st" and st: "x_in st = map Bytes bss" "\<not> x_killed st" "length (m_buf st) = n"
  obtains st1 where "GetRequestLine st = (True, st1)" "view_text st1 (rl_method (m_requestLine st1)) = q_method q"
    "view_text st1 (rl_path (m_requestLine st1)) = q_path q" "behind_line st1 n tail post bss"
proof -
  let ?sp = "length (q_method q)" and ?query = "hd (q_rest q) = CHR ''?''"
  let ?st1 = "st\<lparr>m_requestLineParsed := True, m_requestLine := \<lparr>rl_method = (0, ?sp), rl_path = (?sp + 1, length (q_path q))\<rparr>,
    m_parsePos := ?sp + 1 + length (q_path q) + (if ?query then 1 else 0), m_phase := ARGS\<rparr>"
  note f = rebuf_fields [OF new]
  have line: "GetRequestLine st = (True, ?st1)" using GetRequestLine_reads [OF b q] f by (simp add: http_new_def)
  have views: "view_text ?st1 (rl_method (m_requestLine ?st1)) = q_method q" "view_text ?st1 (rl_path (m_requestLine ?st1)) = q_path q"
    using b by (simp_all add: view_text_def buffered_def request_line_def)
  define pre where "pre = q_method q @ CHR '' '' # q_path q @ (if ?query then [CHR ''?''] else [])"
  define rest where "rest = (if ?query then tl (q_rest q) else q_rest q)"
  have rq: "request_line q = pre @ rest" using q by (cases "q_rest q") (auto simp: request_line_def pre_def rest_def ok_request_def)
  have "buffered ?st1 pre ((rest @ [CHR 0x0D]) @ CHR 0x0A # tail) post" using b unfolding rq by (simp add: buffered_def pre_def)
  moreover have "CHR 0x0A \<notin> set (rest @ [CHR 0x0D])" using q by (cases "q_rest q") (auto simp: rest_def ok_request_def)
  ultimately have "\<exists>pre xs. buffered ?st1 pre (xs @ CHR 0x0A # tail) post \<and> CHR 0x0A \<notin> set xs" by blast
  then have "behind_line ?st1 n tail post bss" using f st unfolding behind_line_def by (simp add: framed_def untouched_def http_new_def)
  with line views show thesis by (rule that)
qed

lemma headers_read:
  assumes "behind_line st n (concat (map field_bytes fs) @ CHR 0x0D # CHR 0x0A # u) post bss" "\<forall>f \<in> set fs. ok_field f"
  obtains st1 pre where "read_headers st = Some (map (\<lambda>(name, k, val). (name, val)) fs, st1)" "buffered st1 pre u post" "m_phase st1 = BODY"
    "framed st1 = framing fs" "untouched st1 = (map Bytes bss, False, 0, False, n)"
proof -
  let ?fs = "concat (map field_bytes fs) @ CHR 0x0D # CHR 0x0A # u"
  obtain pre xs where b: "buffered st pre (xs @ CHR 0x0A # ?fs) post" "CHR 0x0A \<notin> set xs" using assms(1) by (auto simp: behind_line_def)
  note skip = SkipToHeaders_reads [OF b]
  have "at_headers (SkipToHeaders st) (pre @ xs @ [CHR 0x0A]) ?fs post"
    using assms(1) b unfolding skip by (simp add: at_headers_def buffered_def behind_line_def)
  from read_headers_fields [OF this assms(2)] obtain st1 pre1 where h: "read_headers (SkipToHeaders st) = Some (map (\<lambda>(name, k, val). (name, val)) fs, st1)"
    "buffered st1 pre1 u post" "m_phase st1 = BODY" "framed st1 = fold frame_field fs (framed (SkipToHeaders st))"
    "untouched st1 = untouched (SkipToHeaders st)" by blast
  have "m_phase st = ARGS" "m_phase (SkipToHeaders st) = HEADERS" using assms(1) by (simp_all add: behind_line_def skip)
  from NextHeaderName_from_args [OF this] have "read_headers st = read_headers (SkipToHeaders st)" .
  moreover have "framed (SkipToHeaders st) = (- 1, False, False)" "untouched (SkipToHeaders st) = (map Bytes bss, False, 0, False, n)"
    using assms(1) unfolding skip by (simp_all add: behind_line_def framed_def untouched_def)
  ultimately show thesis using that [of st1 pre1] h by (simp add: framing_def)
qed

text \<open>The head: the line and the headers, when the first receive brings all of it.\<close>

lemma head_read:
  assumes q: "ok_request q" and n: "length (head_bytes q) \<le> n" and bss: "[] \<notin> set bss"
  obtains st1 st2 pre u post bss1 where "GetRequestLine (http_new n m (map Bytes ((head_bytes q @ b) # bss)) outs) = (True, st1)"
    "view_text st1 (rl_method (m_requestLine st1)) = q_method q" "view_text st1 (rl_path (m_requestLine st1)) = q_path q"
    "read_headers st1 = Some (map (\<lambda>(name, k, val). (name, val)) (q_fields q), st2)" "buffered st2 pre u post" "m_phase st2 = BODY"
    "framed st2 = framing (q_fields q)" "untouched st2 = (map Bytes bss1, False, 0, False, n)" "[] \<notin> set bss1" "u @ concat bss1 = b @ concat bss"
proof -
  let ?new = "http_new n m (map Bytes ((head_bytes q @ b) # bss)) outs"
  have "head_bytes q \<noteq> []" by (simp add: head_bytes_def)
  then have n0: "0 < n" using n by (cases "head_bytes q") auto
  have e: "buffered (?new\<lparr>m_requestLineParsed := True\<rparr>) [] [] (replicate n (CHR 0x00))" by (simp add: buffered_def http_new_def)
  obtain st1 v post bss1 where r: "hRecvMore (hCompact (?new\<lparr>m_requestLineParsed := True\<rparr>)) = (True, st1)"
    "rebuf st1 (?new\<lparr>m_requestLineParsed := True\<rparr>) = st1" "buffered st1 [] v post" "v \<noteq> []" "v = take n (head_bytes q @ b)"
    "\<not> x_killed st1" "length (m_buf st1) = n" "x_in st1 = map Bytes bss1" "[] \<notin> set bss1" "v @ concat bss1 = (head_bytes q @ b) @ concat bss"
    by (rule recv_when_empty [OF e, of "head_bytes q @ b" bss]) (use n0 bss \<open>head_bytes q \<noteq> []\<close> in \<open>auto simp: http_new_def\<close>)
  define u where "u = take (n - length (head_bytes q)) b"
  have v: "v = head_bytes q @ u" using r(5) n by (simp add: u_def)
  let ?st = "st1\<lparr>m_requestLineParsed := False\<rparr>"
  have b0: "buffered ?st [] (request_line q @ CHR 0x0D # CHR 0x0A # concat (map field_bytes (q_fields q)) @ CHR 0x0D # CHR 0x0A # u) post"
    using r(3) v by (simp add: buffered_def head_bytes_def)
  have "rebuf ?st ?new = ?st" by (subst (2) r(2) [symmetric]) (simp add: rebuf_def http_new_def)
  from line_read [OF q b0 this] r(6,7,8) obtain st2 where l: "GetRequestLine ?st = (True, st2)"
    "view_text st2 (rl_method (m_requestLine st2)) = q_method q" "view_text st2 (rl_path (m_requestLine st2)) = q_path q"
    "behind_line st2 n (concat (map field_bytes (q_fields q)) @ CHR 0x0D # CHR 0x0A # u) post bss1" by auto
  have line: "GetRequestLine ?new = (True, st2)"
    using GetRequestLine_receives [OF _ r(1)] l(1) by (auto simp: buffered_def http_new_def)
  have "\<forall>f \<in> set (q_fields q). ok_field f" using q by (simp add: ok_request_def)
  from headers_read [OF l(4) this] obtain st3 pre where h: "read_headers st2 = Some (map (\<lambda>(name, k, val). (name, val)) (q_fields q), st3)"
    "buffered st3 pre u post" "m_phase st3 = BODY" "framed st3 = framing (q_fields q)" "untouched st3 = (map Bytes bss1, False, 0, False, n)" .
  have "u @ concat bss1 = b @ concat bss" using r(10) v by simp
  with line l(2,3) h r(9) show thesis by (rule that)
qed

lemma body_read:
  assumes b: "buffered st pre u post" and "m_phase st = BODY" "framed st = (len, False, close)" "untouched st = (map Bytes bss, False, 0, False, n)"
    "[] \<notin> set bss" "0 < n" "nat len \<le> length (u @ concat bss)"
  shows "\<exists>st1. read_body st = Some (take (nat len) (u @ concat bss), st1) \<and> m_phase st1 = DONE \<and> unread_bytes st1 = drop (nat len) (u @ concat bss)"
proof (cases "len \<le> 0")
  case True
  let ?st1 = "st\<lparr>m_phase := DONE\<rparr>"
  have "ReadBody st = Some (False, ?st1)"
    using assms True by (simp add: ReadBody_def in_phase_def phase_order ReadBody_at_def framed_def)
  then have "read_body st = Some ([], ?st1)" by (simp add: read_body.simps [of st])
  moreover have "unread_bytes ?st1 = u @ concat bss"
    using assms by (intro unread_bytes_buffered) (auto simp: buffered_def untouched_def)
  ultimately show ?thesis using True by simp
next
  case False
  let ?st = "st\<lparr>m_bodyRemaining := nat len\<rparr>"
  have "ReadBody st = ReadBody ?st"
    using assms False by (simp add: ReadBody_def in_phase_def phase_order ReadBody_at_def framed_def untouched_def)
  then have eq: "read_body st = read_body ?st" by (simp add: read_body.simps [of st] read_body.simps [of ?st])
  have "\<exists>pre post. buffered ?st pre u post" using b by (auto simp: buffered_def)
  then have "in_body ?st (nat len) u bss" using assms False unfolding in_body_def by (auto simp: framed_def untouched_def)
  from read_body_counted [OF this assms(7)] obtain st1 u1 bss1 where
    "read_body ?st = Some (take (nat len) (u @ concat bss), st1)" "in_body st1 0 u1 bss1" "u1 @ concat bss1 = drop (nat len) (u @ concat bss)" by blast
  then show ?thesis using eq unread_bytes_buffered [of st1 _ u1 _ bss1] by (auto simp: in_body_def)
qed


definition sample_post :: request where
  "sample_post = \<lparr>q_method = ''POST'', q_path = ''/a'', q_rest = ''?x=1 HTTP/1.1'',
     q_fields = [(''Host'', 1, ''b''), (''content-Length'', 0, ''3'')]\<rparr>"


end
