(* ===== verification/Http_Response.thy ===== *)
theory Http_Response
  imports Http_Connection "HOL-Library.Sublist"
begin

text \<open>
  The response side of the HTTP connection (\<open>coop/http/connection.cpp\<close>, \<open>coop/http/response_constants.h\<close>): the send
  buffer, the numbers and header blocks written through it, and the response calls. A failed debug assertion is \<open>None\<close>;
  the value of a call is whether it succeeded.

  The transport's sends are a list of results: everything was sent, or a failure after some bytes. The file behind
  \<open>Sendfile\<close> is an argument: the bytes it has from an offset on.
\<close>

section \<open>Constants\<close>

definition CRLF :: string where
  "CRLF = [CHR 0x0D, CHR 0x0A]"

definition CONTENT_TYPE :: string where
  "CONTENT_TYPE = ''Content-Type: ''"

definition CONTENT_LENGTH :: string where
  "CONTENT_LENGTH = CRLF @ ''Content-Length: ''"

definition TRANSFER_ENCODING_CHUNKED :: string where
  "TRANSFER_ENCODING_CHUNKED = ''Transfer-Encoding: chunked'' @ CRLF"

definition CONN_KEEP_ALIVE :: string where
  "CONN_KEEP_ALIVE = ''Connection: keep-alive'' @ CRLF @ CRLF"

definition CONN_CLOSE :: string where
  "CONN_CLOSE = ''Connection: close'' @ CRLF @ CRLF"

definition CHUNKED_TERMINATOR :: string where
  "CHUNKED_TERMINATOR = ''0'' @ CRLF @ CRLF"

definition status_text :: "int \<Rightarrow> string" where
  "status_text code =
     (if code = 200 then ''200 OK'' else if code = 201 then ''201 Created'' else if code = 204 then ''204 No Content''
      else if code = 301 then ''301 Moved Permanently'' else if code = 302 then ''302 Found''
      else if code = 304 then ''304 Not Modified'' else if code = 400 then ''400 Bad Request''
      else if code = 401 then ''401 Unauthorized'' else if code = 403 then ''403 Forbidden''
      else if code = 404 then ''404 Not Found'' else if code = 405 then ''405 Method Not Allowed''
      else if code = 408 then ''408 Request Timeout'' else if code = 413 then ''413 Payload Too Large''
      else if code = 500 then ''500 Internal Server Error'' else if code = 502 then ''502 Bad Gateway''
      else if code = 503 then ''503 Service Unavailable'' else ''0 Unknown'')"

definition StatusLine :: "int \<Rightarrow> string" where
  "StatusLine code = ''HTTP/1.1 '' @ status_text code @ CRLF"

section \<open>The send buffer\<close>

text \<open>The result of \<open>SendAll\<close> is an \<open>int\<close>: the number of bytes when all were sent.\<close>

definition hTransportSendAll :: "string \<Rightarrow> http \<Rightarrow> int \<times> http" where
  "hTransportSendAll bs st = (case x_sends st of
       SendFailed k # r \<Rightarrow> (- 1, st\<lparr>x_wire := x_wire st @ take k bs, x_sends := r\<rparr>)
     | r \<Rightarrow> (signed_take_bit 31 (int (length bs)), st\<lparr>x_wire := x_wire st @ bs, x_sends := drop 1 r\<rparr>))"

definition SendRaw :: "string \<Rightarrow> http \<Rightarrow> (bool \<times> http) option" where
  "SendRaw data st = do {
     assert_that (\<not> m_sendError st);
     let (result, st1) = hTransportSendAll data st;
     Some (if result \<le> 0 \<or> nat result \<noteq> length data then (False, st1\<lparr>m_sendError := True\<rparr>) else (True, st1)) }"

definition hFlush :: "http \<Rightarrow> (bool \<times> http) option" where
  "hFlush st =
     (if m_sendError st then Some (False, st)
      else if m_sendLen st = 0 then Some (True, st)
      else do {
        (ok, st1) \<leftarrow> SendRaw (take (m_sendLen st) (m_sendBuf st)) st;
        Some (ok, st1\<lparr>m_sendLen := 0\<rparr>) })"

text \<open>Statements of the form \<open>if (!f()) return false;\<close> in sequence.\<close>

type_synonym writer = "http \<Rightarrow> (bool \<times> http) option"

fun all_of :: "writer list \<Rightarrow> writer" where
  "all_of [] st = Some (True, st)"
| "all_of (f # fs) st = do { (ok, st1) \<leftarrow> f st; (if ok then all_of fs st1 else Some (False, st1)) }"

definition copy_in :: "string \<Rightarrow> writer" where
  "copy_in data st = Some (True, st\<lparr>m_sendBuf := memcpy (m_sendBuf st) (m_sendLen st) data, m_sendLen := m_sendLen st + length data\<rparr>)"

definition hAppend :: "string \<Rightarrow> writer" where
  "hAppend data st =
     (if m_sendError st then Some (False, st)
      else if length data > length (m_sendBuf st) then all_of [hFlush, SendRaw data] st
      else if m_sendLen st + length data > length (m_sendBuf st) then all_of [hFlush, copy_in data] st
      else copy_in data st)"

text \<open>The digits are written from the right into a small array.\<close>

function put_decimal :: "nat \<Rightarrow> string \<Rightarrow> string" where
  "put_decimal val tmp = (if val > 0 then put_decimal (val div 10) (char_of (48 + val mod 10) # tmp) else tmp)"
  by pat_completeness auto
termination by (relation "measure fst") auto

declare put_decimal.simps [simp del]

definition AppendUInt :: "nat \<Rightarrow> writer" where
  "AppendUInt val = hAppend (if val = 0 then ''0'' else put_decimal val [])"

definition HEX :: string where
  "HEX = ''0123456789abcdef''"

function put_hex :: "nat \<Rightarrow> string \<Rightarrow> string" where
  "put_hex val tmp = (if val > 0 then put_hex (val div 16) (HEX ! (val mod 16) # tmp) else tmp)"
  by pat_completeness auto
termination by (relation "measure fst") auto

declare put_hex.simps [simp del]

definition hex_text :: "nat \<Rightarrow> string" where
  "hex_text val = (if val = 0 then ''0'' else put_hex val [])"

definition AppendHex :: "nat \<Rightarrow> writer" where
  "AppendHex val = hAppend (hex_text val)"

definition AppendLiteral :: "string \<Rightarrow> writer" where
  "AppendLiteral s = hAppend s"

definition AppendConnectionTrailer :: writer where
  "AppendConnectionTrailer st =
     (if m_keepAlive st \<and> \<not> m_clientClose st then AppendLiteral CONN_KEEP_ALIVE st else AppendLiteral CONN_CLOSE st)"

section \<open>Responses\<close>

definition response_head :: "int \<Rightarrow> string \<Rightarrow> nat \<Rightarrow> writer list" where
  "response_head status contentType contentLength =
     [hAppend (StatusLine status), AppendLiteral CONTENT_TYPE, hAppend contentType, AppendLiteral CONTENT_LENGTH,
      AppendUInt contentLength, AppendLiteral CRLF, AppendConnectionTrailer]"

definition SendHeaders :: "int \<Rightarrow> string \<Rightarrow> nat \<Rightarrow> writer" where
  "SendHeaders status contentType contentLength st = do {
     assert_that (\<not> m_sendError st);
     all_of (response_head status contentType contentLength @ [hFlush]) st }"

text \<open>The end of \<open>Send\<close>: a small body goes out with the headers, a large one by itself.\<close>

definition send_body :: "string \<Rightarrow> writer" where
  "send_body body st =
     (if length body = 0 then hFlush st
      else if m_sendLen st + length body \<le> length (m_sendBuf st) then all_of [hAppend body, hFlush] st
      else all_of [hFlush, SendRaw body] st)"

definition hSend :: "int \<Rightarrow> string \<Rightarrow> string \<Rightarrow> writer" where
  "hSend status contentType body st = do {
     assert_that (\<not> m_sendError st);
     all_of (response_head status contentType (length body) @ [send_body body]) st }"

definition BeginChunked :: "int \<Rightarrow> string \<Rightarrow> writer" where
  "BeginChunked status contentType st = do {
     assert_that (\<not> m_sendError st);
     Some (True, st\<lparr>m_chunkedHeadersPending := True, m_chunkedStatus := status, m_chunkedContentType := contentType\<rparr>) }"

definition chunked_headers :: writer where
  "chunked_headers st =
     (if m_chunkedHeadersPending st then
        all_of [hAppend (StatusLine (m_chunkedStatus st)), AppendLiteral CONTENT_TYPE, hAppend (m_chunkedContentType st),
          AppendLiteral CRLF, AppendLiteral TRANSFER_ENCODING_CHUNKED, AppendConnectionTrailer] (st\<lparr>m_chunkedHeadersPending := False\<rparr>)
      else Some (True, st))"

definition SendChunk :: "string \<Rightarrow> writer" where
  "SendChunk data st = do {
     assert_that (\<not> m_sendError st);
     (if length data = 0 then Some (False, st)
      else all_of [chunked_headers, AppendHex (length data), AppendLiteral CRLF, hAppend data, AppendLiteral CRLF, hFlush] st) }"

definition EndChunked :: writer where
  "EndChunked st = do {
     assert_that (\<not> m_sendError st);
     all_of [chunked_headers, AppendLiteral CHUNKED_TERMINATOR, hFlush] st }"

definition EndChunked_last :: "string \<Rightarrow> writer" where
  "EndChunked_last data st = do {
     assert_that (\<not> m_sendError st);
     (if length data = 0 then EndChunked st
      else all_of [chunked_headers, AppendHex (length data), AppendLiteral CRLF, hAppend data, AppendLiteral CRLF,
        AppendLiteral CHUNKED_TERMINATOR, hFlush] st) }"

definition send_file :: "nat \<Rightarrow> string \<Rightarrow> writer" where
  "send_file n bytes st =
     (let (result, st1) = hTransportSendAll bytes st
      in Some (if result \<le> 0 \<or> nat result \<noteq> n then (False, st1\<lparr>m_sendError := True\<rparr>) else (True, st1)))"

definition Sendfile :: "(nat \<Rightarrow> nat \<Rightarrow> string) \<Rightarrow> nat \<Rightarrow> nat \<Rightarrow> writer" where
  "Sendfile file_bytes offset n st = do {
     assert_that (\<not> m_sendError st);
     all_of [hFlush, send_file n (file_bytes offset n)] st }"

definition SendRawBytes :: "string \<Rightarrow> writer" where
  "SendRawBytes data st = all_of [hFlush, SendRaw data] st"

section \<open>What the writers deliver\<close>

text \<open>The bytes accepted so far: those on the wire and those in the send buffer. The abstract state is whether the
  connection stays open and the chunked header block still to be written.\<close>

definition accepted :: "http \<Rightarrow> string" where
  "accepted st = x_wire st @ take (m_sendLen st) (m_sendBuf st)"

type_synonym resp_state = "bool \<times> (int \<times> string) option"

definition resp_of :: "http \<Rightarrow> resp_state" where
  "resp_of st = (m_keepAlive st \<and> \<not> m_clientClose st,
     if m_chunkedHeadersPending st then Some (m_chunkedStatus st, m_chunkedContentType st) else None)"

definition ready :: "http \<Rightarrow> bool" where
  "ready st \<longleftrightarrow> \<not> m_sendError st \<and> m_sendLen st \<le> length (m_sendBuf st) \<and> length (m_sendBuf st) < 2 ^ 31"

definition all_sent :: "http \<Rightarrow> bool" where
  "all_sent st \<longleftrightarrow> set (x_sends st) \<subseteq> {Sent}"

text \<open>A call meant to deliver \<open>bs\<close> succeeds with exactly these bytes accepted, or fails with an error recorded and a prefix
  on the wire; it succeeds when every send does.\<close>

definition outcome :: "http \<Rightarrow> resp_state \<Rightarrow> string \<Rightarrow> (bool \<times> http) option \<Rightarrow> bool" where
  "outcome st a bs r \<longleftrightarrow> (\<exists>ok st1. r = Some (ok, st1) \<and> (all_sent st \<longrightarrow> ok \<and> all_sent st1) \<and>
     (ok \<longrightarrow> ready st1 \<and> resp_of st1 = a \<and> accepted st1 = accepted st @ bs) \<and>
     (\<not> ok \<longrightarrow> m_sendError st1 \<and> prefix (x_wire st1) (accepted st @ bs)))"

lemma outcome_cases:
  assumes "outcome st a bs r"
  obtains (ok) st1 where "r = Some (True, st1)" "ready st1" "resp_of st1 = a" "accepted st1 = accepted st @ bs" "all_sent st \<Longrightarrow> all_sent st1"
    | (failed) st1 where "r = Some (False, st1)" "\<not> all_sent st" "m_sendError st1" "prefix (x_wire st1) (accepted st @ bs)"
  using assms unfolding outcome_def by metis

lemma outcome_skip: "ready st \<Longrightarrow> outcome st (resp_of st) [] (Some (True, st))"
  by (auto simp: outcome_def)

lemma outcome_all_of:
  assumes f: "outcome st a bs (f st)"
    and fs: "\<And>st1. f st = Some (True, st1) \<Longrightarrow> ready st1 \<Longrightarrow> resp_of st1 = a \<Longrightarrow> outcome st1 a' cs (all_of fs st1)"
  shows "outcome st a' (bs @ cs) (all_of (f # fs) st)"
  using f
proof (cases rule: outcome_cases)
  case (ok st1)
  from fs [OF ok(1,2,3)] show ?thesis
    by (cases rule: outcome_cases) (use ok in \<open>auto simp: outcome_def\<close>)
next
  case (failed st1)
  then show ?thesis using prefix_order.trans [of "x_wire st1" "accepted st @ bs" "accepted st @ bs @ cs"] by (auto simp: outcome_def)
qed

lemma SendRaw_outcome:
  assumes "ready st" "m_sendLen st = 0" "data \<noteq> []" "length data < 2 ^ 31"
  shows "outcome st (resp_of st) data (SendRaw data st)" "SendRaw data st = Some (True, st1) \<Longrightarrow> m_sendLen st1 = 0"
proof -
  have n: "signed_take_bit 31 (int (length data)) = int (length data)" using assms(4) by (intro signed_take_bit_int_eq_self) auto
  show "outcome st (resp_of st) data (SendRaw data st)"
  proof (cases "\<exists>k r. x_sends st = SendFailed k # r")
    case True
    then obtain k r where "x_sends st = SendFailed k # r" by blast
    then show ?thesis using assms
      by (auto simp: SendRaw_def hTransportSendAll_def outcome_def ready_def accepted_def all_sent_def take_is_prefix)
  next
    case False
    then have "hTransportSendAll data st = (int (length data), st\<lparr>x_wire := x_wire st @ data, x_sends := drop 1 (x_sends st)\<rparr>)"
      using n by (auto simp: hTransportSendAll_def split: list.splits sent.splits)
    then show ?thesis using assms
      by (auto simp: SendRaw_def outcome_def ready_def accepted_def all_sent_def resp_of_def dest: in_set_dropD)
  qed
  show "SendRaw data st = Some (True, st1) \<Longrightarrow> m_sendLen st1 = 0"
    using assms by (auto simp: SendRaw_def hTransportSendAll_def ready_def split: list.splits sent.splits if_splits)
qed

lemma all_of_one [simp]: "all_of [f] st = f st"
  by (cases "f st") auto

lemma hTransportSendAll_frame [simp]:
  "m_sendBuf (snd (hTransportSendAll bs st)) = m_sendBuf st" "m_sendLen (snd (hTransportSendAll bs st)) = m_sendLen st"
  by (simp_all add: hTransportSendAll_def split: list.splits sent.splits)

lemma SendRaw_frame: "SendRaw bs st = Some (ok, st1) \<Longrightarrow> m_sendBuf st1 = m_sendBuf st \<and> m_sendLen st1 = m_sendLen st"
  using hTransportSendAll_frame [of bs st]
  by (cases "hTransportSendAll bs st") (auto simp: SendRaw_def assert_that_def split: if_splits)

lemma SendRaw_sendLen: "SendRaw bs (st\<lparr>m_sendLen := n\<rparr>) = map_option (\<lambda>(ok, st1). (ok, st1\<lparr>m_sendLen := n\<rparr>)) (SendRaw bs st)"
proof -
  obtain k st1 where t: "hTransportSendAll bs st = (k, st1)" by fastforce
  then have "hTransportSendAll bs (st\<lparr>m_sendLen := n\<rparr>) = (k, st1\<lparr>m_sendLen := n\<rparr>)"
    by (cases "x_sends st" rule: list.exhaust [case_names Nil Cons]; cases "hd (x_sends st)") (auto simp: hTransportSendAll_def)
  then show ?thesis using t by (cases "m_sendError st") (auto simp: SendRaw_def)
qed

lemma resp_of_sendLen [simp]: "resp_of (st\<lparr>m_sendLen := n\<rparr>) = resp_of st"
  by (simp add: resp_of_def)

lemma hFlush_outcome:
  assumes "ready st"
  shows "outcome st (resp_of st) [] (hFlush st)" "hFlush st = Some (True, st1) \<Longrightarrow> m_sendLen st1 = 0"
proof -
  let ?bs = "take (m_sendLen st) (m_sendBuf st)" and ?st = "st\<lparr>m_sendLen := 0\<rparr>"
  have eq: "?st\<lparr>m_sendLen := m_sendLen st\<rparr> = st" by simp
  have step: "SendRaw ?bs st = map_option (\<lambda>(ok, st1). (ok, st1\<lparr>m_sendLen := m_sendLen st\<rparr>)) (SendRaw ?bs ?st)"
    using SendRaw_sendLen [where bs = ?bs and n = "m_sendLen st" and st = ?st] unfolding eq .
  show "outcome st (resp_of st) [] (hFlush st)"
  proof (cases "m_sendLen st = 0")
    case True
    then show ?thesis using assms outcome_skip [OF assms] by (simp add: hFlush_def ready_def)
  next
    case False
    have "ready ?st" "m_sendLen ?st = 0" "?bs \<noteq> []" "length ?bs < 2 ^ 31" using assms False by (auto simp: ready_def)
    from SendRaw_outcome(1) [OF this] have "outcome ?st (resp_of st) ?bs (SendRaw ?bs ?st)" by simp
    then show ?thesis
    proof (cases rule: outcome_cases)
      case (ok st1)
      then have z: "m_sendLen st1 = 0" using SendRaw_frame [OF ok(1)] by simp
      then have "st1\<lparr>m_sendLen := 0\<rparr> = st1" by (cases st1) simp
      then have "hFlush st = Some (True, st1)" using False ok(1) step assms by (simp add: hFlush_def ready_def)
      then show ?thesis using ok by (auto simp: outcome_def accepted_def all_sent_def)
    next
      case (failed st1)
      then have "hFlush st = Some (False, st1\<lparr>m_sendLen := 0\<rparr>)" using False step assms by (simp add: hFlush_def ready_def)
      then show ?thesis using failed by (auto simp: outcome_def accepted_def all_sent_def)
    qed
  qed
  show "hFlush st = Some (True, st1) \<Longrightarrow> m_sendLen st1 = 0"
    using assms by (auto simp: hFlush_def bind_eq_Some_conv split: if_splits)
qed

lemma copy_in_outcome:
  assumes "ready st" "m_sendLen st + length data \<le> length (m_sendBuf st)"
  shows "outcome st (resp_of st) data (copy_in data st)"
  using assms memcpy_at [of "m_sendLen st" data "m_sendBuf st"]
  by (auto simp: outcome_def copy_in_def ready_def resp_of_def accepted_def all_sent_def)

lemma flush_then:
  assumes "ready st" and "\<And>st1. ready st1 \<Longrightarrow> m_sendLen st1 = 0 \<Longrightarrow> length (m_sendBuf st1) = length (m_sendBuf st) \<Longrightarrow> outcome st1 (resp_of st1) bs (f st1)"
  shows "outcome st (resp_of st) bs (all_of [hFlush, f] st)"
proof -
  have len: "length (m_sendBuf st1) = length (m_sendBuf st)" if "hFlush st = Some (True, st1)" for st1
    using that SendRaw_frame by (auto simp: hFlush_def bind_eq_Some_conv split: if_splits)
  have "outcome st (resp_of st) ([] @ bs) (all_of [hFlush, f] st)"
  proof (rule outcome_all_of [where f = hFlush and a = "resp_of st"])
    show "outcome st (resp_of st) [] (hFlush st)" by (rule hFlush_outcome(1) [OF assms(1)])
    fix st1 assume h: "hFlush st = Some (True, st1)" "ready st1" "resp_of st1 = resp_of st"
    have "outcome st1 (resp_of st) (bs @ []) (all_of [f] st1)"
      using assms(2) [OF h(2) hFlush_outcome(2) [OF assms(1) h(1)] len [OF h(1)]] h(3) by (simp only: all_of_one append_Nil2)
    then show "outcome st1 (resp_of st) bs (all_of [f] st1)" by (simp only: append_Nil2)
  qed
  then show ?thesis by simp
qed

lemma hAppend_outcome:
  assumes "ready st" "length data < 2 ^ 31"
  shows "outcome st (resp_of st) data (hAppend data st)"
proof -
  consider "length data > length (m_sendBuf st)" | "length data \<le> length (m_sendBuf st)" "m_sendLen st + length data > length (m_sendBuf st)"
    | "m_sendLen st + length data \<le> length (m_sendBuf st)" by linarith
  then show ?thesis
  proof cases
    case 1
    then have "outcome st (resp_of st) data (all_of [hFlush, SendRaw data] st)"
      using assms by (intro flush_then SendRaw_outcome(1)) auto
    then show ?thesis using 1 assms by (simp add: hAppend_def ready_def)
  next
    case 2
    then have "outcome st (resp_of st) data (all_of [hFlush, copy_in data] st)"
      using assms by (intro flush_then copy_in_outcome) auto
    then show ?thesis using 2 assms by (simp add: hAppend_def ready_def)
  next
    case 3
    then show ?thesis using assms copy_in_outcome [of st data] by (simp add: hAppend_def ready_def)
  qed
qed

text \<open>A sequence of writers, each of which keeps the abstract state.\<close>

definition writes :: "resp_state \<Rightarrow> string \<Rightarrow> writer \<Rightarrow> bool" where
  "writes a bs f \<longleftrightarrow> (\<forall>st. ready st \<longrightarrow> resp_of st = a \<longrightarrow> outcome st a bs (f st))"

lemma writes_append: "length data < 2 ^ 31 \<Longrightarrow> writes a data (hAppend data)"
  using hAppend_outcome by (auto simp: writes_def)

lemma writes_flush: "writes a [] hFlush"
  using hFlush_outcome(1) by (auto simp: writes_def)

lemma all_of_writes:
  "list_all2 (writes a) bss fs \<Longrightarrow> ready st \<Longrightarrow> resp_of st = a \<Longrightarrow> outcome st a (concat bss) (all_of fs st)"
proof (induction bss fs arbitrary: st rule: list_all2_induct)
  case Nil
  then show ?case using outcome_skip by auto
next
  case (Cons bs bss f fs)
  have "outcome st a (bs @ concat bss) (all_of (f # fs) st)"
    by (rule outcome_all_of [where a = a]) (use Cons in \<open>auto simp: writes_def\<close>)
  then show ?case by simp
qed

lemma put_decimal_length: "val < 10 ^ k \<Longrightarrow> length (put_decimal val tmp) \<le> length tmp + k"
proof (induction k arbitrary: val tmp)
  case 0
  then show ?case by (simp add: put_decimal.simps [of 0])
next
  case (Suc k)
  then have "val div 10 < 10 ^ k" by (simp add: less_mult_imp_div_less)
  then show ?case using Suc.IH [of "val div 10" "char_of (48 + val mod 10) # tmp"] by (subst put_decimal.simps) (auto intro: le_trans)
qed

lemma put_hex_length: "val < 16 ^ k \<Longrightarrow> length (put_hex val tmp) \<le> length tmp + k"
proof (induction k arbitrary: val tmp)
  case 0
  then show ?case by (simp add: put_hex.simps [of 0])
next
  case (Suc k)
  then have "val div 16 < 16 ^ k" by (simp add: less_mult_imp_div_less)
  then show ?case using Suc.IH [of "val div 16" "HEX ! (val mod 16) # tmp"] by (subst put_hex.simps) (auto intro: le_trans)
qed

section \<open>Responses on the wire\<close>

datatype resp = Whole int string string | Headers int string nat | Begin int string | Piece string | End | End_last string
  | File nat nat | Raw string

fun resp_step :: "(nat \<Rightarrow> nat \<Rightarrow> string) \<Rightarrow> resp \<Rightarrow> writer" where
  "resp_step fb (Whole status ct body) = hSend status ct body"
| "resp_step fb (Headers status ct n) = SendHeaders status ct n"
| "resp_step fb (Begin status ct) = BeginChunked status ct"
| "resp_step fb (Piece data) = SendChunk data"
| "resp_step fb End = EndChunked"
| "resp_step fb (End_last data) = EndChunked_last data"
| "resp_step fb (File offset n) = Sendfile fb offset n"
| "resp_step fb (Raw data) = SendRawBytes data"

text \<open>The bytes each call stands for.\<close>

definition decimal_text :: "nat \<Rightarrow> string" where
  "decimal_text n = (if n = 0 then ''0'' else put_decimal n [])"

definition trailer_text :: "bool \<Rightarrow> string" where
  "trailer_text keep = (if keep then CONN_KEEP_ALIVE else CONN_CLOSE)"

definition head_text :: "bool \<Rightarrow> int \<Rightarrow> string \<Rightarrow> nat \<Rightarrow> string" where
  "head_text keep status ct n = StatusLine status @ CONTENT_TYPE @ ct @ CONTENT_LENGTH @ decimal_text n @ CRLF @ trailer_text keep"

fun chunk_head :: "resp_state \<Rightarrow> string" where
  "chunk_head (keep, None) = []"
| "chunk_head (keep, Some (status, ct)) = StatusLine status @ CONTENT_TYPE @ ct @ CRLF @ TRANSFER_ENCODING_CHUNKED @ trailer_text keep"

definition piece_text :: "string \<Rightarrow> string" where
  "piece_text data = hex_text (length data) @ CRLF @ data @ CRLF"

fun resp_text :: "(nat \<Rightarrow> nat \<Rightarrow> string) \<Rightarrow> resp \<Rightarrow> resp_state \<Rightarrow> string \<times> resp_state" where
  "resp_text fb (Whole status ct body) a = (head_text (fst a) status ct (length body) @ body, a)"
| "resp_text fb (Headers status ct n) a = (head_text (fst a) status ct n, a)"
| "resp_text fb (Begin status ct) a = ([], (fst a, Some (status, ct)))"
| "resp_text fb (Piece data) a = (chunk_head a @ piece_text data, (fst a, None))"
| "resp_text fb End a = (chunk_head a @ CHUNKED_TERMINATOR, (fst a, None))"
| "resp_text fb (End_last data) a = (chunk_head a @ (if data = [] then [] else piece_text data) @ CHUNKED_TERMINATOR, (fst a, None))"
| "resp_text fb (File offset n) a = (fb offset n, a)"
| "resp_text fb (Raw data) a = (data, a)"

fun resp_texts :: "(nat \<Rightarrow> nat \<Rightarrow> string) \<Rightarrow> resp list \<Rightarrow> resp_state \<Rightarrow> string" where
  "resp_texts fb [] a = []"
| "resp_texts fb (r # rs) a = fst (resp_text fb r a) @ resp_texts fb rs (snd (resp_text fb r a))"

text \<open>Sizes are those of a \<open>size_t\<close>, and what one send transfers is counted in an \<open>int\<close>. A chunk is not empty, and a file
  has the bytes that are asked for.\<close>

definition sendable :: "string \<Rightarrow> bool" where
  "sendable bs \<longleftrightarrow> length bs < 2 ^ 31"

fun valid_resp :: "(nat \<Rightarrow> nat \<Rightarrow> string) \<Rightarrow> resp \<Rightarrow> bool" where
  "valid_resp fb (Whole status ct body) = (sendable ct \<and> sendable body)"
| "valid_resp fb (Headers status ct n) = (sendable ct \<and> n < 2 ^ 64)"
| "valid_resp fb (Begin status ct) = sendable ct"
| "valid_resp fb (Piece data) = (data \<noteq> [] \<and> sendable data)"
| "valid_resp fb End = True"
| "valid_resp fb (End_last data) = sendable data"
| "valid_resp fb (File offset n) = (0 < n \<and> length (fb offset n) = n \<and> sendable (fb offset n))"
| "valid_resp fb (Raw data) = (data \<noteq> [] \<and> sendable data)"

fun pending_ok :: "resp_state \<Rightarrow> bool" where
  "pending_ok (keep, None) = True"
| "pending_ok (keep, Some (status, ct)) = sendable ct"

lemma status_text_length: "length (status_text code) \<le> 25"
  by (simp add: status_text_def)

lemma sendable_texts:
  "sendable (StatusLine code)" "sendable CONTENT_TYPE" "sendable CONTENT_LENGTH" "sendable CRLF" "sendable TRANSFER_ENCODING_CHUNKED"
  "sendable CONN_KEEP_ALIVE" "sendable CONN_CLOSE" "sendable CHUNKED_TERMINATOR" "n < 2 ^ 64 \<Longrightarrow> sendable (decimal_text n)"
  "n < 2 ^ 64 \<Longrightarrow> sendable (hex_text n)"
proof -
  show "sendable (StatusLine code)" using status_text_length [of code] by (simp add: sendable_def StatusLine_def CRLF_def)
  show "n < 2 ^ 64 \<Longrightarrow> sendable (decimal_text n)" using put_decimal_length [of n 20 "[]"] by (simp add: sendable_def decimal_text_def)
  show "n < 2 ^ 64 \<Longrightarrow> sendable (hex_text n)" using put_hex_length [of n 16 "[]"] by (simp add: sendable_def hex_text_def)
qed (simp_all add: sendable_def CONTENT_TYPE_def CONTENT_LENGTH_def CRLF_def TRANSFER_ENCODING_CHUNKED_def CONN_KEEP_ALIVE_def CONN_CLOSE_def
  CHUNKED_TERMINATOR_def)

lemma writes_sendable: "sendable data \<Longrightarrow> writes a data (hAppend data)"
  by (simp add: sendable_def writes_append)

lemma writes_trailer: "writes a (trailer_text (fst a)) AppendConnectionTrailer"
  using writes_sendable [OF sendable_texts(6), of a] writes_sendable [OF sendable_texts(7), of a]
  by (auto simp: writes_def AppendConnectionTrailer_def AppendLiteral_def trailer_text_def resp_of_def)

lemma writes_uint: "n < 2 ^ 64 \<Longrightarrow> writes a (decimal_text n) (AppendUInt n)"
  using writes_sendable [OF sendable_texts(9), of n a] by (simp add: AppendUInt_def decimal_text_def)

lemma writes_hex: "n < 2 ^ 64 \<Longrightarrow> writes a (hex_text n) (AppendHex n)"
  using writes_sendable [OF sendable_texts(10), of n a] by (simp add: AppendHex_def)

lemmas writes_intros = writes_sendable writes_trailer writes_uint writes_hex writes_flush sendable_texts

lemma response_head_writes:
  "sendable ct \<Longrightarrow> n < 2 ^ 64 \<Longrightarrow> list_all2 (writes a)
     [StatusLine status, CONTENT_TYPE, ct, CONTENT_LENGTH, decimal_text n, CRLF, trailer_text (fst a)] (response_head status ct n)"
  by (auto simp: response_head_def AppendLiteral_def intro!: writes_intros)

lemma head_then:
  assumes "sendable ct" "n < 2 ^ 64" "writes (resp_of st) bs f" "ready st"
  shows "outcome st (resp_of st) (head_text (fst (resp_of st)) status ct n @ bs) (all_of (response_head status ct n @ [f]) st)"
proof -
  have "list_all2 (writes (resp_of st)) ([StatusLine status, CONTENT_TYPE, ct, CONTENT_LENGTH, decimal_text n, CRLF, trailer_text (fst (resp_of st))] @ [bs])
      (response_head status ct n @ [f])"
    using assms(3) by (intro list_all2_appendI response_head_writes assms(1,2)) simp
  from all_of_writes [OF this assms(4) refl] show ?thesis by (simp add: head_text_def del: all_of.simps)
qed

lemma flush_raw_writes:
  assumes "data \<noteq> []" "sendable data"
  shows "writes a data (all_of [hFlush, SendRaw data])"
  unfolding writes_def using assms flush_then [of _ data "SendRaw data"] SendRaw_outcome(1) by (auto simp: sendable_def simp del: all_of.simps)

lemma send_body_writes:
  assumes "sendable body"
  shows "writes a body (send_body body)"
proof -
  have "writes a [] hFlush" by (rule writes_flush)
  moreover have "body \<noteq> [] \<Longrightarrow> writes a body (all_of [hFlush, SendRaw body])" by (rule flush_raw_writes [OF _ assms])
  moreover have "outcome st a (concat [body, []]) (all_of [hAppend body, hFlush] st)" if "ready st" "resp_of st = a" for st
    by (rule all_of_writes) (use that assms in \<open>auto intro!: writes_intros\<close>)
  ultimately show ?thesis by (auto simp: writes_def send_body_def simp del: all_of.simps)
qed

lemma outcome_same: "accepted st1 = accepted st \<Longrightarrow> all_sent st1 = all_sent st \<Longrightarrow> outcome st1 a bs r \<Longrightarrow> outcome st a bs r"
  by (simp add: outcome_def)

lemma chunked_headers_outcome:
  assumes "ready st" "pending_ok (resp_of st)"
  shows "outcome st (fst (resp_of st), None) (chunk_head (resp_of st)) (chunked_headers st)"
proof (cases "m_chunkedHeadersPending st")
  case True
  let ?st = "st\<lparr>m_chunkedHeadersPending := False\<rparr>" and ?a = "(fst (resp_of st), None) :: resp_state"
  let ?ct = "m_chunkedContentType st"
  have ct: "sendable ?ct" using assms(2) True by (simp add: resp_of_def)
  have "list_all2 (writes ?a) [StatusLine (m_chunkedStatus st), CONTENT_TYPE, ?ct, CRLF, TRANSFER_ENCODING_CHUNKED, trailer_text (fst ?a)]
     [hAppend (StatusLine (m_chunkedStatus st)), AppendLiteral CONTENT_TYPE, hAppend ?ct, AppendLiteral CRLF,
      AppendLiteral TRANSFER_ENCODING_CHUNKED, AppendConnectionTrailer]"
    using ct by (auto simp: AppendLiteral_def intro!: writes_intros writes_trailer [where a = ?a, simplified])
  from all_of_writes [OF this, of ?st] assms(1) True have "outcome ?st ?a (chunk_head (resp_of st)) (chunked_headers st)"
    by (simp add: chunked_headers_def ready_def resp_of_def del: all_of.simps)
  then show ?thesis by (rule outcome_same [rotated 2]) (simp_all add: accepted_def all_sent_def)
next
  case False
  then show ?thesis using outcome_skip [OF assms(1)] by (simp add: chunked_headers_def resp_of_def)
qed

lemma after_headers:
  assumes st: "ready st" "pending_ok (resp_of st)"
    and fs: "list_all2 (writes (fst (resp_of st), None)) bss fs"
  shows "outcome st (fst (resp_of st), None) (chunk_head (resp_of st) @ concat bss) (all_of (chunked_headers # fs) st)"
  by (rule outcome_all_of [where f = chunked_headers, OF chunked_headers_outcome [OF st] all_of_writes [OF fs]])

lemma piece_writes:
  assumes "sendable data"
  shows "list_all2 (writes a) [hex_text (length data), CRLF, data, CRLF] [AppendHex (length data), AppendLiteral CRLF, hAppend data, AppendLiteral CRLF]"
  using assms by (auto simp: AppendLiteral_def sendable_def intro!: writes_hex writes_append sendable_texts [unfolded sendable_def])

lemma send_file_SendRaw: "\<not> m_sendError st \<Longrightarrow> send_file (length bytes) bytes st = SendRaw bytes st"
  by (simp add: send_file_def SendRaw_def)

lemma send_file_outcome:
  assumes "ready st" "0 < n" "length bytes = n" "sendable bytes"
  shows "outcome st (resp_of st) bytes (all_of [hFlush, send_file n bytes] st)"
proof (rule flush_then [OF assms(1)])
  fix st1 assume "ready st1" "m_sendLen st1 = 0"
  then show "outcome st1 (resp_of st1) bytes (send_file n bytes st1)"
    using assms SendRaw_outcome(1) [of st1 bytes] send_file_SendRaw [of st1 bytes] by (auto simp: sendable_def ready_def)
qed

lemma resp_step_outcome:
  assumes st: "ready st" "pending_ok (resp_of st)" and v: "valid_resp fb r"
  shows "outcome st (snd (resp_text fb r (resp_of st))) (fst (resp_text fb r (resp_of st))) (resp_step fb r st)"
proof -
  have e: "\<not> m_sendError st" using st(1) by (simp add: ready_def)
  note [simp del] = all_of.simps
  have ended: "outcome st (fst (resp_of st), None) (chunk_head (resp_of st) @ CHUNKED_TERMINATOR) (EndChunked st)"
    using after_headers [OF st, of "[CHUNKED_TERMINATOR, []]" "[AppendLiteral CHUNKED_TERMINATOR, hFlush]"] e
    by (simp add: EndChunked_def AppendLiteral_def writes_intros)
  show ?thesis
  proof (cases r)
    case (Whole status ct body)
    then have "length body < 2 ^ 64" using v by (simp add: sendable_def)
    then show ?thesis
      using Whole v e head_then [OF _ _ send_body_writes st(1)] by (simp add: hSend_def)
  next
    case (Headers status ct n)
    then show ?thesis
      using v e head_then [OF _ _ writes_flush st(1)] by (simp add: SendHeaders_def)
  next
    case (Begin status ct)
    then show ?thesis using e st(1) by (auto simp: BeginChunked_def outcome_def ready_def resp_of_def accepted_def all_sent_def)
  next
    case (Piece data)
    then show ?thesis
      using v e after_headers [OF st list_all2_appendI [OF piece_writes, of data _ "[[]]" "[hFlush]"]]
      by (simp add: SendChunk_def piece_text_def writes_flush)
  next
    case End
    then show ?thesis using ended by simp
  next
    case (End_last data)
    then show ?thesis
      using v e ended after_headers [OF st list_all2_appendI [OF piece_writes, of data _ "[CHUNKED_TERMINATOR, []]"
        "[AppendLiteral CHUNKED_TERMINATOR, hFlush]"]]
      by (simp add: EndChunked_last_def piece_text_def AppendLiteral_def writes_intros)
  next
    case (File offset n)
    then show ?thesis using v e send_file_outcome [OF st(1)] by (simp add: Sendfile_def)
  next
    case (Raw data)
    then show ?thesis using v flush_raw_writes [of data "resp_of st"] st(1) by (simp add: SendRawBytes_def writes_def)
  qed
qed

text \<open>A call that succeeds leaves nothing in the send buffer.\<close>

definition empties :: "writer \<Rightarrow> bool" where
  "empties f \<longleftrightarrow> (\<forall>st st1. f st = Some (True, st1) \<longrightarrow> m_sendLen st1 = 0)"

lemma empties_flush: "empties hFlush"
  by (auto simp: empties_def hFlush_def bind_eq_Some_conv split: if_splits)

lemma all_of_snoc: "all_of (fs @ [f]) st = Some (True, st1) \<Longrightarrow> \<exists>st0. f st0 = Some (True, st1)"
proof (induction fs arbitrary: st)
  case Nil
  then have "f st = Some (True, st1)" by (simp only: append_Nil all_of_one)
  then show ?case by blast
next
  case (Cons g fs)
  obtain ok st2 where "g st = Some (ok, st2)" using Cons.prems by (cases "g st") auto
  then show ?case using Cons by (cases ok) auto
qed

lemma empties_last: "empties f \<Longrightarrow> empties (all_of (fs @ [f]))"
  unfolding empties_def using all_of_snoc by blast

lemma empties_then:
  assumes "\<And>st ok st1. g st = Some (ok, st1) \<Longrightarrow> m_sendLen st1 = m_sendLen st"
  shows "empties (all_of [hFlush, g])"
proof -
  have "m_sendLen st1 = 0" if r: "all_of [hFlush, g] st = Some (True, st1)" for st st1
  proof -
    obtain ok st2 where h: "hFlush st = Some (ok, st2)" using r by (cases "hFlush st") auto
    then have ok and g: "g st2 = Some (True, st1)" using r all_of_one [of g st2] by (auto simp del: all_of_one split: if_splits)
    then show ?thesis using assms [OF g] h empties_flush by (simp add: empties_def)
  qed
  then show ?thesis by (simp add: empties_def del: all_of.simps)
qed

lemma empties_raw: "empties (all_of [hFlush, SendRaw data])" "empties (all_of [hFlush, send_file n data])"
proof -
  have "m_sendLen st1 = m_sendLen st" if "send_file n data st = Some (ok, st1)" for st ok st1
    using that hTransportSendAll_frame(2) [of data st] by (cases "hTransportSendAll data st") (auto simp: send_file_def split: if_splits)
  then show "empties (all_of [hFlush, send_file n data])" by (rule empties_then)
  show "empties (all_of [hFlush, SendRaw data])" by (rule empties_then) (simp add: SendRaw_frame)
qed

lemma empties_body: "empties (send_body body)"
  using empties_flush empties_raw(1) empties_last [of hFlush "[hAppend body]"]
  by (auto simp: empties_def send_body_def simp del: all_of.simps split: if_splits)

lemma resp_step_empties:
  assumes "resp_step fb r st = Some (True, st1)" "m_sendLen st = 0"
  shows "m_sendLen st1 = 0"
proof -
  note [simp del] = all_of.simps
  have last: "m_sendLen st1 = 0" if "all_of (fs @ [f]) st = Some (True, st1)" "empties f" for fs f
    using that empties_last [of f fs] by (simp add: empties_def)
  have ended: "m_sendLen st1 = 0" if "EndChunked st = Some (True, st1)"
    using that last [of "[chunked_headers, AppendLiteral CHUNKED_TERMINATOR]" hFlush] empties_flush by (simp add: EndChunked_def)
  show ?thesis
  proof (cases r)
    case (Whole status ct body)
    then show ?thesis using assms(1) by (auto simp: hSend_def intro: last [OF _ empties_body])
  next
    case (Headers status ct n)
    then show ?thesis using assms(1) by (auto simp: SendHeaders_def intro: last [OF _ empties_flush])
  next
    case (Piece data)
    then show ?thesis
      using assms last [of "[chunked_headers, AppendHex (length data), AppendLiteral CRLF, hAppend data, AppendLiteral CRLF]" hFlush] empties_flush
      by (simp add: SendChunk_def split: if_splits)
  next
    case (End_last data)
    then show ?thesis
      using assms ended empties_flush last [of "[chunked_headers, AppendHex (length data), AppendLiteral CRLF, hAppend data, AppendLiteral CRLF,
        AppendLiteral CHUNKED_TERMINATOR]" hFlush]
      by (simp add: EndChunked_last_def split: if_splits)
  next
    case (File offset n)
    then show ?thesis using assms empties_raw(2) [of n "fb offset n"] by (auto simp: Sendfile_def empties_def)
  next
    case (Raw data)
    then show ?thesis using assms empties_raw(1) [of data] by (simp add: SendRawBytes_def empties_def)
  qed (use assms ended in \<open>auto simp: BeginChunked_def\<close>)
qed

definition respond :: "(nat \<Rightarrow> nat \<Rightarrow> string) \<Rightarrow> resp list \<Rightarrow> writer" where
  "respond fb rs = all_of (map (resp_step fb) rs)"

lemma respond_simps:
  "respond fb [] st = Some (True, st)"
  "resp_step fb r st = Some (True, st1) \<Longrightarrow> respond fb (r # rs) st = respond fb rs st1"
  "resp_step fb r st = Some (False, st1) \<Longrightarrow> respond fb (r # rs) st = Some (False, st1)"
  unfolding respond_def list.map all_of.simps by (rule refl, (erule ssubst, simp only: bind.bind_lunit prod.case if_True if_False)+)

lemma pending_ok_step: "valid_resp fb r \<Longrightarrow> pending_ok a \<Longrightarrow> pending_ok (snd (resp_text fb r a))"
  by (cases r) (cases a, simp)+

lemma respond_outcome:
  assumes "ready st" "m_sendLen st = 0" "pending_ok (resp_of st)" "list_all (valid_resp fb) rs"
  shows "\<exists>ok st1. respond fb rs st = Some (ok, st1) \<and> (all_sent st \<longrightarrow> ok) \<and> (ok \<longrightarrow> x_wire st1 = x_wire st @ resp_texts fb rs (resp_of st)) \<and>
    (\<not> ok \<longrightarrow> m_sendError st1 \<and> prefix (x_wire st1) (x_wire st @ resp_texts fb rs (resp_of st)))"
  using assms
proof (induction rs arbitrary: st)
  case Nil
  show ?case by (rule exI [of _ True], rule exI [of _ st]) (simp add: respond_simps)
next
  case (Cons r rs)
  let ?t = "resp_text fb r (resp_of st)"
  have w: "accepted st = x_wire st" using Cons.prems(2) by (simp add: accepted_def)
  from Cons.prems have "outcome st (snd ?t) (fst ?t) (resp_step fb r st)" by (intro resp_step_outcome) simp_all
  then show ?case
  proof (cases rule: outcome_cases)
    case (ok st1)
    have z: "m_sendLen st1 = 0" by (rule resp_step_empties [OF ok(1) Cons.prems(2)])
    then have w1: "x_wire st1 = x_wire st @ fst ?t" using ok(4) w by (simp add: accepted_def)
    have p: "pending_ok (resp_of st1)" "list_all (valid_resp fb) rs" using ok(3) Cons.prems pending_ok_step [of fb r "resp_of st"] by simp_all
    from Cons.IH [OF ok(2) z p] obtain b st2 where
      n: "respond fb rs st1 = Some (b, st2)" "all_sent st1 \<longrightarrow> b" "b \<longrightarrow> x_wire st2 = x_wire st1 @ resp_texts fb rs (snd ?t)"
      "\<not> b \<longrightarrow> m_sendError st2 \<and> prefix (x_wire st2) (x_wire st1 @ resp_texts fb rs (snd ?t))" unfolding ok(3) by blast
    have "respond fb (r # rs) st = Some (b, st2)" using respond_simps(2) [OF ok(1)] n(1) by simp
    then show ?thesis using ok(5) n(2,3,4) w1 by (intro exI [of _ b] exI [of _ st2]) simp
  next
    case (failed st1)
    have "prefix (x_wire st1) ((x_wire st @ fst ?t) @ resp_texts fb rs (snd ?t))"
      using failed(4) unfolding w by (rule prefix_prefix)
    moreover have "respond fb (r # rs) st = Some (False, st1)" by (rule respond_simps(3) [OF failed(1)])
    ultimately show ?thesis using failed(2,3) by (intro exI [of _ False] exI [of _ st1]) simp
  qed
qed

text \<open>C38. For any send buffer and any sequence of response calls, the bytes on the wire are the texts of the calls in order,
  with the chunked header block written once before its first chunk; when a send fails the call returns false, the error
  is recorded, and a prefix of these bytes is on the wire. No call fails an assertion before an error.\<close>

theorem response_wire:
  assumes "m < 2 ^ 31" "list_all (valid_resp fb) rs"
  shows "\<exists>ok st. respond fb rs (http_new n m ins outs) = Some (ok, st) \<and> (set outs \<subseteq> {Sent} \<longrightarrow> ok) \<and>
    (ok \<longrightarrow> x_wire st = resp_texts fb rs (True, None)) \<and> (\<not> ok \<longrightarrow> m_sendError st \<and> prefix (x_wire st) (resp_texts fb rs (True, None)))"
  using respond_outcome [of "http_new n m ins outs" fb rs] assms by (simp add: ready_def resp_of_def http_new_def all_sent_def)

theorem response_wire_witness:
  "\<exists>st. respond (\<lambda>offset n. replicate n (CHR ''x'')) [Whole 200 ''a'' ''hello'', Begin 200 ''b'', Piece ''hi'', End, File 0 3] (http_new 4 7 [] []) = Some (True, st) \<and>
    x_wire st = head_text True 200 ''a'' (length ''hello'') @ ''hello'' @ chunk_head (True, Some (200, ''b'')) @ piece_text ''hi'' @ CHUNKED_TERMINATOR @ replicate 3 (CHR ''x'')"
  using response_wire [of 7 "\<lambda>offset n. replicate n (CHR ''x'')" "[Whole 200 ''a'' ''hello'', Begin 200 ''b'', Piece ''hi'', End, File 0 3]" 4 "[]" "[]"]
  by (auto simp: sendable_def)

end
