(* ===== verification/Http_Limits.thy ===== *)
theory Http_Limits
  imports Http_Request Http_Response
begin

text \<open>
  Where the HTTP parser fails: states from which \<open>AdvanceToPhase\<close> loops for ever, the chunk sizes it misreads, and inputs it
  misreads because of how they were segmented.
\<close>

section \<open>Calls that do not return\<close>

text \<open>No more bytes can reach the parser: the context is killed, the peer sends nothing more, or the buffer is full.\<close>

definition quiet :: "http \<Rightarrow> bool" where
  "quiet st \<longleftrightarrow> x_killed st \<or> to_come st = 0 \<or> m_bufLen st - m_parsePos st = length (m_buf st)"

text \<open>A header line that has no colon and no line end so far.\<close>

definition header_stuck :: "http \<Rightarrow> bool" where
  "header_stuck st \<longleftrightarrow> m_phase st = HEADERS \<and> m_valueConsumed st \<and> quiet st \<and>
     (\<exists>pre u post. buffered st pre u post \<and> CHR '':'' \<notin> set u \<and> CHR 0x0D \<notin> set u)"

text \<open>A request line that was refused after its method had been stored.\<close>

definition line_stuck :: "http \<Rightarrow> bool" where
  "line_stuck st \<longleftrightarrow> m_phase st = REQUEST_LINE \<and> m_requestLineParsed st \<and> 0 < snd (rl_method (m_requestLine st))"

lemma hCompact_buffered: "buffered st pre u post \<Longrightarrow> \<exists>post1. buffered (hCompact st) [] u post1"
  by (auto simp: buffered_def hCompact_def Let_def memcpy_def)

lemma hRecvMore_quiet:
  assumes "quiet st" "m_parsePos st = 0"
  shows "\<exists>st1. hRecvMore st = (False, st1) \<and> m_buf st1 = m_buf st \<and> m_bufLen st1 = m_bufLen st \<and> m_parsePos st1 = 0 \<and> quiet st1"
proof (cases "x_killed st \<or> length (m_buf st) \<le> m_bufLen st")
  case True
  then show ?thesis using assms by (auto simp: hRecvMore_def Let_def hCompact_def)
next
  case False
  then have "to_come st = 0" using assms by (auto simp: quiet_def)
  moreover obtain bs k ins where t: "hTransportRecv (length (m_buf st) - m_bufLen st) (x_in st) = (bs, k, ins)" by (metis prod_cases3)
  ultimately have "sum_list (map received_size ins) + length bs = 0" using hTransportRecv_size [OF t] unfolding to_come_def by (simp only:)
  then have "bs = []" "sum_list (map received_size ins) = 0" by simp_all
  then show ?thesis using False t assms by (auto simp: hRecvMore_def Let_def quiet_def to_come_def)
qed

lemma quiet_compact: "buffered st pre u post \<Longrightarrow> quiet st \<Longrightarrow> quiet (hCompact st)"
  by (auto simp: quiet_def buffered_def hCompact_def Let_def memcpy_def to_come_def)

lemma header_stuck_recv:
  assumes "header_stuck st"
  shows "\<exists>st1. hRecvMore (hCompact st) = (False, st1) \<and> header_stuck st1"
proof -
  obtain pre u post where b: "buffered st pre u post" and u: "CHR '':'' \<notin> set u" "CHR 0x0D \<notin> set u" and q: "quiet st"
    using assms by (auto simp: header_stuck_def)
  obtain post1 where c: "buffered (hCompact st) [] u post1" using hCompact_buffered [OF b] by blast
  obtain st1 where r: "hRecvMore (hCompact st) = (False, st1)" "m_buf st1 = m_buf (hCompact st)" "m_bufLen st1 = m_bufLen (hCompact st)"
    "m_parsePos st1 = 0" "quiet st1" using hRecvMore_quiet [OF quiet_compact [OF b q]] by auto
  have "buffered st1 [] u post1" using c r by (simp add: buffered_def)
  moreover have "m_phase st1 = HEADERS" "m_valueConsumed st1" using hRecvMore_fields(3,11) [OF r(1)] assms by (simp_all add: header_stuck_def)
  ultimately show ?thesis using r(1,5) u by (auto simp: header_stuck_def)
qed

lemma header_stuck_NextHeaderName:
  assumes "header_stuck st"
  shows "\<exists>st1. NextHeaderName_at st = (None, st1) \<and> header_stuck st1"
proof -
  obtain st1 where r: "hRecvMore (hCompact st) = (False, st1)" "header_stuck st1" using header_stuck_recv [OF assms] by blast
  obtain pre u post where b: "buffered st pre u post" and u: "CHR '':'' \<notin> set u" "CHR 0x0D \<notin> set u" using assms by (auto simp: header_stuck_def)
  have ph: "\<not> m_phase st > HEADERS" "m_valueConsumed st" using assms by (auto simp: header_stuck_def)
  show ?thesis
  proof (cases "length u < 2")
    case True
    then have "fill_two st = (False, st1)" using b r by (simp add: fill_two.simps [of st] buffered_def)
    then show ?thesis using ph r by (simp add: NextHeaderName_at_def)
  next
    case False
    then have f: "fill_two st = (True, st)" using b by (simp add: fill_two.simps [of st] buffered_def)
    have "m_buf st ! m_parsePos st = u ! 0" "u ! 0 \<in> set u" using b False by (cases u; auto simp: buffered_def nth_append)+
    then have "m_buf st ! m_parsePos st \<noteq> CHR 0x0D" using u by metis
    moreover have "header_name_loop st = (None, st1)"
      using memchr_none [OF b u(1)] memchr_none [OF b u(2)] r by (simp add: header_name_loop.simps [of st])
    ultimately show ?thesis using ph f r by (simp add: NextHeaderName_at_def)
  qed
qed

lemma header_stuck_SkipHeaders: "header_stuck st \<Longrightarrow> header_stuck (SkipHeaders_at st)"
  using header_stuck_NextHeaderName [of st] by (auto simp: SkipHeaders_at_def skip_headers_loop.simps [of st])

lemma AdvanceToPhase_stuck:
  assumes "AdvanceToPhase target st = Some r"
  shows "\<not> (target = BODY \<and> (header_stuck st \<or> line_stuck st))"
proof (rule AdvanceToPhase.raw_induct [where P = "\<lambda>target st r. \<not> (target = BODY \<and> (header_stuck st \<or> line_stuck st))", OF _ assms], goal_cases)
  case (1 advance target st r)
  note IH = 1(1) and run = 1(2)
  show ?case
  proof
    assume s: "target = BODY \<and> (header_stuck st \<or> line_stuck st)"
    then consider "header_stuck st" | "line_stuck st" by blast
    then show False
    proof cases
      case 1
      then have "m_phase st = HEADERS" by (simp add: header_stuck_def)
      then have "advance BODY (SkipHeaders_at st) = Some r" using run s by (simp add: phase_order)
      then show ?thesis using IH header_stuck_SkipHeaders [OF 1] by blast
    next
      case 2
      then have "GetRequestLine st = (True, st)" "m_phase st = REQUEST_LINE" by (simp_all add: line_stuck_def GetRequestLine_def)
      then have "advance BODY st = Some r" using run s by (simp add: phase_order)
      then show ?thesis using IH 2 by blast
    qed
  qed
qed

lemma in_phase_stuck: "header_stuck st \<or> line_stuck st \<Longrightarrow> in_phase BODY st = None"
  using AdvanceToPhase_stuck [of BODY st] by (cases "AdvanceToPhase BODY st") (auto simp: in_phase_def header_stuck_def line_stuck_def phase_order)

text \<open>C40. In two kinds of states a peer can bring about, the calls that read or skip the body never return: when a header
  line stays without a colon or line end (because the peer closed, the context was killed, or the line fills the
  buffer), and after a request line that \<open>GetRequestLine\<close> refused with its method already stored.\<close>

theorem body_calls_spin:
  assumes "header_stuck st \<or> line_stuck st"
  shows "ReadBody st = None \<and> SkipBody st = None \<and> (m_contentLength st < 0 \<longrightarrow> ContentLength st = None)"
  using in_phase_stuck [OF assms] by (simp add: ReadBody_def SkipBody_def ContentLength_def)

theorem body_calls_spin_witness:
  "(\<exists>st. GetRequestLine (http_new 16 8 [Bytes (''X'' @ [CHR 0x0D, CHR 0x0A] @ ''Y Z'')] []) = (False, st) \<and> SkipBody st = None) \<and>
   (\<exists>st. AdvanceToPhase HEADERS (http_new 16 8 [Bytes (''G / H'' @ [CHR 0x0D, CHR 0x0A] @ ''Host'')] []) = Some (True, st) \<and> SkipBody st = None)"
proof
  let ?a = "http_new 16 8 [Bytes (''X'' @ [CHR 0x0D, CHR 0x0A] @ ''Y Z'')] []"
  have "\<not> fst (GetRequestLine ?a)" "line_stuck (snd (GetRequestLine ?a))" by code_simp+
  then show "\<exists>st. GetRequestLine ?a = (False, st) \<and> SkipBody st = None"
    using body_calls_spin [of "snd (GetRequestLine ?a)"] by (cases "GetRequestLine ?a") auto
next
  let ?b = "http_new 16 8 [Bytes (''G / H'' @ [CHR 0x0D, CHR 0x0A] @ ''Host'')] []"
  let ?r = "AdvanceToPhase HEADERS ?b"
  have "map_option (\<lambda>(ok, st). (ok, m_phase st, m_valueConsumed st, take 11 (m_buf st), length (m_buf st), m_parsePos st, m_bufLen st, to_come st)) ?r =
      Some (True, HEADERS, True, ''G / H'' @ [CHR 0x0D, CHR 0x0A] @ ''Host'', 16, 7, 11, 0)" by code_simp
  then obtain st where st: "?r = Some (True, st)" "m_phase st = HEADERS" "m_valueConsumed st" "take 11 (m_buf st) = ''G / H'' @ [CHR 0x0D, CHR 0x0A] @ ''Host''"
    "m_parsePos st = 7" "m_bufLen st = 11" "to_come st = 0" by auto
  have "buffered st (''G / H'' @ [CHR 0x0D, CHR 0x0A]) ''Host'' (drop 11 (m_buf st))"
    using st append_take_drop_id [of 11 "m_buf st"] by (simp add: buffered_def)
  then have "header_stuck st" using st unfolding header_stuck_def quiet_def
    by (intro conjI exI [of _ "''G / H'' @ [CHR 0x0D, CHR 0x0A]"] exI [of _ "''Host''"] exI [of _ "drop 11 (m_buf st)"]) auto
  then show "\<exists>st. ?r = Some (True, st) \<and> SkipBody st = None" using st(1) body_calls_spin [of st] by auto
qed

section \<open>Chunk sizes\<close>

text \<open>The value the parser gives to the digits the sender writes: a letter counts as its low four bits.\<close>

fun read_value :: "nat \<Rightarrow> nat" where
  "read_value n = (if n = 0 then 0 else 16 * read_value (n div 16) + (if n mod 16 < 10 then n mod 16 else n mod 16 - 9))"

declare read_value.simps [simp del]

lemma HEX_low: "d < 16 \<Longrightarrow> (of_char (HEX ! d) :: nat) mod 16 = (if d < 10 then d else d - 9)"
proof -
  have "\<forall>d \<in> set [0..<16]. (of_char (HEX ! d) :: nat) mod 16 = (if d < 10 then d else d - 9)" by code_simp
  then show "d < 16 \<Longrightarrow> ?thesis" by simp
qed

lemma HEX_decimal: "d < 16 \<Longrightarrow> HEX ! d \<in> set ''0123456789'' \<longleftrightarrow> d < 10" "d < 16 \<Longrightarrow> HEX ! d \<noteq> CHR '';''"
proof -
  have "\<forall>d \<in> set [0..<16]. (HEX ! d \<in> set ''0123456789'') = (d < 10) \<and> HEX ! d \<noteq> CHR '';''" by code_simp
  then show "d < 16 \<Longrightarrow> HEX ! d \<in> set ''0123456789'' \<longleftrightarrow> d < 10" "d < 16 \<Longrightarrow> HEX ! d \<noteq> CHR '';''" by simp_all
qed

lemma put_hex_append: "put_hex n (xs @ ys) = put_hex n xs @ ys"
proof (induction n xs rule: put_hex.induct)
  case (1 n xs)
  then show ?case by (cases "n > 0") (simp_all add: put_hex.simps [of n] put_hex.simps [of 0])
qed

lemma put_hex_snoc: "0 < n \<Longrightarrow> put_hex n [] = put_hex (n div 16) [] @ [HEX ! (n mod 16)]"
  using put_hex_append [of "n div 16" "[]" "[HEX ! (n mod 16)]"] by (simp add: put_hex.simps [of n])

lemma put_hex_digits: "CHR '';'' \<notin> set (put_hex n [])"
proof (induction n rule: less_induct)
  case (less n)
  then show ?case
    using HEX_decimal(2) [of "n mod 16"] by (cases "n = 0") (auto simp: put_hex.simps [of 0] put_hex_snoc [of n])
qed

definition size_step :: "char \<Rightarrow> u64 \<Rightarrow> u64" where
  "size_step c n = push_bit 4 n + of_nat (of_char c mod 16)"

lemma chunk_size_digits: "CHR '';'' \<notin> set line \<Longrightarrow> chunk_size line = fold size_step line 0"
proof -
  assume "CHR '';'' \<notin> set line"
  then have "takeWhile (\<lambda>c. c \<noteq> CHR '';'') line = line" by (auto simp: takeWhile_eq_all_conv)
  then show ?thesis by (simp only: chunk_size_def size_step_def [abs_def])
qed

lemma fold_put_hex: "fold size_step (put_hex n []) 0 = of_nat (read_value n)"
proof (induction n rule: less_induct)
  case (less n)
  show ?case
  proof (cases "n = 0")
    case True
    then show ?thesis by (simp add: put_hex.simps [of 0] read_value.simps [of 0])
  next
    case False
    then have "fold size_step (put_hex (n div 16) []) 0 = of_nat (read_value (n div 16))" using less by simp
    moreover have "size_step (HEX ! (n mod 16)) (of_nat (read_value (n div 16))) = of_nat (read_value n)"
      using False HEX_low [of "n mod 16"] by (simp add: size_step_def read_value.simps [of n] push_bit_eq_mult)
    ultimately show ?thesis using False by (simp add: put_hex_snoc [of n])
  qed
qed

lemma read_value_le: "read_value n \<le> n \<and> (read_value n = n \<longleftrightarrow> set (put_hex n []) \<subseteq> set ''0123456789'')"
proof (induction n rule: less_induct)
  case (less n)
  show ?case
  proof (cases "n = 0")
    case True
    then show ?thesis by (simp add: put_hex.simps [of 0] read_value.simps [of 0])
  next
    case False
    let ?v = "read_value (n div 16)" and ?d = "n mod 16"
    have IH: "?v \<le> n div 16" "?v = n div 16 \<longleftrightarrow> set (put_hex (n div 16) []) \<subseteq> set ''0123456789''" using less [of "n div 16"] False by simp_all
    have n: "n = 16 * (n div 16) + ?d" by simp
    have r: "read_value n = 16 * ?v + (if ?d < 10 then ?d else ?d - 9)" using False by (simp add: read_value.simps [of n])
    have aux: "(rv = m) = (v = q \<and> d < 10)" "rv \<le> m" if "rv = 16 * v + (if d < 10 then d else d - 9)" "m = 16 * q + d" "v \<le> q" for rv m v q d :: nat
      using that by (cases "d < 10"; auto)+
    have "read_value n = n \<longleftrightarrow> ?v = n div 16 \<and> ?d < 10" by (rule aux(1) [OF r n IH(1)])
    moreover have "read_value n \<le> n" by (rule aux(2) [OF r n IH(1)])
    moreover have "set (put_hex n []) = insert (HEX ! ?d) (set (put_hex (n div 16) []))" using False by (simp add: put_hex_snoc [of n])
    moreover have "HEX ! ?d \<in> set ''0123456789'' \<longleftrightarrow> ?d < 10" by (rule HEX_decimal(1)) simp
    ultimately show ?thesis using IH(2) by (metis insert_subset)
  qed
qed

text \<open>C39. Of the sizes \<open>AppendHex\<close> writes in front of a chunk, \<open>ReadChunkedBody\<close> reads back exactly those whose hexadecimal
  digits are all decimal digits; any other it reads as a smaller number.\<close>

theorem chunk_size_reads:
  assumes "n < 2 ^ 64"
  shows "unat (chunk_size (hex_text n)) \<le> n \<and> (unat (chunk_size (hex_text n)) = n \<longleftrightarrow> set (hex_text n) \<subseteq> set ''0123456789'')"
proof (cases "n = 0")
  case True
  have "unat (chunk_size ''0'') = 0" by code_simp
  then show ?thesis using True by (simp add: hex_text_def)
next
  case False
  have "read_value n < 2 ^ 64" using read_value_le [of n] assms by linarith
  then have "unat (chunk_size (put_hex n [])) = read_value n"
    by (simp add: chunk_size_digits [OF put_hex_digits] fold_put_hex unsigned_of_nat take_bit_nat_eq_self)
  then show ?thesis using False read_value_le [of n] unfolding hex_text_def by simp
qed

theorem chunk_size_reads_witness: "hex_text 10 = ''a'' \<and> unat (chunk_size ''a'') = 1 \<and> unat (chunk_size (hex_text 16)) = 16"
proof -
  have h: "hex_text 10 = ''a''" "hex_text 16 = ''10''" "unat (chunk_size ''a'') = 1" by code_simp+
  have "set (hex_text 16) \<subseteq> set ''0123456789''" unfolding h by simp
  then show ?thesis using chunk_size_reads [of 16] h by simp
qed

section \<open>Inputs it misreads\<close>

text \<open>The last argument of a query has no value: after its name the parser returns empty names for the pieces of the rest of
  the head, since the blank behind the name was overwritten.\<close>

lemma flag_argument:
  "(let st0 = http_new 64 8 [Bytes (''G /?f H'' @ CRLF @ ''A: b'' @ CRLF @ CRLF)] [];
        r1 = the (NextArgName st0); r2 = the (NextArgName (snd r1)); r3 = the (NextArgName (snd r2))
    in map_option (c_string (snd r1)) (fst r1) = Some ''f'' \<and> map_option (c_string (snd r2)) (fst r2) = Some [] \<and>
       map_option (c_string (snd r3)) (fst r3) = Some [])"
  by code_simp

text \<open>A line end split between two receives ends the headers.\<close>

lemma split_line_end:
  "map_option (\<lambda>(hs, st). (hs, m_phase st, m_contentLength st)) (read_headers (http_new 64 8
     [Bytes (''G / H'' @ CRLF @ ''A: b'' @ [CHR 0x0D]), Bytes ([CHR 0x0A] @ ''Content-Length: 3'' @ CRLF @ CRLF @ ''xyz'')] []))
   = Some ([(''A'', ''b'')], BODY, -1)"
  by code_simp

text \<open>Of a length split between two receives only the last part counts.\<close>

lemma split_content_length:
  "map_option fst (ContentLength (http_new 64 8 [Bytes (''G / H'' @ CRLF @ ''Content-Length: 1''), Bytes (''2'' @ CRLF @ CRLF)] [])) = Some 2"
  by code_simp

text \<open>The bytes of a chunk are overwritten when the line end behind it comes with a later receive.\<close>

lemma chunk_overwritten:
  "map_option fst (read_body (http_new 64 8 [Bytes (''G / H'' @ CRLF @ ''Transfer-Encoding: chunked'' @ CRLF @ CRLF @ ''5'' @ CRLF),
     Bytes ''hello'', Bytes (CRLF @ ''0'' @ CRLF @ CRLF)] [])) = Some (CRLF @ ''0'' @ CRLF)"
  by code_simp

end
