(* ===== verification/Spec2Isabelle.thy ===== *)
theory Spec2Isabelle
  imports List_Pool Timer_Service Runtime Continuations Cooperator_Loop Submissions Counting_Channel Ws_Upgrade Ws_Connection Http_Safety Http_Limits
begin

text \<open>
  Verification of coop, a cooperative multitasking runtime on io_uring (\<open>src/coop\<close>).

  \<^item> \<open>Embedded_List\<close>, \<open>List_Pool\<close>: the intrusive lists of \<open>coop/detail/embedded_list.h\<close>.
  \<^item> \<open>Timer_Queue\<close>, \<open>Deadline_Queue\<close>, \<open>Timer_Service\<close>: the pairing heap of
    \<open>coop/time/timer_queue.h\<close> and the timer service of \<open>coop/cooperator.cpp\<close>.
  \<^item> \<open>Scheduler\<close>, \<open>Coordination\<close>, \<open>Multi_Coordination\<close>, \<open>Context_Life\<close>, \<open>Context_Tree\<close>, \<open>Runtime\<close>: scheduling, coordinators,
    signals, and the life of contexts.
\<close>

end
